(* ===== verification/Prelude.thy ===== *)
theory Prelude
  imports Main "HOL-Library.Word" "HOL-Library.List_Lexorder" "HOL-Library.Char_ord"
    "HOL-Library.Multiset" "HOL-Library.Monad_Syntax"
begin

text \<open>
  Shared vocabulary of the development: the machine types of the Go sources, byte slices with
  their nil value, \<open>bytes.Compare\<close>, the binary search of \<open>sort.Search\<close>, and the facts on
  lists and words that the component theories use.
\<close>

section \<open>Machine types\<close>

type_synonym byte = "8 word"
type_synonym u8 = "8 word"
type_synonym u32 = "32 word"
type_synonym u64 = "64 word"

text \<open>
  A Go \<open>[]byte\<close> is a byte list where nil and the empty slice are treated alike (keys), and
  a \<open>slice\<close>, with \<open>None\<close> for nil, where the code distinguishes the two (values, hashes,
  iterator bounds).
\<close>

type_synonym bytes = "byte list"
type_synonym slice = "bytes option"

named_theorems compare_simps \<open>facts that turn \<open>bytesCompare\<close> into the order on byte lists\<close>
named_theorems codec_simps \<open>facts that evaluate a decoder on the matching encoder's output\<close>

section \<open>Slices and results\<close>

text \<open>The slice expression \<open>bs[lo:hi]\<close>; out of range it panics, which is \<open>None\<close> here.\<close>

definition sliceAt :: "bytes \<Rightarrow> nat \<Rightarrow> nat \<Rightarrow> bytes option" where
  "sliceAt bs lo hi = (if lo \<le> hi \<and> hi \<le> length bs then Some (take (hi - lo) (drop lo bs)) else None)"

lemma sliceAt_append:
  "sliceAt xs lo hi = Some c \<Longrightarrow> sliceAt (xs @ ys) lo hi = Some c"
  by (auto simp: sliceAt_def split: if_splits)

lemma sliceAt_mid [simp]:
  "sliceAt (xs @ ys @ zs) (length xs) (length xs + length ys) = Some ys"
  by (simp add: sliceAt_def)

lemma sliceAt_all [simp]: "sliceAt xs 0 (length xs) = Some xs"
  by (simp add: sliceAt_def)

text \<open>Sequencing of calls that return an error or a value.\<close>

definition andThen :: "'e + 'a \<Rightarrow> ('a \<Rightarrow> 'e + 'b) \<Rightarrow> 'e + 'b" where
  "andThen r f = (case r of Inl e \<Rightarrow> Inl e | Inr x \<Rightarrow> f x)"

lemma andThen_simps [simp]: "andThen (Inl e) f = Inl e" "andThen (Inr x) f = f x"
  by (auto simp: andThen_def)

lemma andThen_Inr: "andThen r f = Inr y \<longleftrightarrow> (\<exists>x. r = Inr x \<and> f x = Inr y)"
  by (cases r) auto

text \<open>
  A method that changes its receiver and may fail: the receiver is the state, and it keeps what was
  done before the failure.
\<close>

type_synonym ('s, 'e, 'a) action = "'s \<Rightarrow> ('e + 'a) \<times> 's"

definition thenDo :: "('s, 'e, 'a) action \<Rightarrow> ('a \<Rightarrow> ('s, 'e, 'b) action) \<Rightarrow> ('s, 'e, 'b) action" where
  "thenDo f g s = (case f s of (Inl e, s') \<Rightarrow> (Inl e, s') | (Inr x, s') \<Rightarrow> g x s')"

lemma thenDo_Inr: "f s = (Inr x, s') \<Longrightarrow> thenDo f g s = g x s'"
  by (simp add: thenDo_def)

lemma thenDo_Inl: "f s = (Inl e, s') \<Longrightarrow> thenDo f g s = (Inl e, s')"
  by (simp add: thenDo_def)

text \<open>A loop over a list that stops at the first failure.\<close>

primrec forEach :: "('x \<Rightarrow> ('s, 'e, unit) action) \<Rightarrow> 'x list \<Rightarrow> ('s, 'e, unit) action" where
  "forEach f [] s = (Inr (), s)"
| "forEach f (x # xs) s = thenDo (f x) (\<lambda>_. forEach f xs) s"

section \<open>bytes.Compare\<close>

text \<open>The three-way lexicographic comparison of the standard library's \<open>bytes.Compare\<close>.\<close>

fun bytesCompare :: "bytes \<Rightarrow> bytes \<Rightarrow> int" where
  "bytesCompare [] [] = 0"
| "bytesCompare [] (y # ys) = -1"
| "bytesCompare (x # xs) [] = 1"
| "bytesCompare (x # xs) (y # ys) =
     (if x < y then -1 else if y < x then 1 else bytesCompare xs ys)"

lemma bytesCompare_lt [compare_simps]: "bytesCompare a b = -1 \<longleftrightarrow> a < b"
  by (induction a b rule: bytesCompare.induct) auto

lemma bytesCompare_gt [compare_simps]: "bytesCompare a b = 1 \<longleftrightarrow> b < a"
  by (induction a b rule: bytesCompare.induct) auto

lemma bytesCompare_eq [compare_simps]: "bytesCompare a b = 0 \<longleftrightarrow> a = b"
  by (induction a b rule: bytesCompare.induct) auto

lemma bytesCompare_cases: "bytesCompare a b = -1 \<or> bytesCompare a b = 0 \<or> bytesCompare a b = 1"
  by (induction a b rule: bytesCompare.induct) auto

lemma bytesCompare_neg [compare_simps]: "bytesCompare a b < 0 \<longleftrightarrow> a < b"
  using bytesCompare_cases [of a b] bytesCompare_lt [of a b] by auto

lemma bytesCompare_nonneg [compare_simps]: "0 \<le> bytesCompare a b \<longleftrightarrow> b \<le> a"
  using bytesCompare_neg [of a b] by (metis linorder_not_less)

lemma bytesCompare_nonpos [compare_simps]: "bytesCompare a b \<le> 0 \<longleftrightarrow> a \<le> b"
  using bytesCompare_cases [of a b] bytesCompare_gt [of a b] by (metis linorder_not_less
      neg_le_0_iff_le not_one_le_zero order_refl zero_le_one)

section \<open>sort.Search\<close>

text \<open>
  The loop of the standard library's \<open>sort.Search\<close>: \<open>[i, j)\<close> is the open interval, \<open>h\<close> its
  middle; it returns the smallest index at which a monotone predicate holds, or \<open>n\<close>.
\<close>

function searchLoop :: "(nat \<Rightarrow> bool) \<Rightarrow> nat \<Rightarrow> nat \<Rightarrow> nat" where
  "searchLoop f i j =
     (if i < j then let h = (i + j) div 2 in
        if \<not> f h then searchLoop f (h + 1) j else searchLoop f i h
      else i)"
  by pat_completeness auto
termination
  by (relation "measure (\<lambda>(f, i, j). j - i)") (auto simp: Let_def)

declare searchLoop.simps [simp del]

definition sortSearch :: "nat \<Rightarrow> (nat \<Rightarrow> bool) \<Rightarrow> nat" where
  "sortSearch n f = searchLoop f 0 n"

lemma searchLoop_spec:
  assumes "i \<le> j" "\<And>a b. a \<le> b \<Longrightarrow> f a \<Longrightarrow> b < n \<Longrightarrow> f b" "j \<le> n"
    "\<And>a. a < i \<Longrightarrow> \<not> f a" "j < n \<Longrightarrow> f j"
  shows "searchLoop f i j \<le> j \<and> (\<forall>a < searchLoop f i j. \<not> f a) \<and>
    (searchLoop f i j < n \<longrightarrow> f (searchLoop f i j))"
  using assms
proof (induction f i j rule: searchLoop.induct)
  case (1 f i j)
  show ?case
  proof (cases "i < j")
    case False
    with 1(3-) have "i = j" by simp
    moreover have "searchLoop f i j = i" using False by (subst searchLoop.simps) simp
    ultimately show ?thesis using 1(3-) by simp
  next
    case True
    let ?h = "(i + j) div 2"
    have h: "i \<le> ?h" "?h < j" using True by auto
    show ?thesis
    proof (cases "f ?h")
      case True
      have "searchLoop f i j = searchLoop f i ?h"
        using \<open>i < j\<close> True by (subst searchLoop.simps) (simp add: Let_def)
      moreover have "searchLoop f i ?h \<le> ?h \<and> (\<forall>a < searchLoop f i ?h. \<not> f a) \<and>
          (searchLoop f i ?h < n \<longrightarrow> f (searchLoop f i ?h))"
        using 1(2)[OF \<open>i < j\<close> refl] True h 1(4-) by auto
      ultimately show ?thesis using h by simp
    next
      case False
      have eq: "searchLoop f i j = searchLoop f (?h + 1) j"
        using \<open>i < j\<close> False by (subst searchLoop.simps) (simp add: Let_def)
      have below: "\<not> f a" if "a < ?h + 1" for a
      proof
        assume "f a"
        moreover have "a \<le> ?h" using that by simp
        moreover have "?h < n" using h 1(5) by simp
        ultimately have "f ?h" using 1(4) by blast
        with False show False by simp
      qed
      show ?thesis
        unfolding eq using 1(1)[OF \<open>i < j\<close> refl False _ 1(4,5) below 1(7)] h by simp
    qed
  qed
qed

text \<open>On a predicate that stays true once true, the result is the least index where it holds.\<close>

lemma sortSearch_least:
  assumes "\<And>a b. a \<le> b \<Longrightarrow> f a \<Longrightarrow> b < n \<Longrightarrow> f b"
  shows "sortSearch n f \<le> n" "\<And>a. a < sortSearch n f \<Longrightarrow> \<not> f a"
    "sortSearch n f < n \<Longrightarrow> f (sortSearch n f)"
  using searchLoop_spec [of 0 n f n] assms by (auto simp: sortSearch_def)

end
