(* ===== verification/Node.thy ===== *)
theory Node
  imports Prelude
begin

text \<open>
  The nodes of the memiavl tree and the recursive algorithms on them: \<open>memiavl/node.go\<close> and
  \<open>memiavl/mem_node.go\<close>. A node is seen here through the accessors of the \<open>Node\<close> interface, so
  one type covers the in-memory \<open>MemNode\<close> and the file-backed \<open>PersistedNode\<close>; the flag
  \<open>persisted\<close> tells them apart, and the theory \<open>Snapshot\<close> shows that a \<open>PersistedNode\<close> really
  presents such a tree. Whether \<open>Mutate\<close> clones or updates in place is not visible here; the
  theory \<open>CowHeap\<close> models it on a store of nodes.
\<close>

section \<open>Data\<close>

record nodeMeta =
  nversion :: u64
  nkey :: bytes
  nvalue :: slice
  nhash :: slice
  persisted :: bool

text \<open>
  A node without children always has height 0 and size 1 (\<open>newLeafNode\<close>, \<open>Mutate\<close> and the
  importer build it so), hence \<open>Leaf\<close> stores neither. A node with children stores both, at the
  width of the source: \<open>height uint8\<close> and \<open>size int64\<close>.
\<close>

datatype node = Leaf nodeMeta | Branch u8 u64 nodeMeta node node

fun meta :: "node \<Rightarrow> nodeMeta" where
  "meta (Leaf m) = m"
| "meta (Branch h s m l r) = m"

fun Height :: "node \<Rightarrow> u8" where
  "Height (Leaf m) = 0"
| "Height (Branch h s m l r) = h"

fun Size :: "node \<Rightarrow> u64" where
  "Size (Leaf m) = 1"
| "Size (Branch h s m l r) = s"

text \<open>
  \<open>MemNode.IsLeaf\<close> tests the height, \<open>PersistedNode.IsLeaf\<close> its flag: a branch whose 8-bit
  height wrapped to 0 would be taken for a leaf when it lives in memory.
\<close>

fun IsLeaf :: "node \<Rightarrow> bool" where
  "IsLeaf (Leaf m) = True"
| "IsLeaf (Branch h s m l r) = (\<not> persisted m \<and> h = 0)"

definition Version :: "node \<Rightarrow> u64" where
  "Version n = nversion (meta n)"

definition Key :: "node \<Rightarrow> bytes" where
  "Key n = nkey (meta n)"

definition Value :: "node \<Rightarrow> slice" where
  "Value n = nvalue (meta n)"

definition newLeafNode :: "bytes \<Rightarrow> slice \<Rightarrow> u64 \<Rightarrow> node" where
  "newLeafNode key value version =
     Leaf \<lparr>nversion = version, nkey = key, nvalue = value, nhash = None, persisted = False\<rparr>"

definition newBranch :: "u64 \<Rightarrow> bytes \<Rightarrow> node \<Rightarrow> node \<Rightarrow> node" where
  "newBranch version key left right =
     Branch 1 2 \<lparr>nversion = version, nkey = key, nvalue = None, nhash = None, persisted = False\<rparr>
       left right"

section \<open>Operations of a single node\<close>

definition mutateMeta :: "u64 \<Rightarrow> nodeMeta \<Rightarrow> nodeMeta" where
  "mutateMeta version m = m\<lparr>nversion := version, nhash := None, persisted := False\<rparr>"

text \<open>
  \<open>Mutate(version, cowVersion)\<close>: the node the caller may write to, with the new version and no
  cached hash.
\<close>

fun Mutate :: "node \<Rightarrow> u64 \<Rightarrow> u64 \<Rightarrow> node" where
  "Mutate (Leaf m) version cow = Leaf (mutateMeta version m)"
| "Mutate (Branch h s m l r) version cow = Branch h s (mutateMeta version m) l r"

fun setValue :: "node \<Rightarrow> slice \<Rightarrow> node" where
  "setValue (Leaf m) v = Leaf (m\<lparr>nvalue := v\<rparr>)"
| "setValue (Branch h s m l r) v = Branch h s (m\<lparr>nvalue := v\<rparr>) l r"

fun setKey :: "node \<Rightarrow> bytes \<Rightarrow> node" where
  "setKey (Leaf m) k = Leaf (m\<lparr>nkey := k\<rparr>)"
| "setKey (Branch h s m l r) k = Branch h s (m\<lparr>nkey := k\<rparr>) l r"

fun setLeft :: "node \<Rightarrow> node \<Rightarrow> node" where
  "setLeft (Branch h s m l r) c = Branch h s m c r"
| "setLeft (Leaf m) c = Leaf m"

fun setRight :: "node \<Rightarrow> node \<Rightarrow> node" where
  "setRight (Branch h s m l r) c = Branch h s m l c"
| "setRight (Leaf m) c = Leaf m"

fun updateHeightSize :: "node \<Rightarrow> node" where
  "updateHeightSize (Branch h s m l r) =
     Branch (max (Height l) (Height r) + 1) (Size l + Size r) m l r"
| "updateHeightSize (Leaf m) = Leaf m"

fun calcBalance :: "node \<Rightarrow> int" where
  "calcBalance (Branch h s m l r) = uint (Height l) - uint (Height r)"
| "calcBalance (Leaf m) = 0"

text \<open>
  The rotations are called by \<open>reBalance\<close> only, on a node whose child on the heavy side has a
  positive height and so is a \<open>Branch\<close>; the last equations are never reached from there.
\<close>

fun rotateRight :: "node \<Rightarrow> u64 \<Rightarrow> u64 \<Rightarrow> node" where
  "rotateRight (Branch h s m (Branch lh ls lm ll lr) r) version cow =
     (let newSelf = Mutate (Branch lh ls lm ll lr) version cow;
          nd = updateHeightSize (setLeft (Branch h s m (Branch lh ls lm ll lr) r) lr)
      in updateHeightSize (setRight newSelf nd))"
| "rotateRight n version cow = n"

fun rotateLeft :: "node \<Rightarrow> u64 \<Rightarrow> u64 \<Rightarrow> node" where
  "rotateLeft (Branch h s m l (Branch rh rs rm rl rr)) version cow =
     (let newSelf = Mutate (Branch rh rs rm rl rr) version cow;
          nd = updateHeightSize (setRight (Branch h s m l (Branch rh rs rm rl rr)) rl)
      in updateHeightSize (setLeft newSelf nd))"
| "rotateLeft n version cow = n"

fun reBalance :: "node \<Rightarrow> u64 \<Rightarrow> u64 \<Rightarrow> node" where
  "reBalance (Branch h s m l r) version cow =
     (let nd = Branch h s m l r; balance = calcBalance nd in
      if balance > 1 then
        (if calcBalance l \<ge> 0 then rotateRight nd version cow
         else rotateRight (setLeft nd (rotateLeft (Mutate l version cow) version cow)) version cow)
      else if balance < -1 then
        (if calcBalance r \<le> 0 then rotateLeft nd version cow
         else rotateLeft (setRight nd (rotateRight (Mutate r version cow) version cow)) version cow)
      else nd)"
| "reBalance (Leaf m) version cow = Leaf m"

section \<open>setRecursive\<close>

definition setAtLeaf :: "node \<Rightarrow> bytes \<Rightarrow> slice \<Rightarrow> u64 \<Rightarrow> u64 \<Rightarrow> node \<times> bool" where
  "setAtLeaf nd key value version cow =
     (if bytesCompare key (Key nd) = -1
      then (newBranch version (Key nd) (newLeafNode key value version) nd, False)
      else if bytesCompare key (Key nd) = 1
      then (newBranch version key nd (newLeafNode key value version), False)
      else (setValue (Mutate nd version cow) value, True))"

fun setNode :: "node \<Rightarrow> bytes \<Rightarrow> slice \<Rightarrow> u64 \<Rightarrow> u64 \<Rightarrow> node \<times> bool" where
  "setNode (Leaf m) key value version cow = setAtLeaf (Leaf m) key value version cow"
| "setNode (Branch h s m l r) key value version cow =
     (if IsLeaf (Branch h s m l r) then setAtLeaf (Branch h s m l r) key value version cow
      else
        (let (newNode, updated) =
           (if bytesCompare key (nkey m) = -1 then
              (let (newChild, updated) = setNode l key value version cow
               in (setLeft (Mutate (Branch h s m l r) version cow) newChild, updated))
            else
              (let (newChild, updated) = setNode r key value version cow
               in (setRight (Mutate (Branch h s m l r) version cow) newChild, updated)))
         in if \<not> updated then (reBalance (updateHeightSize newNode) version cow, updated)
            else (newNode, updated)))"

definition setRecursive ::
  "node option \<Rightarrow> bytes \<Rightarrow> slice \<Rightarrow> u64 \<Rightarrow> u64 \<Rightarrow> node \<times> bool" where
  "setRecursive nd key value version cow =
     (case nd of None \<Rightarrow> (newLeafNode key value version, True)
      | Some n \<Rightarrow> setNode n key value version cow)"

section \<open>removeRecursive\<close>

text \<open>
  The result is (removed value, remaining node, new smallest key). A nil value means that
  nothing changed; a nil node means that the leaf is gone.
\<close>

definition removeAtLeaf :: "node \<Rightarrow> bytes \<Rightarrow> slice \<times> node option \<times> bytes option" where
  "removeAtLeaf nd key = (if Key nd = key then (Value nd, None, None) else (None, Some nd, None))"

fun removeNode :: "node \<Rightarrow> bytes \<Rightarrow> u64 \<Rightarrow> u64 \<Rightarrow> slice \<times> node option \<times> bytes option" where
  "removeNode (Leaf m) key version cow = removeAtLeaf (Leaf m) key"
| "removeNode (Branch h s m l r) key version cow =
     (let nd = Branch h s m l r in
      if IsLeaf nd then removeAtLeaf nd key
      else if bytesCompare key (nkey m) = -1 then
        (case removeNode l key version cow of (value, newLeft, newKey) \<Rightarrow>
           if value = None then (None, Some nd, None)
           else (case newLeft of
               None \<Rightarrow> (value, Some r, Some (nkey m))
             | Some l' \<Rightarrow>
                 (value,
                  Some (reBalance (updateHeightSize (setLeft (Mutate nd version cow) l')) version cow),
                  newKey)))
      else
        (case removeNode r key version cow of (value, newRight, newKey) \<Rightarrow>
           if value = None then (None, Some nd, None)
           else (case newRight of
               None \<Rightarrow> (value, Some l, None)
             | Some r' \<Rightarrow>
                 (let n1 = setRight (Mutate nd version cow) r';
                      n2 = (case newKey of None \<Rightarrow> n1 | Some k \<Rightarrow> setKey n1 k)
                  in (value, Some (reBalance (updateHeightSize n2) version cow), None)))))"

definition removeRecursive ::
  "node option \<Rightarrow> bytes \<Rightarrow> u64 \<Rightarrow> u64 \<Rightarrow> slice \<times> node option \<times> bytes option" where
  "removeRecursive nd key version cow =
     (case nd of None \<Rightarrow> (None, None, None) | Some n \<Rightarrow> removeNode n key version cow)"

section \<open>Lookup by key and by index\<close>

fun getLeaf :: "nodeMeta \<Rightarrow> bytes \<Rightarrow> slice \<times> u32" where
  "getLeaf m key =
     (if bytesCompare (nkey m) key = -1 then (None, 1)
      else if bytesCompare (nkey m) key = 1 then (None, 0)
      else (nvalue m, 0))"

fun Get :: "node \<Rightarrow> bytes \<Rightarrow> slice \<times> u32" where
  "Get (Leaf m) key = getLeaf m key"
| "Get (Branch h s m l r) key =
     (if IsLeaf (Branch h s m l r) then getLeaf m key
      else if bytesCompare key (nkey m) = -1 then Get l key
      else (let (value, index) = Get r key
            in (value, index + ucast s - ucast (Size r))))"

fun GetByIndex :: "node \<Rightarrow> u32 \<Rightarrow> (bytes \<times> slice) option" where
  "GetByIndex (Leaf m) index = (if index = 0 then Some (nkey m, nvalue m) else None)"
| "GetByIndex (Branch h s m l r) index =
     (if IsLeaf (Branch h s m l r) then (if index = 0 then Some (nkey m, nvalue m) else None)
      else (let leftSize = ucast (Size l) in
            if index < leftSize then GetByIndex l index
            else GetByIndex r (index - leftSize)))"

end
