(* ===== verification/NodeInv.thy ===== *)
theory NodeInv
  imports Node
begin

text \<open>
  The invariant of the tree (\<open>nodeWf\<close>: key order, AVL balance with exact 8-bit heights, exact sizes),
  its preservation by \<open>setRecursive\<close> and \<open>removeRecursive\<close>, and their effect on the sorted list
  of leaves.
\<close>

section \<open>Abstraction\<close>

fun leaves :: "node \<Rightarrow> (bytes \<times> bytes) list" where
  "leaves (Leaf m) = [(nkey m, the (nvalue m))]"
| "leaves (Branch h s m l r) = leaves l @ leaves r"

definition keys :: "node \<Rightarrow> bytes set" where
  "keys n = fst ` set (leaves n)"

abbreviation nleaves :: "node \<Rightarrow> nat" where
  "nleaves n \<equiv> length (leaves n)"

fun ht :: "node \<Rightarrow> nat" where
  "ht (Leaf m) = 0"
| "ht (Branch h s m l r) = Suc (max (ht l) (ht r))"

text \<open>The effect of an insertion and of a deletion on a list sorted by key.\<close>

definition putKV :: "bytes \<Rightarrow> bytes \<Rightarrow> (bytes \<times> bytes) list \<Rightarrow> (bytes \<times> bytes) list" where
  "putKV k v xs = filter (\<lambda>p. fst p < k) xs @ (k, v) # filter (\<lambda>p. k < fst p) xs"

definition delKV :: "bytes \<Rightarrow> (bytes \<times> bytes) list \<Rightarrow> (bytes \<times> bytes) list" where
  "delKV k xs = filter (\<lambda>p. fst p \<noteq> k) xs"

section \<open>Invariant\<close>

text \<open>
  Key order: a branch's key is the smallest key of its right subtree and greater than every key
  of its left subtree; leaf values are never nil, branch values always are.
\<close>

fun ordered :: "node \<Rightarrow> bool" where
  "ordered (Leaf m) = (nvalue m \<noteq> None)"
| "ordered (Branch h s m l r) =
     (ordered l \<and> ordered r \<and> nvalue m = None \<and>
      (\<forall>k \<in> keys l. k < nkey m) \<and> (\<forall>k \<in> keys r. nkey m \<le> k) \<and> nkey m \<in> keys r)"

fun balanced :: "node \<Rightarrow> bool" where
  "balanced (Leaf m) = True"
| "balanced (Branch h s m l r) =
     (balanced l \<and> balanced r \<and> unat h = Suc (max (ht l) (ht r)) \<and>
      ht l \<le> Suc (ht r) \<and> ht r \<le> Suc (ht l))"

fun sized :: "node \<Rightarrow> bool" where
  "sized (Leaf m) = True"
| "sized (Branch h s m l r) = (sized l \<and> sized r \<and> s = of_nat (nleaves l + nleaves r))"

definition nodeWf :: "node \<Rightarrow> bool" where
  "nodeWf n \<longleftrightarrow> ordered n \<and> balanced n \<and> sized n"

section \<open>Basic facts\<close>

lemma leaves_nonempty [simp]: "leaves n \<noteq> []"
  by (induction n) auto

lemma nleaves_pos [simp]: "0 < nleaves n"
  by simp

lemma nleaves_Suc: obtains a where "nleaves n = Suc a"
  using nleaves_pos [of n] gr0_conv_Suc by blast

lemma keys_simps [simp]:
  "keys (Leaf m) = {nkey m}" "keys (Branch h s m l r) = keys l \<union> keys r"
  by (auto simp: keys_def)

lemma keys_nonempty [simp]: "keys n \<noteq> {}"
  by (simp add: keys_def)

lemma keys_cong: "leaves n = leaves n' \<Longrightarrow> keys n = keys n'"
  by (simp add: keys_def)

lemma Height_ht: "balanced n \<Longrightarrow> unat (Height n) = ht n"
  by (cases n) auto

lemma Size_nleaves: "sized n \<Longrightarrow> Size n = of_nat (nleaves n)"
  by (cases n) auto

lemma IsLeaf_ht: "balanced n \<Longrightarrow> IsLeaf n \<longleftrightarrow> (\<exists>m. n = Leaf m)"
  by (cases n) auto

lemma not_IsLeaf_Branch [simp]:
  "balanced (Branch h s m l r) \<Longrightarrow> h \<noteq> 0"
  by auto

text \<open>Leaves come in strictly increasing key order.\<close>

lemma ordered_sorted: "ordered n \<Longrightarrow> sorted_wrt (<) (map fst (leaves n))"
proof (induction n)
  case (Leaf m)
  then show ?case by simp
next
  case (Branch h s m l r)
  then show ?case by (force simp: sorted_wrt_append keys_def)
qed

lemma ordered_distinct: "ordered n \<Longrightarrow> distinct (map fst (leaves n))"
  using ordered_sorted strict_sorted_iff by blast

lemma ordered_min:
  assumes "ordered (Branch h s m l r)"
  shows "nkey m = fst (hd (leaves r))"
proof -
  obtain p ps where r: "leaves r = p # ps" by (cases "leaves r") auto
  have srt: "sorted_wrt (<) (map fst (leaves r))" using assms ordered_sorted by auto
  have "nkey m \<in> keys r" "\<forall>k \<in> keys r. nkey m \<le> k" using assms by auto
  then show ?thesis using srt r by (force simp: keys_def)
qed

section \<open>AVL height bound\<close>

lemma pow2_sum_step:
  fixes a b :: nat
  assumes "2 ^ p \<le> a ^ 2" "2 ^ q \<le> b ^ 2" "q \<le> p" "p \<le> Suc q"
  shows "2 ^ Suc p \<le> (a + b) ^ 2"
proof -
  have sq: "(a + b) ^ 2 = a ^ 2 + 2 * a * b + b ^ 2" by (simp add: power2_sum)
  show ?thesis
  proof (cases "a \<le> b")
    case True
    then have "a ^ 2 \<le> b ^ 2" by (simp add: power_mono)
    then have "2 * a ^ 2 \<le> (a + b) ^ 2" unfolding sq by linarith
    then show ?thesis using assms(1) by simp
  next
    case False
    have "(2::nat) ^ p \<le> 2 * 2 ^ q"
      using power_increasing [of p "Suc q" "2::nat"] assms(4) by simp
    also have "\<dots> \<le> 2 * b ^ 2" using assms(2) by simp
    also have "\<dots> \<le> 2 * a * b" using False by (simp add: power2_eq_square)
    finally have "2 ^ Suc p \<le> a ^ 2 + 2 * a * b" using assms(1) by simp
    then show ?thesis unfolding sq by linarith
  qed
qed

lemma balanced_pow2: "balanced n \<Longrightarrow> 2 ^ ht n \<le> nleaves n ^ 2"
proof (induction n)
  case (Leaf m)
  then show ?case by simp
next
  case (Branch h s m l r)
  then have IH: "2 ^ ht l \<le> nleaves l ^ 2" "2 ^ ht r \<le> nleaves r ^ 2"
    and bal: "ht l \<le> Suc (ht r)" "ht r \<le> Suc (ht l)"
    by auto
  show ?case
  proof (cases "ht r \<le> ht l")
    case True
    then show ?thesis using pow2_sum_step [OF IH True bal(1)] by (simp add: max_def)
  next
    case False
    then show ?thesis
      using pow2_sum_step [OF IH(2,1) _ bal(2)] by (simp add: max_def add.commute)
  qed
qed

text \<open>
  A tree with fewer than \<open>2 ^ 62\<close> leaves is lower than 124, so the 8-bit height of the node and
  the \<open>int8\<close> height of an exported node never wrap.
\<close>

lemma balanced_ht_bound:
  assumes "balanced n" "nleaves n < 2 ^ 62"
  shows "ht n < 124"
proof (rule ccontr)
  assume "\<not> ht n < 124"
  then have "(2::nat) ^ 124 \<le> 2 ^ ht n" by (intro power_increasing) auto
  also have "\<dots> \<le> nleaves n ^ 2" using assms(1) by (rule balanced_pow2)
  also have "\<dots> < (2 ^ 62) ^ 2" using assms(2) by (intro power_strict_mono) auto
  finally show False by simp
qed

section \<open>Structural operations keep the leaves\<close>

lemma leaves_Mutate [simp]: "leaves (Mutate n v c) = leaves n"
  by (cases n) (auto simp: mutateMeta_def)

lemma leaves_updateHeightSize [simp]: "leaves (updateHeightSize n) = leaves n"
  by (cases n) auto

lemma leaves_rotateRight [simp]: "leaves (rotateRight n v c) = leaves n"
  by (induction n v c rule: rotateRight.induct) (auto simp: Let_def)

lemma leaves_rotateLeft [simp]: "leaves (rotateLeft n v c) = leaves n"
  by (induction n v c rule: rotateLeft.induct) (auto simp: Let_def)

lemma leaves_reBalance [simp]: "leaves (reBalance n v c) = leaves n"
  by (cases n) (auto simp: Let_def)

declare reBalance.simps(1) [simp del]

lemma leaves_setKey [simp]: "leaves (setKey (Branch h s m l r) k) = leaves l @ leaves r"
  by simp

section \<open>Rotations keep order, sizes and balance\<close>

lemma ordered_Mutate [simp]: "ordered (Mutate n v c) = ordered n"
  by (cases n) (auto simp: mutateMeta_def)

lemma ordered_updateHeightSize [simp]: "ordered (updateHeightSize n) = ordered n"
  by (cases n) auto

lemma keys_structural [simp]:
  "keys (Mutate n v c) = keys n" "keys (updateHeightSize n) = keys n"
  "keys (rotateRight n v c) = keys n" "keys (rotateLeft n v c) = keys n"
  "keys (reBalance n v c) = keys n"
  by (simp_all add: keys_def)

text \<open>The order facts of three neighbouring key sets, shared by both rotations.\<close>

lemma three_sets_right:
  fixes x y :: bytes
  assumes "\<forall>k \<in> B. x \<le> k" "x \<in> B" "\<forall>k \<in> A \<union> B. k < y" "\<forall>k \<in> C. y \<le> k"
  shows "\<forall>k \<in> C. x \<le> k"
  using assms by (metis UnI2 less_imp_le order.trans)

lemma three_sets_left:
  fixes x y :: bytes
  assumes "\<forall>k \<in> A. k < y" "\<forall>k \<in> B \<union> C. y \<le> k" "y \<in> B \<union> C" "\<forall>k \<in> B. k < x"
    "\<forall>k \<in> C. x \<le> k" "B \<noteq> {}"
  shows "y \<in> B" "\<forall>k \<in> A. k < x"
proof -
  show "y \<in> B" using assms by (metis UnE UnI1 all_not_in_conv leD order.strict_trans1)
  then show "\<forall>k \<in> A. k < x" using assms by (metis order.strict_trans)
qed

lemma ordered_rotateRight: "ordered n \<Longrightarrow> ordered (rotateRight n v c)"
proof (induction n v c rule: rotateRight.induct)
  case (1 h s m lh ls lm ll lr r v c)
  then show ?case
    using three_sets_right [of "keys lr" "nkey lm" "keys ll" "nkey m" "keys r"]
    by (auto simp: Let_def mutateMeta_def)
qed auto

lemma ordered_rotateLeft: "ordered n \<Longrightarrow> ordered (rotateLeft n v c)"
proof (induction n v c rule: rotateLeft.induct)
  case (1 h s m l rh rs rm rl rr v c)
  then show ?case
    using three_sets_left [of "keys l" "nkey m" "keys rl" "keys rr" "nkey rm"]
    by (auto simp: Let_def mutateMeta_def)
qed auto

lemma ordered_setLeft:
  "ordered (Branch h s m l r) \<Longrightarrow> ordered l' \<Longrightarrow> keys l' = keys l \<Longrightarrow>
   ordered (setLeft (Branch h s m l r) l')"
  by auto

lemma ordered_setRight:
  "ordered (Branch h s m l r) \<Longrightarrow> ordered r' \<Longrightarrow> keys r' = keys r \<Longrightarrow>
   ordered (setRight (Branch h s m l r) r')"
  by auto

lemma ordered_reBalance: "ordered n \<Longrightarrow> ordered (reBalance n v c)"
proof (cases n)
  case (Branch h s m l r)
  assume o: "ordered n"
  have "ordered (rotateLeft (Mutate l v c) v c)" "ordered (rotateRight (Mutate r v c) v c)"
    using o Branch by (auto intro!: ordered_rotateLeft ordered_rotateRight)
  then show ?thesis
    using o unfolding Branch reBalance.simps Let_def
    by (auto intro!: ordered_rotateRight ordered_rotateLeft ordered_setLeft ordered_setRight
        simp del: setLeft.simps setRight.simps ordered.simps)
qed auto

text \<open>Sizes: all sums are taken modulo \<open>2 ^ 64\<close> on both sides, so no bound is needed.\<close>

lemma sized_Mutate [simp]: "sized (Mutate n v c) = sized n"
  by (cases n) auto

fun kidsSized :: "node \<Rightarrow> bool" where
  "kidsSized (Leaf m) = True"
| "kidsSized (Branch h s m l r) = (sized l \<and> sized r)"

lemma sized_kids: "sized n \<Longrightarrow> kidsSized n"
  by (cases n) auto

lemma sized_updateHeightSize [simp]: "sized (updateHeightSize n) = kidsSized n"
  by (cases n) (auto simp: Size_nleaves)

lemma sized_rotateRight: "sized n \<Longrightarrow> sized (rotateRight n v c)"
  by (induction n v c rule: rotateRight.induct) (auto simp: Let_def Size_nleaves)

lemma sized_rotateLeft: "sized n \<Longrightarrow> sized (rotateLeft n v c)"
  by (induction n v c rule: rotateLeft.induct) (auto simp: Let_def Size_nleaves)

lemma sized_reBalance: "sized n \<Longrightarrow> sized (reBalance n v c)"
proof (cases n)
  case (Branch h s m l r)
  assume o: "sized n"
  have "sized (rotateLeft (Mutate l v c) v c)" "sized (rotateRight (Mutate r v c) v c)"
    using o Branch by (auto intro!: sized_rotateLeft sized_rotateRight)
  then show ?thesis
    using o unfolding Branch reBalance.simps Let_def
    by (auto intro!: sized_rotateRight sized_rotateLeft)
qed auto

text \<open>Balance: the 8-bit height equals the real height as long as that is below 255.\<close>

lemma unat_max_Suc:
  fixes a b :: u8
  assumes "unat a < 255" "unat b < 255"
  shows "unat (max a b + 1) = Suc (max (unat a) (unat b))"
  using assms by (auto simp: max_def word_le_nat_alt unat_word_ariths)

lemma ht_Mutate [simp]: "ht (Mutate n v c) = ht n"
  by (cases n) auto

lemma balanced_Mutate [simp]: "balanced (Mutate n v c) = balanced n"
  by (cases n) auto

lemma Height_Mutate [simp]: "Height (Mutate n v c) = Height n"
  by (cases n) auto

lemma ht_updateHeightSize [simp]: "ht (updateHeightSize n) = ht n"
  by (cases n) auto

definition low :: "node \<Rightarrow> bool" where
  "low n \<longleftrightarrow> balanced n \<and> ht n < 254"

lemma balanced_Branch_upd:
  assumes "low l" "low r" "ht l \<le> Suc (ht r)" "ht r \<le> Suc (ht l)"
  shows "balanced (Branch (max (Height l) (Height r) + 1) s m l r)"
  using assms unat_max_Suc [of "Height l" "Height r"] by (auto simp: low_def Height_ht)

lemma calcBalance_ht:
  "balanced l \<Longrightarrow> balanced r \<Longrightarrow>
   calcBalance (Branch h s m l r) = int (ht l) - int (ht r)"
  using Height_ht [of l] Height_ht [of r] by (simp add: uint_nat)

lemma low_kids: "low (Branch h s m l r) \<Longrightarrow> low l \<and> low r"
  by (auto simp: low_def)

lemma reBalance_left_heavy:
  assumes "low l" "low r" "ht l = ht r + 2"
  shows "balanced (reBalance (Branch h s m l r) v c) \<and>
    ht (reBalance (Branch h s m l r) v c) \<in> {ht l, Suc (ht l)}"
proof -
  obtain lh ls lm ll lr where l: "l = Branch lh ls lm ll lr"
    using assms(3) by (cases l) auto
  have bl: "low ll" "low lr" "balanced ll" "balanced lr" "ht ll \<le> Suc (ht lr)" "ht lr \<le> Suc (ht ll)"
    "ht l = Suc (max (ht ll) (ht lr))" "balanced l" "balanced r"
    using assms l by (auto simp: low_def)
  have cb: "calcBalance (Branch h s m l r) = 2" "calcBalance l = int (ht ll) - int (ht lr)"
    using calcBalance_ht [of l r] calcBalance_ht [of ll lr] bl assms l by auto
  show ?thesis
  proof (cases "ht lr \<le> ht ll")
    case True
    let ?nd = "Branch (max (Height lr) (Height r) + 1) (Size lr + Size r) m lr r"
    have eq: "reBalance (Branch h s m l r) v c =
        Branch (max (Height ll) (Height ?nd) + 1) (Size ll + Size ?nd) (mutateMeta v lm) ll ?nd"
      using True cb unfolding reBalance.simps Let_def l by (simp del: calcBalance.simps)
    have "balanced ?nd" using bl assms(2,3) True by (intro balanced_Branch_upd) auto
    moreover have "ht ?nd = Suc (ht lr)" using bl assms True by auto
    ultimately have "low ?nd" using bl assms by (auto simp: low_def)
    then have "balanced (Branch (max (Height ll) (Height ?nd) + 1) (Size ll + Size ?nd) (mutateMeta v lm) ll ?nd)"
      using bl True assms by (intro balanced_Branch_upd) auto
    then show ?thesis unfolding eq using bl True assms by auto
  next
    case False
    then obtain bh bs bm a b where lr: "lr = Branch bh bs bm a b"
      by (cases lr) auto
    have ab: "low a" "low b" "ht lr = Suc (max (ht a) (ht b))" "ht a \<le> Suc (ht b)" "ht b \<le> Suc (ht a)"
      using bl(2) lr by (auto simp: low_def)
    let ?x = "Branch (max (Height ll) (Height a) + 1) (Size ll + Size a) (mutateMeta v lm) ll a"
    let ?y = "Branch (max (Height b) (Height r) + 1) (Size b + Size r) m b r"
    have eq: "reBalance (Branch h s m l r) v c =
        Branch (max (Height ?x) (Height ?y) + 1) (Size ?x + Size ?y)
          (mutateMeta v (mutateMeta v bm)) ?x ?y"
      using False cb unfolding reBalance.simps Let_def l lr by (simp del: calcBalance.simps)
    have "balanced ?x" "balanced ?y"
      using bl ab assms(2,3) False by (intro balanced_Branch_upd; auto)+
    moreover have "ht ?x = ht lr" "ht ?y = ht lr" using bl ab assms False by auto
    ultimately have "low ?x" "low ?y" using bl assms by (auto simp: low_def)
    then have "balanced (Branch (max (Height ?x) (Height ?y) + 1) (Size ?x + Size ?y)
          (mutateMeta v (mutateMeta v bm)) ?x ?y)"
      using \<open>ht ?x = ht lr\<close> \<open>ht ?y = ht lr\<close> by (intro balanced_Branch_upd) auto
    moreover have "ht l = Suc (ht lr)" using bl False by auto
    ultimately show ?thesis unfolding eq using \<open>ht ?x = ht lr\<close> \<open>ht ?y = ht lr\<close> by simp
  qed
qed

lemma reBalance_right_heavy:
  assumes "low l" "low r" "ht r = ht l + 2"
  shows "balanced (reBalance (Branch h s m l r) v c) \<and>
    ht (reBalance (Branch h s m l r) v c) \<in> {ht r, Suc (ht r)}"
proof -
  obtain rh rs rm rl rr where r: "r = Branch rh rs rm rl rr"
    using assms(3) by (cases r) auto
  have br: "low rl" "low rr" "balanced rl" "balanced rr" "ht rl \<le> Suc (ht rr)" "ht rr \<le> Suc (ht rl)"
    "ht r = Suc (max (ht rl) (ht rr))" "balanced l" "balanced r"
    using assms r by (auto simp: low_def)
  have cb: "calcBalance (Branch h s m l r) = -2" "calcBalance r = int (ht rl) - int (ht rr)"
    using calcBalance_ht [of l r] calcBalance_ht [of rl rr] br assms r by auto
  show ?thesis
  proof (cases "ht rl \<le> ht rr")
    case True
    let ?nd = "Branch (max (Height l) (Height rl) + 1) (Size l + Size rl) m l rl"
    have eq: "reBalance (Branch h s m l r) v c =
        Branch (max (Height ?nd) (Height rr) + 1) (Size ?nd + Size rr) (mutateMeta v rm) ?nd rr"
      using True cb unfolding reBalance.simps Let_def r by (simp del: calcBalance.simps)
    have "balanced ?nd" using br assms(1,3) True by (intro balanced_Branch_upd) auto
    moreover have "ht ?nd = Suc (ht rl)" using br assms True by auto
    ultimately have "low ?nd" using br assms by (auto simp: low_def)
    then have "balanced (Branch (max (Height ?nd) (Height rr) + 1) (Size ?nd + Size rr) (mutateMeta v rm) ?nd rr)"
      using br True assms by (intro balanced_Branch_upd) auto
    then show ?thesis unfolding eq using br True assms by auto
  next
    case False
    then obtain bh bs bm a b where rl: "rl = Branch bh bs bm a b"
      by (cases rl) auto
    have ab: "low a" "low b" "ht rl = Suc (max (ht a) (ht b))" "ht a \<le> Suc (ht b)" "ht b \<le> Suc (ht a)"
      using br(1) rl by (auto simp: low_def)
    let ?x = "Branch (max (Height l) (Height a) + 1) (Size l + Size a) m l a"
    let ?y = "Branch (max (Height b) (Height rr) + 1) (Size b + Size rr) (mutateMeta v rm) b rr"
    have eq: "reBalance (Branch h s m l r) v c =
        Branch (max (Height ?x) (Height ?y) + 1) (Size ?x + Size ?y)
          (mutateMeta v (mutateMeta v bm)) ?x ?y"
      using False cb unfolding reBalance.simps Let_def r rl by (simp del: calcBalance.simps)
    have "balanced ?x" "balanced ?y"
      using br ab assms(1,3) False by (intro balanced_Branch_upd; auto)+
    moreover have "ht ?x = ht rl" "ht ?y = ht rl" using br ab assms False by auto
    ultimately have "low ?x" "low ?y" using br assms by (auto simp: low_def)
    then have "balanced (Branch (max (Height ?x) (Height ?y) + 1) (Size ?x + Size ?y)
          (mutateMeta v (mutateMeta v bm)) ?x ?y)"
      using \<open>ht ?x = ht rl\<close> \<open>ht ?y = ht rl\<close> by (intro balanced_Branch_upd) auto
    moreover have "ht r = Suc (ht rl)" using br False by auto
    ultimately show ?thesis unfolding eq using \<open>ht ?x = ht rl\<close> \<open>ht ?y = ht rl\<close> by simp
  qed
qed

text \<open>
  A node whose subtrees are balanced and whose heights differ by at most two is balanced again
  after \<open>updateHeightSize\<close> and \<open>reBalance\<close>, and its height is the larger child's height or one more.
\<close>

lemma reBalance_balanced:
  fixes l r h s m v c
  assumes "low l" "low r" "ht l \<le> ht r + 2" "ht r \<le> ht l + 2"
  defines "n' \<equiv> reBalance (updateHeightSize (Branch h s m l r)) v c"
  shows "balanced n'" "ht n' \<le> Suc (max (ht l) (ht r))" "max (ht l) (ht r) \<le> ht n'"
    "ht l \<le> Suc (ht r) \<Longrightarrow> ht r \<le> Suc (ht l) \<Longrightarrow> ht n' = Suc (max (ht l) (ht r))"
proof -
  have "balanced n' \<and> ht n' \<le> Suc (max (ht l) (ht r)) \<and> max (ht l) (ht r) \<le> ht n' \<and>
    (ht l \<le> Suc (ht r) \<longrightarrow> ht r \<le> Suc (ht l) \<longrightarrow> ht n' = Suc (max (ht l) (ht r)))"
  proof (cases "ht l = ht r + 2")
    case True
    then show ?thesis
      using reBalance_left_heavy [OF assms(1,2) True, of _ _ m v c]
      unfolding n'_def updateHeightSize.simps
      by (metis (no_types, lifting) Suc_n_not_le_n add_2_eq_Suc' insertE le_Suc_eq le_add1
          max.absorb1 order_refl singletonD)
  next
    case l: False
    show ?thesis
    proof (cases "ht r = ht l + 2")
      case True
      then show ?thesis using reBalance_right_heavy [OF assms(1,2) True, of _ _ m v c]
        unfolding n'_def updateHeightSize.simps
        by (metis (no_types, lifting) Suc_n_not_le_n add_2_eq_Suc' insertE le_Suc_eq le_add1
          max.absorb2 order_refl singletonD)
    next
      case False
      let ?h = "max (Height l) (Height r) + 1"
      have "n' = Branch ?h (Size l + Size r) m l r"
        using calcBalance_ht [of l r ?h] l False assms
        unfolding n'_def updateHeightSize.simps reBalance.simps Let_def
        by (auto simp: low_def simp del: calcBalance.simps)
      moreover have "balanced (Branch ?h (Size l + Size r) m l r)"
        using l False assms by (intro balanced_Branch_upd) auto
      ultimately show ?thesis by (auto simp: max_def)
    qed
  qed
  then show "balanced n'" "ht n' \<le> Suc (max (ht l) (ht r))" "max (ht l) (ht r) \<le> ht n'"
    "ht l \<le> Suc (ht r) \<Longrightarrow> ht r \<le> Suc (ht l) \<Longrightarrow> ht n' = Suc (max (ht l) (ht r))"
    by auto
qed

section \<open>setRecursive\<close>

lemma filter_all_less:
  assumes "\<forall>k \<in> fst ` set xs. k < x" "x \<le> (y :: bytes)"
  shows "filter (\<lambda>p. fst p < y) xs = xs" "filter (\<lambda>p. y < fst p) xs = []"
proof -
  have "\<forall>p \<in> set xs. fst p < y" using assms order.strict_trans2 by blast
  then show "filter (\<lambda>p. fst p < y) xs = xs" "filter (\<lambda>p. y < fst p) xs = []"
    using less_asym by (auto simp: filter_id_conv filter_empty_conv)
qed

lemma filter_all_greater:
  assumes "\<forall>k \<in> fst ` set xs. x \<le> k" "(y :: bytes) < x"
  shows "filter (\<lambda>p. fst p < y) xs = []" "filter (\<lambda>p. y < fst p) xs = xs"
proof -
  have "\<forall>p \<in> set xs. y < fst p" using assms order.strict_trans1 by (metis imageI order.strict_trans2)
  then show "filter (\<lambda>p. fst p < y) xs = []" "filter (\<lambda>p. y < fst p) xs = xs"
    using less_asym by (auto simp: filter_id_conv filter_empty_conv)
qed

lemma putKV_left:
  "\<forall>k \<in> fst ` set ys. x \<le> k \<Longrightarrow> k < x \<Longrightarrow> putKV k v (xs @ ys) = putKV k v xs @ ys"
  using filter_all_greater [of ys x k] by (simp add: putKV_def)

lemma putKV_right:
  "\<forall>k \<in> fst ` set xs. k < x \<Longrightarrow> x \<le> k \<Longrightarrow> putKV k v (xs @ ys) = xs @ putKV k v ys"
  using filter_all_less [of xs x k] by (simp add: putKV_def)

lemma setNode_leaves:
  assumes "ordered n" "balanced n"
  shows "leaves (fst (setNode n k (Some v) ver cow)) = putKV k v (leaves n)"
  using assms
proof (induction n)
  case (Leaf m)
  then show ?case
    by (auto simp: setAtLeaf_def putKV_def Key_def newBranch_def newLeafNode_def mutateMeta_def
        compare_simps)
next
  case (Branch h s m l r)
  then show ?case
    using putKV_left [of "leaves r" "nkey m" k v "leaves l"]
      putKV_right [of "leaves l" "nkey m" k v "leaves r"]
    by (auto simp: compare_simps Let_def keys_def split: prod.splits)
qed

lemma setNode_keys:
  assumes "ordered n" "balanced n"
  shows "keys (fst (setNode n k (Some v) ver cow)) = insert k (keys n)"
  unfolding keys_def setNode_leaves [OF assms] by (auto simp: putKV_def image_iff)

lemma setNode_ordered:
  assumes "ordered n" "balanced n"
  shows "ordered (fst (setNode n k (Some v) ver cow))"
  using assms
proof (induction n)
  case (Leaf m)
  then show ?case
    by (auto simp: setAtLeaf_def Key_def newBranch_def newLeafNode_def mutateMeta_def compare_simps)
next
  case (Branch h s m l r)
  then show ?case
    using setNode_keys [of l k v ver cow] setNode_keys [of r k v ver cow]
    by (auto simp: compare_simps Let_def mutateMeta_def split: prod.splits
        intro!: ordered_reBalance)
qed

text \<open>\<open>updated\<close> tells whether the key was there already: then the shape of the tree is unchanged.\<close>

lemma setNode_updated_keys:
  "snd (setNode n k v ver cow) \<Longrightarrow> balanced n \<Longrightarrow>
   map fst (leaves (fst (setNode n k v ver cow))) = map fst (leaves n) \<and>
   ht (fst (setNode n k v ver cow)) = ht n"
proof (induction n)
  case (Leaf m)
  then show ?case
    by (auto simp: setAtLeaf_def mutateMeta_def split: if_splits)
next
  case (Branch h s m l r)
  then show ?case by (auto simp: Let_def split: prod.splits if_splits)
qed

lemma setNode_updated_iff:
  assumes "ordered n" "balanced n"
  shows "snd (setNode n k v ver cow) \<longleftrightarrow> k \<in> keys n"
  using assms
proof (induction n)
  case (Leaf m)
  then show ?case
    using linorder_cases [of k "nkey m"] by (auto simp: setAtLeaf_def Key_def compare_simps)
next
  case (Branch h s m l r)
  then have nl: "h \<noteq> 0" by auto
  have kr: "k < nkey m \<Longrightarrow> k \<notin> keys r" and kl: "\<not> k < nkey m \<Longrightarrow> k \<notin> keys l"
    using Branch.prems(1) by auto
  show ?case
    using Branch nl kr kl
    by (cases "k < nkey m") (auto simp: compare_simps Let_def split: prod.splits)
qed

lemma setNode_sized:
  assumes "sized n" "balanced n"
  shows "sized (fst (setNode n k v ver cow))"
  using assms
proof (induction n)
  case (Leaf m)
  then show ?case
    by (auto simp: setAtLeaf_def newBranch_def newLeafNode_def mutateMeta_def)
next
  case (Branch h s m l r)
  then show ?case
    using setNode_updated_keys [of l k v ver cow] setNode_updated_keys [of r k v ver cow]
    by (auto simp: Let_def Size_nleaves split: prod.splits intro!: sized_reBalance
        dest!: map_eq_imp_length_eq)
qed

lemma reBalance_grow:
  assumes "low l'" "low r'" "ht l \<le> Suc (ht r)" "ht r \<le> Suc (ht l)"
    and "ht l \<le> ht l'" "ht l' \<le> Suc (ht l)" "ht r \<le> ht r'" "ht r' \<le> Suc (ht r)"
    and "ht l' = ht l \<or> ht r' = ht r"
  shows "balanced (reBalance (updateHeightSize (Branch h s m l' r')) v c) \<and>
    Suc (max (ht l) (ht r)) \<le> ht (reBalance (updateHeightSize (Branch h s m l' r')) v c) \<and>
    ht (reBalance (updateHeightSize (Branch h s m l' r')) v c) \<le> Suc (Suc (max (ht l) (ht r)))"
proof -
  define n' where "n' = reBalance (updateHeightSize (Branch h s m l' r')) v c"
  have d: "ht l' \<le> ht r' + 2" "ht r' \<le> ht l' + 2" using assms by auto
  note rb = reBalance_balanced [OF assms(1,2) d, of h s m v c, folded n'_def]
  show ?thesis unfolding n'_def [symmetric]
    using rb assms(3-) by (cases "ht l' \<le> Suc (ht r') \<and> ht r' \<le> Suc (ht l')") auto
qed

lemma setNode_balanced:
  assumes "balanced n" "ht n < 253"
  shows "balanced (fst (setNode n k v ver cow)) \<and>
    ht n \<le> ht (fst (setNode n k v ver cow)) \<and> ht (fst (setNode n k v ver cow)) \<le> Suc (ht n)"
  using assms
proof (induction n)
  case (Leaf m)
  then show ?case
    by (auto simp: setAtLeaf_def newBranch_def newLeafNode_def mutateMeta_def)
next
  case (Branch h s m l r)
  obtain l' lu where l': "setNode l k v ver cow = (l', lu)" by fastforce
  obtain r' ru where r': "setNode r k v ver cow = (r', ru)" by fastforce
  have b: "balanced l" "balanced r" "ht l \<le> Suc (ht r)" "ht r \<le> Suc (ht l)" "ht l < 252" "ht r < 252"
    "h \<noteq> 0"
    using Branch.prems by auto
  have IHl: "balanced l'" "ht l \<le> ht l'" "ht l' \<le> Suc (ht l)" "lu \<Longrightarrow> ht l' = ht l"
    using Branch.IH(1) b l' setNode_updated_keys [of l k v ver cow] by auto
  have IHr: "balanced r'" "ht r \<le> ht r'" "ht r' \<le> Suc (ht r)" "ru \<Longrightarrow> ht r' = ht r"
    using Branch.IH(2) b r' setNode_updated_keys [of r k v ver cow] by auto
  have low: "low l" "low r" "low l'" "low r'"
    using b IHl IHr by (auto simp: low_def)
  show ?case
  proof (cases "bytesCompare k (nkey m) = -1")
    case True
    then show ?thesis
      using b IHl l' low reBalance_grow [of l' r l r h s "mutateMeta ver m" ver cow] Branch.prems
      by (cases lu) (simp_all add: Let_def le_SucI del: updateHeightSize.simps)
  next
    case False
    then show ?thesis
      using b IHr r' low reBalance_grow [of l r' l r h s "mutateMeta ver m" ver cow] Branch.prems
      by (cases ru) (simp_all add: Let_def le_SucI del: updateHeightSize.simps)
  qed
qed

section \<open>removeRecursive\<close>

abbreviation minKey :: "node \<Rightarrow> bytes" where
  "minKey n \<equiv> fst (hd (leaves n))"

text \<open>
  What a removal promises: the removed value, the leaves without the key in order, and the new
  smallest key exactly when the smallest one was removed.
\<close>

fun removeOK :: "node \<Rightarrow> bytes \<Rightarrow> slice \<times> node option \<times> bytes option \<Rightarrow> bool" where
  "removeOK n k (val, n', nk) =
     (val = map_of (leaves n) k \<and>
      (case n' of
         None \<Rightarrow> (\<exists>y. leaves n = [(k, y)]) \<and> nk = None
       | Some n1 \<Rightarrow> ordered n1 \<and> leaves n1 = delKV k (leaves n) \<and>
           nk = (if minKey n = k then Some (minKey n1) else None)))"

lemma delKV_append [simp]: "delKV k (xs @ ys) = delKV k xs @ delKV k ys"
  by (simp add: delKV_def)

lemma delKV_absent: "k \<notin> fst ` set xs \<Longrightarrow> delKV k xs = xs"
  by (force simp: delKV_def filter_id_conv)

lemma keys_delKV: "leaves n' = delKV k (leaves n) \<Longrightarrow> keys n' = keys n - {k}"
  by (auto simp: keys_def delKV_def)

lemma minKey_mem [simp]: "minKey n \<in> keys n"
  by (simp add: keys_def)

lemma minKey_le: "ordered n \<Longrightarrow> k \<in> keys n \<Longrightarrow> minKey n \<le> k"
  using ordered_sorted [of n] by (cases "leaves n") (auto simp: keys_def)

lemma removeOK_absent:
  assumes "ordered n" "k \<notin> keys n"
  shows "removeOK n k (None, Some n, None)"
proof -
  have "map_of (leaves n) k = None" using assms by (simp add: keys_def map_of_eq_None_iff)
  moreover have "minKey n \<noteq> k" using assms minKey_mem [of n] by metis
  ultimately show ?thesis
    using assms delKV_absent [of k "leaves n"] by (simp add: keys_def)
qed

lemma removeOK_None: "removeOK n k (None, n', nk) \<Longrightarrow> k \<notin> keys n"
  using map_of_eq_None_iff [of "leaves n" k] by (simp add: keys_def eq_commute [of None])

lemma removeOK_left:
  assumes o: "ordered (Branch h s m l r)" and k: "k < nkey m"
    and l: "removeOK l k (val, newLeft, nk)"
  shows "val = None \<Longrightarrow> removeOK (Branch h s m l r) k (None, Some (Branch h s m l r), None)"
    and "val \<noteq> None \<Longrightarrow> newLeft = None \<Longrightarrow> removeOK (Branch h s m l r) k (val, Some r, Some (nkey m))"
    and "val \<noteq> None \<Longrightarrow> newLeft = Some l' \<Longrightarrow>
      removeOK (Branch h s m l r) k
        (val, Some (reBalance (updateHeightSize (setLeft (Mutate (Branch h s m l r) v c) l')) v c), nk)"
proof -
  have r: "k \<notin> fst ` set (leaves r)" using o k by (auto simp: keys_def)
  then have mr: "map_of (leaves r) k = None" by (simp add: map_of_eq_None_iff)
  note dr = delKV_absent [OF r]
  show "removeOK (Branch h s m l r) k (None, Some (Branch h s m l r), None)" if "val = None"
    using removeOK_None [of l k newLeft nk] that l r o
    by (intro removeOK_absent) (simp_all add: keys_def image_Un del: removeOK.simps)
  show "removeOK (Branch h s m l r) k (val, Some r, Some (nkey m))" if nl: "val \<noteq> None" "newLeft = None"
  proof -
    obtain y where y: "leaves l = [(k, y)]" "val = Some y" using nl l by auto
    show ?thesis using o mr dr ordered_min [OF o] by (simp add: delKV_def y)
  qed
  show "removeOK (Branch h s m l r) k
     (val, Some (reBalance (updateHeightSize (setLeft (Mutate (Branch h s m l r) v c) l')) v c), nk)"
    if "val \<noteq> None" "newLeft = Some l'"
    using that l o mr dr keys_delKV [of l' k l] leaves_nonempty [of l']
    by (auto simp: mutateMeta_def map_add_def intro!: ordered_reBalance split: option.splits)
qed

lemma removeOK_right:
  assumes o: "ordered (Branch h s m l r)" and k: "nkey m \<le> k"
    and r: "removeOK r k (val, newRight, nk)"
  shows "val = None \<Longrightarrow> removeOK (Branch h s m l r) k (None, Some (Branch h s m l r), None)"
    and "val \<noteq> None \<Longrightarrow> newRight = None \<Longrightarrow> removeOK (Branch h s m l r) k (val, Some l, None)"
    and "val \<noteq> None \<Longrightarrow> newRight = Some r' \<Longrightarrow>
      removeOK (Branch h s m l r) k
        (val, Some (reBalance (updateHeightSize
           (case nk of None \<Rightarrow> Branch h s (mutateMeta v m) l r'
            | Some x \<Rightarrow> setKey (Branch h s (mutateMeta v m) l r') x)) v c), None)"
proof -
  have l: "k \<notin> fst ` set (leaves l)" using o k by (auto simp: keys_def)
  then have ml: "map_of (leaves l) k = None" by (simp add: map_of_eq_None_iff)
  have hl: "minKey l \<noteq> k" using l minKey_mem [of l] by (auto simp: keys_def)
  note dl = delKV_absent [OF l]
  show "removeOK (Branch h s m l r) k (None, Some (Branch h s m l r), None)" if "val = None"
    using removeOK_None [of r k newRight nk] that l r o
    by (intro removeOK_absent) (simp_all add: keys_def image_Un del: removeOK.simps)
  show "removeOK (Branch h s m l r) k (val, Some l, None)" if "val \<noteq> None" "newRight = None"
    using that r o ml dl hl by (auto simp: delKV_def map_add_def)
  show "removeOK (Branch h s m l r) k
        (val, Some (reBalance (updateHeightSize
           (case nk of None \<Rightarrow> Branch h s (mutateMeta v m) l r'
            | Some x \<Rightarrow> setKey (Branch h s (mutateMeta v m) l r') x)) v c), None)"
    if "val \<noteq> None" "newRight = Some r'"
  proof -
    have mk: "nkey m = minKey r" by (rule ordered_min [OF o])
    have r': "ordered r'" "leaves r' = delKV k (leaves r)"
      "nk = (if minKey r = k then Some (minKey r') else None)" "map_of (leaves r) k = val"
      using r unfolding that(2) by simp_all
    have kr': "keys r' = keys r - {k}" using keys_delKV [OF r'(2)] .
    have "minKey r' \<in> keys r'" "\<forall>x \<in> keys r'. minKey r' \<le> x"
      using minKey_le [OF r'(1)] minKey_mem by blast+
    moreover have "\<forall>x \<in> keys l. x < minKey r'"
      using o kr' minKey_mem [of r'] by fastforce
    ultimately have "ordered (case nk of None \<Rightarrow> Branch h s (mutateMeta v m) l r'
        | Some x \<Rightarrow> setKey (Branch h s (mutateMeta v m) l r') x)"
      using r'(1,3) o kr' mk by (cases "minKey r = k") (simp_all add: mutateMeta_def)
    moreover have "leaves (case nk of None \<Rightarrow> Branch h s (mutateMeta v m) l r'
        | Some x \<Rightarrow> setKey (Branch h s (mutateMeta v m) l r') x) = leaves l @ leaves r'"
      by (simp split: option.splits)
    ultimately show ?thesis
      using r'(2,4) that(1) by (auto simp: map_add_def ml dl hl intro!: ordered_reBalance)
  qed
qed

lemma removeNode_OK:
  assumes "ordered n" "balanced n"
  shows "removeOK n k (removeNode n k v c)"
  using assms
proof (induction n)
  case (Leaf m)
  then show ?case by (auto simp: removeAtLeaf_def Key_def Value_def delKV_def)
next
  case (Branch h s m l r)
  note o = Branch.prems(1)
  have b: "balanced l" "balanced r" "h \<noteq> 0" using Branch.prems by auto
  obtain lv ln lk where L: "removeNode l k v c = (lv, ln, lk)" by (metis prod_cases3)
  obtain rv rn rk where R: "removeNode r k v c = (rv, rn, rk)" by (metis prod_cases3)
  have l: "removeOK l k (lv, ln, lk)" and r: "removeOK r k (rv, rn, rk)"
    using Branch.IH o b L R by (simp_all del: removeOK.simps)
  show ?case
  proof (cases "k < nkey m")
    case True
    then show ?thesis
      using removeOK_left [OF o True l] b L
      by (cases lv; cases ln) (simp_all add: Let_def compare_simps del: removeOK.simps)
  next
    case False
    then have k: "nkey m \<le> k" by simp
    then show ?thesis
      using removeOK_right [OF o k r] b R False
      by (cases rv; cases rn) (simp_all add: Let_def compare_simps del: removeOK.simps)
  qed
qed

text \<open>Sizes and heights after a removal: the height stays or drops by one.\<close>

lemma sized_setKey [simp]: "sized (setKey n k) = sized n"
  by (cases n) auto

lemma removeNode_Branch_left:
  assumes "bytesCompare k (nkey m) = -1" "\<not> IsLeaf (Branch h s m l r)"
    and "removeNode l k v c = (x, ln, y)"
  shows "removeNode (Branch h s m l r) k v c =
    (if x = None then (None, Some (Branch h s m l r), None)
     else case ln of None \<Rightarrow> (x, Some r, Some (nkey m))
       | Some l' \<Rightarrow> (x, Some (reBalance (updateHeightSize (Branch h s (mutateMeta v m) l' r)) v c), y))"
  using assms by (simp add: Let_def del: updateHeightSize.simps IsLeaf.simps cong: option.case_cong)

lemma removeNode_Branch_right:
  assumes "bytesCompare k (nkey m) \<noteq> -1" "\<not> IsLeaf (Branch h s m l r)"
    and "removeNode r k v c = (x, rn, y)"
  shows "removeNode (Branch h s m l r) k v c =
    (if x = None then (None, Some (Branch h s m l r), None)
     else case rn of None \<Rightarrow> (x, Some l, None)
       | Some r' \<Rightarrow> (x, Some (reBalance (updateHeightSize
            (Branch h s (case y of None \<Rightarrow> mutateMeta v m | Some z \<Rightarrow> (mutateMeta v m)\<lparr>nkey := z\<rparr>)
               l r')) v c), None))"
  using assms
  by (cases y) (simp_all add: Let_def del: updateHeightSize.simps IsLeaf.simps cong: option.case_cong)

lemma removeNode_Branch_cases:
  assumes "removeNode (Branch h s m l r) k v c = (val, n', nk)"
  obtains (leaf) "IsLeaf (Branch h s m l r)" "(val, n', nk) = removeAtLeaf (Branch h s m l r) k"
  | (same) "n' = Some (Branch h s m l r)" "val = None"
  | (dropL) x y where "removeNode l k v c = (x, None, y)" "n' = Some r"
  | (dropR) x y where "removeNode r k v c = (x, None, y)" "n' = Some l"
  | (left) x y l' where "removeNode l k v c = (x, Some l', y)"
      "n' = Some (reBalance (updateHeightSize (Branch h s (mutateMeta v m) l' r)) v c)"
  | (right) x y r' key where "removeNode r k v c = (x, Some r', y)"
      "n' = Some (reBalance (updateHeightSize (Branch h s ((mutateMeta v m)\<lparr>nkey := key\<rparr>) l r')) v c)"
proof (cases "IsLeaf (Branch h s m l r)")
  case True
  then show thesis using assms leaf by (simp add: Let_def)
next
  case nl: False
  show thesis
  proof (cases "bytesCompare k (nkey m) = -1")
    case True
    obtain x ln y where L: "removeNode l k v c = (x, ln, y)" by (metis prod_cases3)
    note eq = removeNode_Branch_left [OF True nl L, unfolded assms]
    show thesis
    proof (cases "x = None")
      case True
      then show thesis using eq by (intro same) simp_all
    next
      case False
      show thesis
      proof (cases ln)
        case None
        then have "n' = Some r" using eq False by simp
        then show thesis by (rule dropL [OF L [unfolded None]])
      next
        case (Some a)
        then have "n' = Some (reBalance (updateHeightSize (Branch h s
            (mutateMeta v m) a r)) v c)"
          using eq False by simp
        then show thesis by (rule left [OF L [unfolded Some]])
      qed
    qed
  next
    case False
    obtain x rn y where R: "removeNode r k v c = (x, rn, y)" by (metis prod_cases3)
    note eq = removeNode_Branch_right [OF False nl R, unfolded assms]
    show thesis
    proof (cases "x = None")
      case True
      then show thesis using eq by (intro same) simp_all
    next
      case False
      show thesis
      proof (cases rn)
        case None
        then have "n' = Some l" using eq False by simp
        then show thesis by (rule dropR [OF R [unfolded None]])
      next
        case (Some a)
        then have "n' = Some (reBalance (updateHeightSize (Branch h s
            ((mutateMeta v m)\<lparr>nkey := (case y of None \<Rightarrow> nkey m | Some z \<Rightarrow> z)\<rparr>) l a)) v c)"
          using eq False by (cases y) (simp_all add: mutateMeta_def)
        then show thesis by (rule right [OF R [unfolded Some]])
      qed
    qed
  qed
qed

lemma removeNode_sized:
  "sized n \<Longrightarrow> removeNode n k v c = (val, Some n', nk) \<Longrightarrow> sized n'"
proof (induction n arbitrary: val n' nk)
  case (Leaf m)
  then show ?case by (auto simp: removeAtLeaf_def split: if_splits)
next
  case (Branch h s m l r)
  have lr: "sized l" "sized r" using Branch.prems(1) by auto
  from Branch.prems(2) show ?case
  proof (cases rule: removeNode_Branch_cases)
    case leaf
    then show ?thesis using Branch.prems(1) by (simp add: removeAtLeaf_def split: if_splits)
  next
    case (left x y l')
    then have "sized l'" using Branch.IH(1) lr by simp
    then show ?thesis using left(2) lr by (simp add: sized_reBalance Size_nleaves)
  next
    case (right x y r' key)
    then have "sized r'" using Branch.IH(2) lr by simp
    then show ?thesis using right(2) lr by (simp add: sized_reBalance Size_nleaves)
  qed (use Branch.prems(1) in simp_all)
qed

definition shrinks :: "node \<Rightarrow> node \<Rightarrow> bool" where
  "shrinks n n' \<longleftrightarrow> balanced n' \<and> ht n' \<le> ht n \<and> ht n \<le> Suc (ht n')"

lemma shrink_arith:
  fixes a b a' b' x :: nat
  assumes "a \<le> Suc b" "b \<le> Suc a" "a' \<le> a" "a \<le> Suc a'" "b' \<le> b" "b \<le> Suc b'" "a' = a \<or> b' = b"
    and "x \<le> Suc (max a' b')" "max a' b' \<le> x"
    and "a' \<le> Suc b' \<and> b' \<le> Suc a' \<longrightarrow> x = Suc (max a' b')"
  shows "x \<le> Suc (max a b) \<and> Suc (max a b) \<le> Suc x"
proof (cases "a' \<le> Suc b' \<and> b' \<le> Suc a'")
  case True
  then have "x = Suc (max a' b')" using assms by simp
  then show ?thesis using assms(1-7) by (auto simp: max_def)
next
  case False
  then show ?thesis using assms(1-9) by (auto simp: max_def split: if_splits)
qed

lemma reBalance_shrink:
  assumes "balanced (Branch h s m l r)" "ht (Branch h s m l r) < 254" "shrinks l l'" "shrinks r r'"
    and "ht l' = ht l \<or> ht r' = ht r"
  shows "shrinks (Branch h s m l r) (reBalance (updateHeightSize (Branch h s m' l' r')) v c)"
proof -
  define n' where "n' = reBalance (updateHeightSize (Branch h s m' l' r')) v c"
  have lr: "ht l \<le> Suc (ht r)" "ht r \<le> Suc (ht l)" using assms(1) by auto
  have sh: "ht l' \<le> ht l" "ht l \<le> Suc (ht l')" "ht r' \<le> ht r" "ht r \<le> Suc (ht r')"
    using assms(3,4) by (auto simp: shrinks_def)
  have lw: "low l'" "low r'" using assms(2,3,4) by (auto simp: shrinks_def low_def)
  have d: "ht l' \<le> ht r' + 2" "ht r' \<le> ht l' + 2" using lr sh assms(5) by linarith+
  note rb = reBalance_balanced [OF lw d, of h s m' v c, folded n'_def]
  have "ht n' \<le> Suc (max (ht l) (ht r)) \<and> Suc (max (ht l) (ht r)) \<le> Suc (ht n')"
    using shrink_arith [OF lr sh assms(5) rb(2,3)] rb(4) by blast
  then show ?thesis unfolding n'_def [symmetric] shrinks_def using rb(1) by simp
qed

lemma shrinks_refl: "balanced n \<Longrightarrow> shrinks n n"
  by (simp add: shrinks_def)

lemma removeNode_gone:
  assumes "balanced n" "removeNode n k v c = (val, None, nk)"
  shows "ht n = 0"
proof (cases n)
  case (Branch h s m l r)
  from assms(2) [unfolded Branch] show ?thesis
    by (cases rule: removeNode_Branch_cases) (use assms(1) Branch in auto)
qed simp

lemma shrinks_child:
  assumes "balanced (Branch h s m l r)"
  shows "ht l = 0 \<Longrightarrow> shrinks (Branch h s m l r) r" "ht r = 0 \<Longrightarrow> shrinks (Branch h s m l r) l"
  using assms by (auto simp: shrinks_def)

lemma removeNode_balanced:
  assumes "balanced n" "ht n < 254" "removeNode n k v c = (val, Some n', nk)"
  shows "shrinks n n'"
  using assms
proof (induction n arbitrary: val n' nk)
  case (Leaf m)
  then show ?case by (auto simp: removeAtLeaf_def shrinks_def split: if_splits)
next
  case (Branch h s m l r)
  note b = Branch.prems(1) and hb = Branch.prems(2)
  have kids: "balanced l" "balanced r" "ht l < 254" "ht r < 254" "h \<noteq> 0" using b hb by auto
  note refls = shrinks_refl [OF kids(1)] shrinks_refl [OF kids(2)] shrinks_refl [OF b]
  from Branch.prems(3) show ?case
  proof (cases rule: removeNode_Branch_cases)
    case leaf
    then show ?thesis using kids by simp
  next
    case same
    then show ?thesis using refls by simp
  next
    case dropL
    then show ?thesis using shrinks_child [OF b] removeNode_gone [OF kids(1)] by simp
  next
    case dropR
    then show ?thesis using shrinks_child [OF b] removeNode_gone [OF kids(2)] by simp
  next
    case (left x y l')
    then show ?thesis
      using reBalance_shrink [OF b hb Branch.IH(1) [OF kids(1,3) left(1)] refls(2)] by simp
  next
    case (right x y r' key)
    then show ?thesis
      using reBalance_shrink [OF b hb refls(1) Branch.IH(2) [OF kids(2,4) right(1)]] by simp
  qed
qed

end
