(* ===== verification/NodeMap.thy ===== *)
theory NodeMap
  imports NodeInv
begin

text \<open>
  The functional contract of \<open>setRecursive\<close>, \<open>removeRecursive\<close>, \<open>Get\<close> and \<open>GetByIndex\<close>
  (\<open>memiavl/node.go\<close>, \<open>memiavl/mem_node.go\<close>) on a root that may be nil: the tree is a sorted
  association list, insertion and deletion act on it as on a finite map, lookup by key returns the
  value and the rank, lookup by rank is its inverse.
\<close>

section \<open>Roots\<close>

fun rootLeaves :: "node option \<Rightarrow> (bytes \<times> bytes) list" where
  "rootLeaves None = []"
| "rootLeaves (Some n) = leaves n"

fun rootWf :: "node option \<Rightarrow> bool" where
  "rootWf None = True"
| "rootWf (Some n) = nodeWf n"

lemma rootWf_sorted: "rootWf n \<Longrightarrow> sorted_wrt (<) (map fst (rootLeaves n))"
  by (cases n) (auto simp: nodeWf_def ordered_sorted)

lemma wf_ht_bound: "nodeWf n \<Longrightarrow> nleaves n < 2 ^ 62 \<Longrightarrow> ht n < 124"
  by (simp add: nodeWf_def balanced_ht_bound)

lemma setRecursive_leaves:
  "rootWf n \<Longrightarrow> leaves (fst (setRecursive n k (Some v) ver cow)) = putKV k v (rootLeaves n)"
  by (cases n) (auto simp: setRecursive_def newLeafNode_def putKV_def nodeWf_def setNode_leaves)

lemma setRecursive_wf:
  assumes "rootWf n" "length (rootLeaves n) < 2 ^ 62"
  shows "nodeWf (fst (setRecursive n k (Some v) ver cow))"
proof (cases n)
  case None
  then show ?thesis by (simp add: setRecursive_def newLeafNode_def nodeWf_def)
next
  case (Some t)
  then have "ht t < 253" using assms wf_ht_bound [of t] by simp
  then show ?thesis
    using Some assms by (simp add: setRecursive_def nodeWf_def setNode_ordered setNode_balanced setNode_sized)
qed

lemma length_filter_split3:
  fixes k :: bytes
  shows "length (filter (\<lambda>p. fst p < k) xs) + length (filter (\<lambda>p. k < fst p) xs) +
    length (filter (\<lambda>p. fst p = k) xs) = length xs"
  by (induction xs) auto

lemma length_filter_key:
  "distinct (map fst xs) \<Longrightarrow>
   length (filter (\<lambda>p. fst p = k) xs) = (if k \<in> fst ` set xs then 1 else 0)"
  by (induction xs) (auto simp: filter_empty_conv image_iff)

lemma length_putKV:
  assumes "distinct (map fst xs)"
  shows "length (putKV k v xs) = (if k \<in> fst ` set xs then length xs else Suc (length xs))"
  using length_filter_split3 [of k xs] length_filter_key [OF assms, of k]
  by (simp add: putKV_def split: if_splits)

lemma map_of_filter_fst: "P k \<Longrightarrow> map_of (filter (\<lambda>p. P (fst p)) xs) k = map_of xs k"
  by (induction xs) auto

lemma map_of_filter_out: "\<not> P k \<Longrightarrow> map_of (filter (\<lambda>p. P (fst p)) xs) k = None"
  by (induction xs) auto

lemma map_of_putKV: "map_of (putKV k v xs) = (map_of xs)(k \<mapsto> v)"
proof
  fix j
  note lt = map_of_filter_fst [of "\<lambda>x. x < k"] map_of_filter_out [of "\<lambda>x. x < k"]
  note gt = map_of_filter_fst [of "\<lambda>x. k < x"] map_of_filter_out [of "\<lambda>x. k < x"]
  consider "j < k" | "j = k" | "k < j" by (rule linorder_cases)
  then show "map_of (putKV k v xs) j = ((map_of xs)(k \<mapsto> v)) j"
  proof cases
    case 1
    then have "\<not> k < j" "j \<noteq> k" by auto
    then show ?thesis using 1 lt(1) [of j xs] gt(2) [of j xs]
      by (auto simp: putKV_def map_add_def split: option.splits)
  next
    case 2
    then show ?thesis using lt(2) [of j xs] by (simp add: putKV_def map_add_def)
  next
    case 3
    then have "\<not> j < k" "j \<noteq> k" by auto
    then show ?thesis using 3 lt(2) [of j xs] gt(1) [of j xs] by (auto simp: putKV_def map_add_def)
  qed
qed

lemma map_of_delKV: "map_of (delKV k xs) = (map_of xs)(k := None)"
  by (induction xs) (auto simp: delKV_def)

lemma removeRecursive_leaves:
  assumes "rootWf n"
  shows "rootLeaves (fst (snd (removeRecursive n k ver cow))) = delKV k (rootLeaves n)"
    and "fst (removeRecursive n k ver cow) = map_of (rootLeaves n) k"
proof -
  have "rootLeaves (fst (snd (removeRecursive n k ver cow))) = delKV k (rootLeaves n) \<and>
    fst (removeRecursive n k ver cow) = map_of (rootLeaves n) k"
  proof (cases n)
    case None
    then show ?thesis by (simp add: removeRecursive_def delKV_def)
  next
    case (Some t)
    obtain val t' nk where r: "removeNode t k ver cow = (val, t', nk)" by (metis prod_cases3)
    have "removeOK t k (val, t', nk)" using removeNode_OK [of t k ver cow] Some assms r by (simp add: nodeWf_def)
    then show ?thesis using Some r by (cases t') (auto simp: removeRecursive_def delKV_def)
  qed
  then show "rootLeaves (fst (snd (removeRecursive n k ver cow))) = delKV k (rootLeaves n)"
    "fst (removeRecursive n k ver cow) = map_of (rootLeaves n) k" by auto
qed

lemma removeRecursive_wf:
  assumes "rootWf n" "length (rootLeaves n) < 2 ^ 62"
  shows "rootWf (fst (snd (removeRecursive n k ver cow)))"
proof (cases n)
  case None
  then show ?thesis by (simp add: removeRecursive_def)
next
  case (Some t)
  obtain val t' nk where r: "removeNode t k ver cow = (val, t', nk)" by (metis prod_cases3)
  have w: "ordered t" "balanced t" "sized t" "ht t < 254"
    using Some assms wf_ht_bound [of t] by (auto simp: nodeWf_def)
  show ?thesis
  proof (cases t')
    case (Some t1)
    have "removeOK t k (val, Some t1, nk)" using removeNode_OK [OF w(1,2), of k ver cow] r Some by simp
    moreover have "shrinks t t1" using removeNode_balanced [OF w(2,4)] r Some by blast
    moreover have "sized t1" using removeNode_sized [OF w(3)] r Some by blast
    ultimately show ?thesis
      using r \<open>n = Some t\<close> Some by (simp add: removeRecursive_def nodeWf_def shrinks_def)
  qed (use r Some in \<open>simp add: removeRecursive_def\<close>)
qed

section \<open>Lookup\<close>

lemma ucast_of_nat_32: "ucast (of_nat n :: u64) = (of_nat n :: u32)"
  by transfer (simp add: take_bit_of_nat min_def)

definition rank :: "bytes \<Rightarrow> (bytes \<times> bytes) list \<Rightarrow> nat" where
  "rank k xs = length (filter (\<lambda>p. fst p < k) xs)"

lemma rank_append [simp]: "rank k (xs @ ys) = rank k xs + rank k ys"
  by (simp add: rank_def)

lemma rank_below: "\<forall>p \<in> set xs. fst p < k \<Longrightarrow> rank k xs = length xs"
  by (simp add: rank_def)

lemma rank_above: "\<forall>p \<in> set xs. k \<le> fst p \<Longrightarrow> rank k xs = 0"
  by (auto simp: rank_def filter_empty_conv)

lemma rank_split:
  assumes "sorted_wrt (<) (map fst xs)"
  shows "rank k xs \<le> length xs" "\<And>a. a < rank k xs \<Longrightarrow> fst (xs ! a) < k"
    "\<And>a. rank k xs \<le> a \<Longrightarrow> a < length xs \<Longrightarrow> k \<le> fst (xs ! a)"
proof -
  have "rank k xs \<le> length xs \<and> (\<forall>a < rank k xs. fst (xs ! a) < k) \<and>
    (\<forall>a. rank k xs \<le> a \<longrightarrow> a < length xs \<longrightarrow> k \<le> fst (xs ! a))"
    using assms
  proof (induction xs)
    case (Cons p xs)
    show ?case
    proof (cases "fst p < k")
      case True
      then have "rank k (p # xs) = Suc (rank k xs)" by (simp add: rank_def)
      then show ?thesis using Cons True by (auto simp: nth_Cons split: nat.splits)
    next
      case False
      then have all: "\<forall>q \<in> set (p # xs). k \<le> fst q" using Cons.prems by force
      then have "rank k (p # xs) = 0" by (rule rank_above)
      moreover have "k \<le> fst ((p # xs) ! a)" if "a < length (p # xs)" for a
        using all nth_mem [OF that] by blast
      ultimately show ?thesis by simp
    qed
  qed (simp add: rank_def)
  then show "rank k xs \<le> length xs" "\<And>a. a < rank k xs \<Longrightarrow> fst (xs ! a) < k"
    "\<And>a. rank k xs \<le> a \<Longrightarrow> a < length xs \<Longrightarrow> k \<le> fst (xs ! a)" by auto
qed

text \<open>The binary search of \<open>sort.Search\<close> over sorted entries finds the rank of the key.\<close>

lemma sortSearch_rank:
  assumes srt: "sorted_wrt (<) (map fst xs)"
    and f: "\<And>i. i < length xs \<Longrightarrow> f i \<longleftrightarrow> k \<le> fst (xs ! i)"
  shows "sortSearch (length xs) f = rank k xs"
proof -
  note r = rank_split [OF srt, where k = k]
  have mono: "f b" if "a \<le> b" "f a" "b < length xs" for a b
  proof -
    have "k \<le> fst (xs ! a)" using that f [of a] by simp
    then have "\<not> a < rank k xs" using r(2) [of a] leD by blast
    then have "k \<le> fst (xs ! b)" using r(3) [of b] that by simp
    then show ?thesis using f [OF that(3)] by simp
  qed
  define s where "s = sortSearch (length xs) f"
  have s: "s \<le> length xs" "\<And>a. a < s \<Longrightarrow> \<not> f a" "s < length xs \<Longrightarrow> f s"
    unfolding s_def using sortSearch_least [of f "length xs"] mono by blast+
  have "\<not> s < rank k xs"
  proof
    assume lt: "s < rank k xs"
    then have "s < length xs" using r(1) by simp
    then have "k \<le> fst (xs ! s)" using s(3) f by blast
    then show False using r(2) [OF lt] leD by blast
  qed
  moreover have "\<not> rank k xs < s"
  proof
    assume gt: "rank k xs < s"
    then have "rank k xs < length xs" using s(1) by simp
    then show False using s(2) [OF gt] f r(3) by blast
  qed
  ultimately show ?thesis unfolding s_def by simp
qed

lemma Get_spec:
  "nodeWf n \<Longrightarrow> Get n k = (map_of (leaves n) k, of_nat (rank k (leaves n)))"
proof (induction n)
  case (Leaf m)
  then show ?case by (auto simp: compare_simps rank_def nodeWf_def)
next
  case (Branch h s m l r)
  have w: "nodeWf l" "nodeWf r" "h \<noteq> 0" using Branch.prems by (auto simp: nodeWf_def)
  have lk: "\<forall>p \<in> set (leaves l). fst p < nkey m" and rk: "\<forall>p \<in> set (leaves r). nkey m \<le> fst p"
    using Branch.prems by (auto simp: nodeWf_def keys_def)
  show ?case
  proof (cases "k < nkey m")
    case True
    have "\<forall>p \<in> set (leaves r). k < fst p" using rk True order.strict_trans2 by blast
    then have "rank k (leaves r) = 0" "map_of (leaves r) k = None"
      by (auto intro!: rank_above simp: map_of_eq_None_iff)
    then show ?thesis using True Branch.IH(1) w
      by (auto simp: compare_simps map_add_def split: option.splits)
  next
    case False
    have "\<forall>p \<in> set (leaves l). fst p < k" using lk False order.strict_trans2 not_less by blast
    then have "rank k (leaves l) = nleaves l" "map_of (leaves l) k = None"
      by (auto intro!: rank_below simp: map_of_eq_None_iff)
    moreover have "ucast s - ucast (Size r) = (of_nat (nleaves l) :: u32)"
    proof -
      have "s = of_nat (nleaves l + nleaves r)" "Size r = of_nat (nleaves r)"
        using Branch.prems w by (simp_all add: nodeWf_def Size_nleaves)
      then have "ucast s = (of_nat (nleaves l + nleaves r) :: u32)" "ucast (Size r) = (of_nat (nleaves r) :: u32)"
        by (simp_all only: ucast_of_nat_32)
      then show ?thesis by simp
    qed
    ultimately show ?thesis
      using False Branch.IH(2) w
      by (simp add: compare_simps map_add_def add_diff_eq [symmetric] split: option.splits)
  qed
qed

lemma GetByIndex_spec:
  "nodeWf n \<Longrightarrow> nleaves n < 2 ^ 32 \<Longrightarrow>
   GetByIndex n i = (if unat i < nleaves n then Some (fst (leaves n ! unat i), Some (snd (leaves n ! unat i))) else None)"
proof (induction n arbitrary: i)
  case (Leaf m)
  then show ?case by (auto simp: nodeWf_def unat_eq_0)
next
  case (Branch h s m l r)
  have w: "nodeWf l" "nodeWf r" "h \<noteq> 0" "nleaves l < 2 ^ 32" "nleaves r < 2 ^ 32"
    using Branch.prems by (auto simp: nodeWf_def)
  have sl: "unat (ucast (Size l) :: u32) = nleaves l"
    using w by (simp add: nodeWf_def Size_nleaves ucast_of_nat_32 unsigned_of_nat take_bit_nat_eq_self)
  then have lt: "i < ucast (Size l) \<longleftrightarrow> unat i < nleaves l" by (simp add: word_less_nat_alt)
  have sub: "unat (i - ucast (Size l)) = unat i - nleaves l" if "\<not> unat i < nleaves l"
    using that sl by (simp add: unat_sub word_le_nat_alt)
  show ?case
    using Branch.IH w lt sub by (auto simp: Let_def nth_append)
qed

lemma rank_nth:
  "sorted_wrt (<) (map fst xs) \<Longrightarrow> map_of xs k = Some v \<Longrightarrow>
   rank k xs < length xs \<and> xs ! rank k xs = (k, v)"
proof (induction xs)
  case (Cons p xs)
  show ?case
  proof (cases "fst p = k")
    case True
    then have "rank k (p # xs) = 0" using Cons.prems(1) by (intro rank_above) auto
    then show ?thesis using True Cons.prems(2) by (cases p) simp
  next
    case False
    then have kv: "map_of xs k = Some v" using Cons.prems(2) by (cases p) simp
    then have "(k, v) \<in> set xs" by (rule map_of_SomeD)
    then have "fst p < k" using Cons.prems(1) by force
    then have "rank k (p # xs) = Suc (rank k xs)" by (simp add: rank_def)
    then show ?thesis using Cons.IH Cons.prems(1) kv by simp
  qed
qed simp

lemma removeNode_absent:
  assumes "ordered n" "balanced n" "k \<notin> keys n"
  shows "removeNode n k ver cow = (None, Some n, None)"
  using assms
proof (induction n)
  case (Leaf m)
  then show ?case by (simp add: removeAtLeaf_def Key_def)
next
  case (Branch h s m l r)
  then have nl: "\<not> IsLeaf (Branch h s m l r)" by auto
  show ?case
  proof (cases "bytesCompare k (nkey m) = -1")
    case True
    show ?thesis using removeNode_Branch_left [OF True nl] Branch by simp
  next
    case False
    show ?thesis using removeNode_Branch_right [OF False nl] Branch by simp
  qed
qed

section \<open>Properties\<close>

text \<open>C1: inserting or updating a key. On a well-formed tree (or nil) \<open>setRecursive\<close> returns a
  well-formed tree, that is ordered by key, AVL-balanced with exact heights, and with exact sizes.
  Its leaves are the old ones with the entry put at its place, so as a finite map it is the
  old map updated at \<open>k\<close>. The flag reports an update exactly when the key was present or the tree
  was nil.\<close>

theorem setRecursive_correct:
  assumes "rootWf n" "length (rootLeaves n) < 2 ^ 62"
  shows "nodeWf (fst (setRecursive n k (Some v) ver cow)) \<and>
    leaves (fst (setRecursive n k (Some v) ver cow)) = putKV k v (rootLeaves n) \<and>
    map_of (leaves (fst (setRecursive n k (Some v) ver cow))) = (map_of (rootLeaves n))(k \<mapsto> v) \<and>
    (snd (setRecursive n k (Some v) ver cow) \<longleftrightarrow> n = None \<or> k \<in> fst ` set (rootLeaves n))"
proof (intro conjI)
  show "snd (setRecursive n k (Some v) ver cow) \<longleftrightarrow> n = None \<or> k \<in> fst ` set (rootLeaves n)"
    using assms(1) by (cases n) (auto simp: setRecursive_def nodeWf_def setNode_updated_iff keys_def)
qed (use assms in \<open>simp_all add: setRecursive_wf setRecursive_leaves map_of_putKV\<close>)

fun buildNode :: "node \<Rightarrow> (bytes \<times> bytes) list \<Rightarrow> node" where
  "buildNode n [] = n"
| "buildNode n ((k, v) # kvs) = buildNode (fst (setRecursive (Some n) k (Some v) 1 0)) kvs"

lemma buildNode_wf:
  "nodeWf n \<Longrightarrow> nleaves n + length kvs < 2 ^ 62 \<Longrightarrow>
   nodeWf (buildNode n kvs) \<and> leaves (buildNode n kvs) = fold (\<lambda>(k, v). putKV k v) kvs (leaves n)"
proof (induction n kvs rule: buildNode.induct)
  case (2 n k v kvs)
  have "nleaves (fst (setRecursive (Some n) k (Some v) 1 0)) \<le> Suc (nleaves n)"
    using 2 setRecursive_leaves [of "Some n" k v 1 0] length_putKV [of "leaves n" k v] ordered_distinct [of n]
    by (simp add: nodeWf_def)
  then show ?case
    using 2 setRecursive_wf [of "Some n" k v 1 0] setRecursive_leaves [of "Some n" k v 1 0] by simp
qed simp

definition sampleTree :: node where
  "sampleTree = buildNode (newLeafNode [1] (Some [10]) 1) [([3], [30]), ([5], [])]"

lemma sampleTree_wf: "nodeWf sampleTree"
  and sampleTree_leaves: "leaves sampleTree = [([1], [10]), ([3], [30]), ([5], [])]"
  using buildNode_wf [of "newLeafNode [1] (Some [10]) 1" "[([3], [30]), ([5], [])]"]
  by (simp_all add: sampleTree_def newLeafNode_def nodeWf_def putKV_def)

theorem setRecursive_correct_witness:
  "leaves (fst (setRecursive (Some sampleTree) [4] (Some [40]) 2 1)) =
     [([1], [10]), ([3], [30]), ([4], [40]), ([5], [])] \<and>
   nodeWf (fst (setRecursive (Some sampleTree) [4] (Some [40]) 2 1))"
  using setRecursive_correct [of "Some sampleTree" "[4]" "[40]" 2 1]
  by (simp add: sampleTree_wf sampleTree_leaves putKV_def)

text \<open>C2: removing a key. \<open>removeRecursive\<close> returns the removed value (nil when the key is
  absent, and then the very same tree), keeps well-formedness, and leaves exactly the
  other entries, in order.\<close>

theorem removeRecursive_correct:
  assumes "rootWf n" "length (rootLeaves n) < 2 ^ 62"
    and "removeRecursive n k ver cow = (val, n', nk)"
  shows "rootWf n' \<and> rootLeaves n' = delKV k (rootLeaves n) \<and>
    map_of (rootLeaves n') = (map_of (rootLeaves n))(k := None) \<and>
    val = map_of (rootLeaves n) k \<and> (val = None \<longrightarrow> n' = n)"
proof (intro conjI impI)
  assume that: "val = None"
  show "n' = n"
  proof (cases n)
    case (Some t)
    have "map_of (leaves t) k = None"
      using removeRecursive_leaves(2) [OF assms(1), of k ver cow] assms(3) that Some by simp
    then have "k \<notin> keys t" by (simp add: map_of_eq_None_iff keys_def)
    then show ?thesis
      using assms(1,3) Some removeNode_absent [of t k ver cow] by (simp add: removeRecursive_def nodeWf_def)
  qed (use assms(3) in \<open>simp add: removeRecursive_def\<close>)
qed (use assms removeRecursive_wf [OF assms(1,2), of k ver cow]
      removeRecursive_leaves [OF assms(1), of k ver cow] in \<open>simp_all add: map_of_delKV\<close>)

theorem removeRecursive_correct_witness:
  "rootLeaves (fst (snd (removeRecursive (Some sampleTree) [3] 2 1))) = [([1], [10]), ([5], [])] \<and>
   fst (removeRecursive (Some sampleTree) [3] 2 1) = Some [30]"
proof -
  obtain val n' nk where r: "removeRecursive (Some sampleTree) [3] 2 1 = (val, n', nk)" by (metis prod_cases3)
  show ?thesis
    using removeRecursive_correct [OF _ _ r] r by (simp add: sampleTree_wf sampleTree_leaves delKV_def)
qed



text \<open>C4: lookup by key. \<open>Get\<close> returns the value stored under the key, nil when it is absent,
  and the number of keys below it modulo \<open>2 ^ 32\<close>; when the key is present and the tree has
  fewer than \<open>2 ^ 32\<close> leaves, \<open>GetByIndex\<close> at that index returns the same entry, and beyond the last
  leaf it returns nil.\<close>

theorem Get_GetByIndex:
  assumes "nodeWf n" "nleaves n < 2 ^ 32"
  shows "Get n k = (map_of (leaves n) k, of_nat (rank k (leaves n))) \<and>
    (Get n k = (Some v, i) \<longrightarrow> GetByIndex n i = Some (k, Some v)) \<and>
    (nleaves n \<le> unat j \<longrightarrow> GetByIndex n j = None)"
proof (intro conjI impI)
  show G: "Get n k = (map_of (leaves n) k, of_nat (rank k (leaves n)))" using assms(1) by (rule Get_spec)
  show "GetByIndex n i = Some (k, Some v)" if that: "Get n k = (Some v, i)"
  proof -
    have r: "rank k (leaves n) < nleaves n" "leaves n ! rank k (leaves n) = (k, v)"
      using rank_nth [of "leaves n" k v] that G ordered_sorted assms by (auto simp: nodeWf_def)
    then have "unat i = rank k (leaves n)"
      using that G assms(2) by (auto simp: unsigned_of_nat take_bit_nat_eq_self)
    then show ?thesis using GetByIndex_spec [OF assms, of i] r by simp
  qed
  show "GetByIndex n j = None" if "nleaves n \<le> unat j"
    using GetByIndex_spec [OF assms] that by simp
qed

theorem Get_GetByIndex_witness: "GetByIndex sampleTree 1 = Some ([3], Some [30])"
  using Get_GetByIndex [OF sampleTree_wf, of "[3]" "[30]" 1]
  by (simp add: sampleTree_leaves rank_def)

end
