(* ===== verification/Codec.thy ===== *)
theory Codec
  imports Prelude
begin

text \<open>
  The integer codecs of the standard library that the sources use for hashes, files and the
  write-ahead log: fixed-width little-endian integers (\<open>binary.LittleEndian\<close>), unsigned varints
  (\<open>binary.PutUvarint\<close>, \<open>binary.ReadUvarint\<close>) and signed zigzag varints (\<open>binary.PutVarint\<close>), with
  the length-prefixed byte string \<open>EncodeBytes\<close> of \<open>memiavl/mem_node.go\<close>. Every decoder is shown to
  invert its encoder and to leave the rest of the input untouched.
\<close>

unbundle bit_operations_syntax

section \<open>Errors of the readers\<close>

datatype readError = EOF | UnexpectedEOF | Overflow | Corrupt

section \<open>Little-endian integers\<close>

definition putU32 :: "u32 \<Rightarrow> bytes" where
  "putU32 v = [ucast v, ucast (drop_bit 8 v), ucast (drop_bit 16 v), ucast (drop_bit 24 v)]"

definition putU64 :: "u64 \<Rightarrow> bytes" where
  "putU64 v = [ucast v, ucast (drop_bit 8 v), ucast (drop_bit 16 v), ucast (drop_bit 24 v),
     ucast (drop_bit 32 v), ucast (drop_bit 40 v), ucast (drop_bit 48 v), ucast (drop_bit 56 v)]"

text \<open>The readers index the slice, so a slice that is too short is a panic: \<open>None\<close>.\<close>

fun getU32 :: "bytes \<Rightarrow> u32 option" where
  "getU32 (a # b # c # d # rest) =
     Some (ucast a OR push_bit 8 (ucast b) OR push_bit 16 (ucast c) OR push_bit 24 (ucast d))"
| "getU32 _ = None"

fun getU64 :: "bytes \<Rightarrow> u64 option" where
  "getU64 (a # b # c # d # e # f # g # h # rest) =
     Some (ucast a OR push_bit 8 (ucast b) OR push_bit 16 (ucast c) OR push_bit 24 (ucast d) OR
           push_bit 32 (ucast e) OR push_bit 40 (ucast f) OR push_bit 48 (ucast g) OR push_bit 56 (ucast h))"
| "getU64 _ = None"

lemma length_putU32 [simp]: "length (putU32 v) = 4"
  by (simp add: putU32_def)

lemma length_putU64 [simp]: "length (putU64 v) = 8"
  by (simp add: putU64_def)

text \<open>The byte at bit position \<open>k\<close>, moved back to its place, holds exactly the bits \<open>k .. k + 7\<close>.\<close>

definition byteAt :: "nat \<Rightarrow> 'a::len word \<Rightarrow> 'a word" where
  "byteAt k w = push_bit k (ucast (ucast (drop_bit k w) :: byte))"

lemma bit_byteAt: "bit (byteAt k w) n \<longleftrightarrow> k \<le> n \<and> n < k + 8 \<and> bit w n"
  by (auto simp: byteAt_def bit_simps dest: bit_imp_le_length)

lemma bytes_of_u32: "byteAt 0 v OR byteAt 8 v OR byteAt 16 v OR byteAt 24 v = (v :: u32)"
proof (rule bit_word_eqI)
  fix n assume "n < LENGTH(32)"
  then have "n < 8 \<or> (8 \<le> n \<and> n < 16) \<or> (16 \<le> n \<and> n < 24) \<or> (24 \<le> n \<and> n < 32)" by auto
  then show "bit (byteAt 0 v OR byteAt 8 v OR byteAt 16 v OR byteAt 24 v) n = bit v n"
    unfolding bit_or_iff bit_byteAt by (cases "bit v n") simp_all
qed

lemma bytes_of_u64:
  "byteAt 0 v OR byteAt 8 v OR byteAt 16 v OR byteAt 24 v OR
   byteAt 32 v OR byteAt 40 v OR byteAt 48 v OR byteAt 56 v = (v :: u64)"
proof (rule bit_word_eqI)
  fix n assume "n < LENGTH(64)"
  then have "n < 8 \<or> (8 \<le> n \<and> n < 16) \<or> (16 \<le> n \<and> n < 24) \<or> (24 \<le> n \<and> n < 32) \<or>
    (32 \<le> n \<and> n < 40) \<or> (40 \<le> n \<and> n < 48) \<or> (48 \<le> n \<and> n < 56) \<or> (56 \<le> n \<and> n < 64)"
    by auto
  then show "bit (byteAt 0 v OR byteAt 8 v OR byteAt 16 v OR byteAt 24 v OR
      byteAt 32 v OR byteAt 40 v OR byteAt 48 v OR byteAt 56 v) n = bit v n"
    unfolding bit_or_iff bit_byteAt by (cases "bit v n") simp_all
qed

lemma getU32_putU32 [simp, codec_simps]: "getU32 (putU32 v @ rest) = Some v"
  using bytes_of_u32 [of v] by (simp add: putU32_def byteAt_def)

lemma getU64_putU64 [simp, codec_simps]: "getU64 (putU64 v @ rest) = Some v"
  using bytes_of_u64 [of v] by (simp add: putU64_def byteAt_def)

lemmas getU32_putU32_nil [simp] = getU32_putU32 [of _ "[]", simplified]
lemmas getU64_putU64_nil [simp] = getU64_putU64 [of _ "[]", simplified]

section \<open>Unsigned varints\<close>

function putUvarint :: "u64 \<Rightarrow> bytes" where
  "putUvarint x = (if 0x80 \<le> x then (ucast x OR 0x80) # putUvarint (drop_bit 7 x) else [ucast x])"
  by pat_completeness auto
termination
proof (relation "measure unat")
  fix x :: u64
  assume "0x80 \<le> x"
  then have "128 \<le> unat x" by (simp add: word_le_nat_alt)
  then show "(drop_bit 7 x, x) \<in> measure unat"
    by (simp add: unat_drop_bit_eq drop_bit_eq_div unat_div)
qed simp

declare putUvarint.simps [simp del]

text \<open>\<open>binary.ReadUvarint\<close>: \<open>i\<close> counts the bytes, \<open>x\<close> accumulates, \<open>s = 7 * i\<close> is the shift.\<close>

fun readUvarintLoop :: "nat \<Rightarrow> u64 \<Rightarrow> nat \<Rightarrow> bytes \<Rightarrow> readError + u64 \<times> bytes" where
  "readUvarintLoop i x s [] = (if i = 10 then Inl Overflow else if 0 < i then Inl UnexpectedEOF else Inl EOF)"
| "readUvarintLoop i x s (b # bs) =
     (if i = 10 then Inl Overflow
      else if b < 0x80 then
        (if i = 9 \<and> 1 < b then Inl Overflow else Inr (x OR push_bit s (ucast b), bs))
      else readUvarintLoop (Suc i) (x OR push_bit s (ucast (b AND 0x7f))) (s + 7) bs)"

definition readUvarint :: "bytes \<Rightarrow> readError + u64 \<times> bytes" where
  "readUvarint bs = readUvarintLoop 0 0 0 bs"

lemma cont_byte_high: "\<not> (b OR 0x80 :: byte) < 0x80"
proof -
  have "uint (0x80 :: byte) \<le> uint (0x80 OR b)"
    unfolding unsigned_or_eq by (rule or_greater_eq) simp
  then show ?thesis by (simp add: word_less_def or.commute)
qed

lemma cont_byte_low: "ucast ((ucast (x :: u64) OR 0x80 :: byte) AND 0x7f) = (take_bit 7 x :: u64)"
proof (rule bit_word_eqI)
  fix n assume "n < LENGTH(64)"
  have m: "(0x7f :: byte) = mask 7" by (simp add: mask_eq_exp_minus_1)
  have e: "bit (0x80 :: byte) n \<longleftrightarrow> n = 7"
    using bit_exp_iff [of 7 n, where 'a = byte] by (auto simp: possible_bit_def)
  show "bit (ucast ((ucast x OR 0x80 :: byte) AND 0x7f) :: u64) n = bit (take_bit 7 x) n"
    unfolding m using \<open>n < LENGTH(64)\<close> e by (auto simp: bit_simps)
qed

lemma push_bit_split7:
  "push_bit s (take_bit 7 x) OR push_bit (s + 7) (drop_bit 7 x) = push_bit s (x :: u64)"
proof (rule bit_word_eqI)
  fix n assume n: "n < LENGTH(64)"
  show "bit (push_bit s (take_bit 7 x) OR push_bit (s + 7) (drop_bit 7 x)) n = bit (push_bit s x) n"
  proof (cases "s + 7 \<le> n")
    case True
    then have "7 + (n - (s + 7)) = n - s" by simp
    then show ?thesis using n True by (auto simp: bit_simps)
  next
    case False
    then show ?thesis using n by (auto simp: bit_simps)
  qed
qed

lemma ucast_small: "x < 0x80 \<Longrightarrow> ucast (ucast (x :: u64) :: byte) = x"
  by (simp add: word_unat_eq_iff unsigned_ucast_eq word_less_nat_alt unsigned_take_bit_eq take_bit_nat_eq_self)

lemma readUvarintLoop_put:
  "s = 7 * i \<Longrightarrow> i \<le> 9 \<Longrightarrow> unat x < 2 ^ (64 - s) \<Longrightarrow>
   readUvarintLoop i acc s (putUvarint x @ rest) = Inr (acc OR push_bit s x, rest)"
proof (induction x arbitrary: i acc s rule: putUvarint.induct)
  case (1 x)
  show ?case
  proof (cases "0x80 \<le> x")
    case True
    then have big: "2 ^ 7 \<le> unat x" by (simp add: word_le_nat_alt)
    have "i \<noteq> 9" using 1(2,4) big by auto
    then have i: "i \<le> 8" using 1(3) by simp
    have "64 - s = 7 + (64 - (s + 7))" using 1(2) i by simp
    then have "unat x < 2 ^ 7 * 2 ^ (64 - (s + 7))" using 1(4) by (metis power_add)
    then have "unat (drop_bit 7 x) < 2 ^ (64 - (s + 7))"
      by (simp add: unat_drop_bit_eq drop_bit_eq_div unat_div less_mult_imp_div_less mult.commute)
    then have "readUvarintLoop (Suc i) (acc OR push_bit s (take_bit 7 x)) (s + 7)
        (putUvarint (drop_bit 7 x) @ rest) =
      Inr ((acc OR push_bit s (take_bit 7 x)) OR push_bit (s + 7) (drop_bit 7 x), rest)"
      using 1(1) [OF True, of "s + 7" "Suc i"] 1(2) i by simp
    then show ?thesis
      using True i cont_byte_high [of "ucast x"]
      by (subst putUvarint.simps) (simp add: cont_byte_low or.assoc push_bit_split7)
  next
    case False
    then have small: "x < 0x80" by simp
    have "(ucast x :: byte) < 0x80"
      using small by (simp add: word_less_nat_alt unsigned_ucast_eq take_bit_nat_eq_self)
    moreover have "\<not> 1 < (ucast x :: byte)" if "i = 9"
      using that 1(2,4) by (simp add: word_less_nat_alt unsigned_ucast_eq take_bit_nat_eq_self)
    ultimately show ?thesis
      using False 1(3) small by (subst putUvarint.simps) (auto simp: ucast_small)
  qed
qed

lemma readUvarint_put [simp, codec_simps]: "readUvarint (putUvarint x @ rest) = Inr (x, rest)"
proof -
  have "unat x < 2 ^ 64" by (rule order.strict_trans2 [OF unsigned_less]) simp
  then show ?thesis using readUvarintLoop_put [of 0 0 x 0 rest] by (simp add: readUvarint_def)
qed

lemma putUvarint_nonempty [simp]: "putUvarint x \<noteq> []"
  by (subst putUvarint.simps) simp

section \<open>Signed varints\<close>

text \<open>\<open>binary.PutVarint\<close> of an \<open>int64\<close>, given by its 64 bits: zigzag, then an unsigned varint.\<close>

definition zigzag :: "u64 \<Rightarrow> u64" where
  "zigzag x = (if sint x < 0 then NOT (push_bit 1 x) else push_bit 1 x)"

definition putVarint :: "u64 \<Rightarrow> bytes" where
  "putVarint x = putUvarint (zigzag x)"

section \<open>EncodeBytes\<close>

definition EncodeBytes :: "bytes \<Rightarrow> bytes" where
  "EncodeBytes bz = putUvarint (of_nat (length bz)) @ bz"

definition readFull :: "nat \<Rightarrow> bytes \<Rightarrow> readError + bytes \<times> bytes" where
  "readFull n bs =
     (if n \<le> length bs then Inr (take n bs, drop n bs)
      else if bs = [] then Inl EOF else Inl UnexpectedEOF)"

lemma readFull_append [simp, codec_simps]: "readFull (length xs) (xs @ rest) = Inr (xs, rest)"
  by (simp add: readFull_def)

end
