(* ===== verification/Sha256.thy ===== *)
theory Sha256
  imports Prelude
begin

text \<open>
  The hash function \<open>crypto/sha256\<close> of the standard library (FIPS 180-4), which every node hash
  is made of. The development needs its digest length; the definition is executable and agrees
  with the standard's test vector.
\<close>

unbundle bit_operations_syntax

type_synonym digestState = "u32 \<times> u32 \<times> u32 \<times> u32 \<times> u32 \<times> u32 \<times> u32 \<times> u32"

definition sha256K :: "u32 list" where
  "sha256K = [
     1116352408, 1899447441, 3049323471, 3921009573, 961987163, 1508970993, 2453635748, 2870763221,
     3624381080, 310598401, 607225278, 1426881987, 1925078388, 2162078206, 2614888103, 3248222580,
     3835390401, 4022224774, 264347078, 604807628, 770255983, 1249150122, 1555081692, 1996064986,
     2554220882, 2821834349, 2952996808, 3210313671, 3336571891, 3584528711, 113926993, 338241895,
     666307205, 773529912, 1294757372, 1396182291, 1695183700, 1986661051, 2177026350, 2456956037,
     2730485921, 2820302411, 3259730800, 3345764771, 3516065817, 3600352804, 4094571909, 275423344,
     430227734, 506948616, 659060556, 883997877, 958139571, 1322822218, 1537002063, 1747873779,
     1955562222, 2024104815, 2227730452, 2361852424, 2428436474, 2756734187, 3204031479, 3329325298]"

definition sha256Init :: digestState where
  "sha256Init = (1779033703, 3144134277, 1013904242, 2773480762, 1359893119, 2600822924, 528734635, 1541459225)"

definition be32 :: "u32 \<Rightarrow> bytes" where
  "be32 v = [ucast (drop_bit 24 v), ucast (drop_bit 16 v), ucast (drop_bit 8 v), ucast v]"

definition be64 :: "u64 \<Rightarrow> bytes" where
  "be64 v = be32 (ucast (drop_bit 32 v)) @ be32 (ucast v)"

text \<open>Padding: a one bit, zeros up to 56 modulo 64, the length in bits as a big-endian 64-bit integer.\<close>

definition sha256Pad :: "bytes \<Rightarrow> bytes" where
  "sha256Pad msg =
     msg @ [0x80] @ replicate (nat ((55 - int (length msg)) mod 64)) 0 @ be64 (of_nat (8 * length msg))"

fun wordsOf :: "bytes \<Rightarrow> u32 list" where
  "wordsOf (a # b # c # d # rest) =
     (push_bit 24 (ucast a) OR push_bit 16 (ucast b) OR push_bit 8 (ucast c) OR ucast d) # wordsOf rest"
| "wordsOf _ = []"

text \<open>The message schedule, kept with the latest word first.\<close>

fun sha256Extend :: "nat \<Rightarrow> u32 list \<Rightarrow> u32 list" where
  "sha256Extend 0 ws = ws"
| "sha256Extend (Suc n) ws =
     (let w15 = ws ! 14; w2 = ws ! 1;
          s0 = word_rotr 7 w15 XOR word_rotr 18 w15 XOR drop_bit 3 w15;
          s1 = word_rotr 17 w2 XOR word_rotr 19 w2 XOR drop_bit 10 w2
      in sha256Extend n ((ws ! 15 + s0 + ws ! 6 + s1) # ws))"

fun sha256Round :: "u32 \<times> u32 \<Rightarrow> digestState \<Rightarrow> digestState" where
  "sha256Round (k, w) (a, b, c, d, e, f, g, h) =
     (let S1 = word_rotr 6 e XOR word_rotr 11 e XOR word_rotr 25 e;
          ch = (e AND f) XOR (NOT e AND g);
          t1 = h + S1 + ch + k + w;
          S0 = word_rotr 2 a XOR word_rotr 13 a XOR word_rotr 22 a;
          maj = (a AND b) XOR (a AND c) XOR (b AND c)
      in (t1 + (S0 + maj), a, b, c, d + t1, e, f, g))"

fun addState :: "digestState \<Rightarrow> digestState \<Rightarrow> digestState" where
  "addState (a, b, c, d, e, f, g, h) (a', b', c', d', e', f', g', h') =
     (a + a', b + b', c + c', d + d', e + e', f + f', g + g', h + h')"

definition sha256Block :: "bytes \<Rightarrow> digestState \<Rightarrow> digestState" where
  "sha256Block blk st =
     addState st (fold sha256Round (zip sha256K (rev (sha256Extend 48 (rev (wordsOf blk))))) st)"

fun sha256Blocks :: "nat \<Rightarrow> bytes \<Rightarrow> digestState \<Rightarrow> digestState" where
  "sha256Blocks 0 bs st = st"
| "sha256Blocks (Suc n) bs st = sha256Blocks n (drop 64 bs) (sha256Block (take 64 bs) st)"

fun digestBytes :: "digestState \<Rightarrow> bytes" where
  "digestBytes (a, b, c, d, e, f, g, h) =
     be32 a @ be32 b @ be32 c @ be32 d @ be32 e @ be32 f @ be32 g @ be32 h"

definition sha256 :: "bytes \<Rightarrow> bytes" where
  "sha256 msg = (let p = sha256Pad msg in digestBytes (sha256Blocks (length p div 64) p sha256Init))"

lemma length_digestBytes [simp]: "length (digestBytes st) = 32"
  by (induction st rule: digestBytes.induct) (simp add: be32_def)

lemma length_sha256 [simp]: "length (sha256 msg) = 32"
  by (simp add: sha256_def Let_def)

lemma sha256_nonempty [simp]: "sha256 msg \<noteq> []"
  using length_sha256 [of msg] by (metis list.size(3) zero_neq_numeral)

text \<open>The test vector of the standard for the message \<open>abc\<close>.\<close>

lemma sha256_abc:
  "sha256 [0x61, 0x62, 0x63] =
     [0xba, 0x78, 0x16, 0xbf, 0x8f, 0x01, 0xcf, 0xea, 0x41, 0x41, 0x40, 0xde, 0x5d, 0xae, 0x22, 0x23,
      0xb0, 0x03, 0x61, 0xa3, 0x96, 0x17, 0x7a, 0x9c, 0xb4, 0x10, 0xff, 0x61, 0xf2, 0x00, 0x15, 0xad]"
  by code_simp

end
