(* ===== verification/NodeHash.thy ===== *)
theory NodeHash
  imports NodeMap Codec Sha256
begin

text \<open>
  Node hashes: \<open>writeHashBytes\<close>, \<open>HashNode\<close> and \<open>VerifyHash\<close> of \<open>memiavl/node.go\<close> and the memoizing
  \<open>Hash\<close> of \<open>memiavl/mem_node.go\<close>. \<open>Hash\<close> stores what it computes in the nodes, so it returns the
  hash with the updated node. The reference is \<open>merkle\<close>, which ignores every stored hash;
  \<open>hashOK\<close> says that no stored hash is stale, and every tree operation keeps it.
\<close>

section \<open>Definitions\<close>

definition hashHeader :: "node \<Rightarrow> bytes" where
  "hashHeader n = putVarint (ucast (Height n)) @ putVarint (Size n) @ putVarint (Version n)"

definition valueBytes :: "node \<Rightarrow> bytes" where
  "valueBytes n = (case Value n of None \<Rightarrow> [] | Some v \<Rightarrow> v)"

definition leafHashBytes :: "node \<Rightarrow> bytes" where
  "leafHashBytes n = hashHeader n @ EncodeBytes (Key n) @ EncodeBytes (sha256 (valueBytes n))"

definition branchHashBytes :: "node \<Rightarrow> bytes \<Rightarrow> bytes \<Rightarrow> bytes" where
  "branchHashBytes n lh rh = hashHeader n @ EncodeBytes lh @ EncodeBytes rh"

fun setHash :: "node \<Rightarrow> slice \<Rightarrow> node" where
  "setHash (Leaf m) h = Leaf (m\<lparr>nhash := h\<rparr>)"
| "setHash (Branch hb s m l r) h = Branch hb s (m\<lparr>nhash := h\<rparr>) l r"

function writeHashBytes :: "node \<Rightarrow> bytes \<times> node" and Hash :: "node \<Rightarrow> bytes \<times> node" where
  "writeHashBytes (Leaf m) = (leafHashBytes (Leaf m), Leaf m)"
| "writeHashBytes (Branch h s m l r) =
     (if IsLeaf (Branch h s m l r) then (leafHashBytes (Branch h s m l r), Branch h s m l r)
      else
        (let (lh, l') = Hash l; (rh, r') = Hash r
         in (branchHashBytes (Branch h s m l r) lh rh, Branch h s m l' r')))"
| "Hash n =
     (case nhash (meta n) of
        Some x \<Rightarrow> (x, n)
      | None \<Rightarrow> (let (bz, n') = writeHashBytes n; x = sha256 bz in (x, setHash n' (Some x))))"
  by pat_completeness auto
termination
  by (relation "measure (case_sum (\<lambda>n. 2 * size n) (\<lambda>n. 2 * size n + 1))") auto

declare Hash.simps [simp del]

definition HashNode :: "node option \<Rightarrow> slice \<times> node option" where
  "HashNode nd =
     (case nd of None \<Rightarrow> (None, None)
      | Some n \<Rightarrow> (let (bz, n') = writeHashBytes n in (Some (sha256 bz), Some n')))"

text \<open>\<open>VerifyHash\<close> recomputes the hash of the node itself and compares it with the stored one.\<close>

definition VerifyHash :: "node \<Rightarrow> bool" where
  "VerifyHash n =
     (case HashNode (Some n) of (h, n') \<Rightarrow> h = Some (fst (Hash (the n'))))"

section \<open>Reference hash and the absence of stale hashes\<close>

fun merkle :: "node \<Rightarrow> bytes" where
  "merkle (Leaf m) = sha256 (leafHashBytes (Leaf m))"
| "merkle (Branch h s m l r) = sha256 (branchHashBytes (Branch h s m l r) (merkle l) (merkle r))"

fun hashOK :: "node \<Rightarrow> bool" where
  "hashOK (Leaf m) = (nhash m = None \<or> nhash m = Some (merkle (Leaf m)))"
| "hashOK (Branch h s m l r) =
     (hashOK l \<and> hashOK r \<and> (nhash m = None \<or> nhash m = Some (merkle (Branch h s m l r))))"

text \<open>Two nodes that differ only in stored hashes.\<close>

fun sameNode :: "node \<Rightarrow> node \<Rightarrow> bool" where
  "sameNode (Leaf m) (Leaf m') = (m\<lparr>nhash := None\<rparr> = m'\<lparr>nhash := None\<rparr>)"
| "sameNode (Branch h s m l r) (Branch h' s' m' l' r') =
     (h = h' \<and> s = s' \<and> m\<lparr>nhash := None\<rparr> = m'\<lparr>nhash := None\<rparr> \<and> sameNode l l' \<and> sameNode r r')"
| "sameNode _ _ = False"

lemma sameNode_refl [simp]: "sameNode n n"
  by (induction n) auto

lemma sameNode_trans: "sameNode a b \<Longrightarrow> sameNode b c \<Longrightarrow> sameNode a c"
proof (induction a b arbitrary: c rule: sameNode.induct)
  case (1 m m')
  then show ?case by (cases c) auto
next
  case (2 h s m l r h' s' m' l' r')
  then show ?case by (cases c) auto
qed auto

lemmas hash_defs = hashHeader_def valueBytes_def Version_def Key_def Value_def

lemma hashBytes_nhash [simp]:
  "leafHashBytes (Leaf (m\<lparr>nhash := x\<rparr>)) = leafHashBytes (Leaf m)"
  "branchHashBytes (Branch h s (m\<lparr>nhash := x\<rparr>) l r) = branchHashBytes (Branch h s m l r)"
  by (auto simp: leafHashBytes_def branchHashBytes_def hash_defs fun_eq_iff)

lemma sameNode_facts:
  assumes "sameNode n n'"
  shows "leaves n' = leaves n" "ht n' = ht n" "balanced n' = balanced n" "sized n' = sized n"
    "ordered n' = ordered n" "merkle n' = merkle n" "Height n' = Height n"
proof -
  have m: "nkey a = nkey b \<and> nvalue a = nvalue b \<and> nversion a = nversion b \<and> persisted a = persisted b"
    if "a\<lparr>nhash := None\<rparr> = b\<lparr>nhash := None\<rparr>" for a b :: nodeMeta
    using that by (cases a; cases b) simp
  have "leaves n' = leaves n \<and> ht n' = ht n \<and> (balanced n' = balanced n) \<and> (sized n' = sized n) \<and>
    (ordered n' = ordered n) \<and> merkle n' = merkle n \<and> Height n' = Height n"
    using assms
  proof (induction n n' rule: sameNode.induct)
    case (1 a b)
    then show ?case
      using m [of a b] by (simp add: leafHashBytes_def hash_defs)
  next
    case (2 h s a l r h' s' b l' r')
    moreover have "keys l' = keys l" "keys r' = keys r" using 2 by (simp_all add: keys_def)
    ultimately show ?case
      using m [of a b] by (simp add: branchHashBytes_def hash_defs)
  qed auto
  then show "leaves n' = leaves n" "ht n' = ht n" "balanced n' = balanced n" "sized n' = sized n"
    "ordered n' = ordered n" "merkle n' = merkle n" "Height n' = Height n" by auto
qed

lemma hashOK_setHash: "sameNode n n' \<Longrightarrow> hashOK n' \<Longrightarrow> hashOK (setHash n' (Some (merkle n)))"
  using sameNode_facts(6) [of n n'] by (cases n') auto

lemma sameNode_setHash: "sameNode n n' \<Longrightarrow> sameNode n (setHash n' x)"
  by (cases n; cases n') auto

lemma nhash_setHash [simp]: "nhash (meta (setHash n x)) = x"
  by (cases n) auto

lemma Hash_correct:
  "(hashOK n \<longrightarrow> balanced n \<longrightarrow>
     sha256 (fst (writeHashBytes n)) = merkle n \<and> sameNode n (snd (writeHashBytes n)) \<and>
     hashOK (snd (writeHashBytes n)))"
  "(hashOK k \<longrightarrow> balanced k \<longrightarrow>
     fst (Hash k) = merkle k \<and> sameNode k (snd (Hash k)) \<and> hashOK (snd (Hash k)) \<and>
     nhash (meta (snd (Hash k))) = Some (merkle k))"
proof (induction n and k rule: writeHashBytes_Hash.induct)
  case (1 m)
  then show ?case by simp
next
  case (2 h s m l r)
  show ?case
  proof (intro impI)
    assume a: "hashOK (Branch h s m l r)" "balanced (Branch h s m l r)"
    then have nl: "\<not> IsLeaf (Branch h s m l r)" by auto
    obtain lh l' where L: "Hash l = (lh, l')" by fastforce
    obtain rh r' where R: "Hash r = (rh, r')" by fastforce
    have "lh = merkle l \<and> sameNode l l' \<and> hashOK l'" using 2(1) [OF nl] a L by auto
    moreover have "rh = merkle r \<and> sameNode r r' \<and> hashOK r'" using 2(2) [OF nl] a L R by auto
    moreover have "merkle (Branch h s m l' r') = merkle (Branch h s m l r)"
      using calculation sameNode_facts(6) [of l l'] sameNode_facts(6) [of r r']
      by (simp add: branchHashBytes_def hash_defs)
    ultimately show "sha256 (fst (writeHashBytes (Branch h s m l r))) = merkle (Branch h s m l r) \<and>
      sameNode (Branch h s m l r) (snd (writeHashBytes (Branch h s m l r))) \<and>
      hashOK (snd (writeHashBytes (Branch h s m l r)))"
      using a nl L R by (simp del: IsLeaf.simps merkle.simps) simp
  qed
next
  case (3 n)
  show ?case
  proof (cases "nhash (meta n)")
    case None
    obtain bz n' where W: "writeHashBytes n = (bz, n')" by fastforce
    then show ?thesis
      using 3 None W hashOK_setHash [of n n'] sameNode_setHash [of n n'] by (auto simp: Hash.simps Let_def)
  next
    case (Some x)
    then show ?thesis by (cases n) (auto simp: Hash.simps)
  qed
qed

lemmas Hash_merkle = Hash_correct(2) [THEN mp, THEN mp]
lemmas writeHashBytes_merkle = Hash_correct(1) [THEN mp, THEN mp]

section \<open>Tree operations leave no stale hash\<close>

lemma hashOK_Mutate: "hashOK n \<Longrightarrow> hashOK (Mutate n v c)"
  by (cases n) (auto simp: mutateMeta_def)

text \<open>The nodes below are fine and the node itself stores no hash.\<close>

fun hashFree :: "node \<Rightarrow> bool" where
  "hashFree (Leaf m) = (nhash m = None)"
| "hashFree (Branch h s m l r) = (hashOK l \<and> hashOK r \<and> nhash m = None)"

lemma hashFree_OK: "hashFree n \<Longrightarrow> hashOK n"
  by (cases n) auto

lemma hashFree_Mutate: "hashOK n \<Longrightarrow> hashFree (Mutate n v c)"
  by (cases n) (auto simp: mutateMeta_def)

lemma hashFree_setters:
  "hashFree n \<Longrightarrow> hashFree (updateHeightSize n)"
  "hashFree n \<Longrightarrow> hashOK c \<Longrightarrow> hashFree (setLeft n c)"
  "hashFree n \<Longrightarrow> hashOK c \<Longrightarrow> hashFree (setRight n c)"
  "hashFree n \<Longrightarrow> hashFree (setKey n k)"
  "hashFree n \<Longrightarrow> hashFree (setValue n x)"
  by (cases n; auto)+

lemma hashFree_rotateRight: "hashFree n \<Longrightarrow> hashFree (rotateRight n v c)"
  by (induction n v c rule: rotateRight.induct) (auto simp: Let_def mutateMeta_def)

lemma hashFree_rotateLeft: "hashFree n \<Longrightarrow> hashFree (rotateLeft n v c)"
  by (induction n v c rule: rotateLeft.induct) (auto simp: Let_def mutateMeta_def)

lemmas hashFree_rotate = hashFree_rotateRight hashFree_rotateLeft

lemma hashFree_reBalance: "hashFree n \<Longrightarrow> hashFree (reBalance n v c)"
proof (cases n)
  case (Branch h s m l r)
  assume a: "hashFree n"
  then have "hashOK l" "hashOK r" using Branch by auto
  then have "hashOK (rotateLeft (Mutate l v c) v c)" "hashOK (rotateRight (Mutate r v c) v c)"
    by (auto intro!: hashFree_OK hashFree_rotate hashFree_Mutate)
  then show ?thesis
    using a unfolding Branch reBalance.simps Let_def
    by (auto intro!: hashFree_rotate hashFree_setters simp del: rotateLeft.simps rotateRight.simps)
qed simp

lemma setNode_hashFree: "hashOK n \<Longrightarrow> hashFree (fst (setNode n k x v c))"
proof (induction n)
  case (Leaf m)
  then show ?case
    by (auto simp: setAtLeaf_def newBranch_def newLeafNode_def mutateMeta_def)
next
  case (Branch h s m l r)
  obtain l' lu where L: "setNode l k x v c = (l', lu)" by fastforce
  obtain r' ru where R: "setNode r k x v c = (r', ru)" by fastforce
  have kids: "hashOK l" "hashOK r" "hashOK l'" "hashOK r'"
    using Branch L R by (auto intro: hashFree_OK)
  let ?m = "mutateMeta v m"
  have f: "hashFree (Branch h s ?m l' r)" "hashFree (Branch h s ?m l r')" using kids by (auto simp: mutateMeta_def)
  have g: "hashFree (reBalance (updateHeightSize (Branch h s ?m l' r)) v c)"
    "hashFree (reBalance (updateHeightSize (Branch h s ?m l r')) v c)"
    using f by (auto intro!: hashFree_reBalance hashFree_setters simp del: updateHeightSize.simps)
  have a: "hashFree (fst (setAtLeaf (Branch h s m l r) k x v c))"
    using Branch.prems by (auto simp: setAtLeaf_def newBranch_def newLeafNode_def mutateMeta_def)
  show ?case
    using L R f g a by (auto simp: Let_def simp del: updateHeightSize.simps hashFree.simps)
qed

lemma removeNode_hashOK:
  "hashOK n \<Longrightarrow> removeNode n k v c = (x, Some n', nk) \<Longrightarrow> hashOK n'"
proof (induction n arbitrary: x n' nk)
  case (Leaf m)
  then show ?case by (auto simp: removeAtLeaf_def split: if_splits)
next
  case (Branch h s m l r)
  have kids: "hashOK l" "hashOK r" using Branch.prems(1) by auto
  from Branch.prems(2) show ?case
  proof (cases rule: removeNode_Branch_cases)
    case leaf
    then show ?thesis using Branch.prems(1) by (simp add: removeAtLeaf_def split: if_splits)
  next
    case (left x y l')
    then have "hashFree (Branch h s (mutateMeta v m) l' r)"
      using Branch.IH(1) kids by (auto simp: mutateMeta_def)
    then show ?thesis using left(2) by (simp only: option.inject hashFree_OK hashFree_reBalance hashFree_setters)
  next
    case (right x y r' key)
    then have "hashFree (Branch h s ((mutateMeta v m)\<lparr>nkey := key\<rparr>) l r')"
      using Branch.IH(2) kids by (auto simp: mutateMeta_def)
    then show ?thesis using right(2) by (simp only: option.inject hashFree_OK hashFree_reBalance hashFree_setters)
  qed (use kids Branch.prems(1) in auto)
qed

fun rootHashOK :: "node option \<Rightarrow> bool" where
  "rootHashOK None = True"
| "rootHashOK (Some n) = hashOK n"

lemma setRecursive_hashOK: "rootHashOK n \<Longrightarrow> hashOK (fst (setRecursive n k x v c))"
  by (cases n) (auto simp: setRecursive_def newLeafNode_def hashFree_OK setNode_hashFree)

lemma removeRecursive_hashOK: "rootHashOK n \<Longrightarrow> rootHashOK (fst (snd (removeRecursive n k v c)))"
proof (cases n)
  case (Some t)
  assume "rootHashOK n"
  obtain val t' nk where r: "removeNode t k v c = (val, t', nk)" by (metis prod_cases3)
  show ?thesis
    using removeNode_hashOK [of t k v c] r Some \<open>rootHashOK n\<close> by (cases t') (auto simp: removeRecursive_def)
qed (simp add: removeRecursive_def)

section \<open>The root hash commits to the tree\<close>

text \<open>The byte strings that are hashed while computing \<open>merkle n\<close>: those of nodes and those of values.\<close>

fun nodeInputs :: "node \<Rightarrow> bytes set" where
  "nodeInputs (Leaf m) = {leafHashBytes (Leaf m)}"
| "nodeInputs (Branch h s m l r) =
     insert (branchHashBytes (Branch h s m l r) (merkle l) (merkle r)) (nodeInputs l \<union> nodeInputs r)"

fun valueInputs :: "node \<Rightarrow> bytes set" where
  "valueInputs (Leaf m) = {valueBytes (Leaf m)}"
| "valueInputs (Branch h s m l r) = valueInputs l \<union> valueInputs r"

lemma putUvarint_inj:
  assumes "putUvarint x @ a = putUvarint y @ b"
  shows "x = y \<and> a = b"
proof -
  have "Inr (x, a) = readUvarint (putUvarint x @ a)" by (rule readUvarint_put [symmetric])
  also have "\<dots> = Inr (y, b)" unfolding assms by (rule readUvarint_put)
  finally show ?thesis by simp
qed

lemma bit_zigzag:
  fixes z :: u64
  shows "bit (zigzag z) 0 \<longleftrightarrow> bit z 63"
    and "n < 63 \<Longrightarrow> bit (zigzag z) (Suc n) \<longleftrightarrow> bit z 63 \<noteq> bit z n"
proof -
  have last: "bit z 63 \<longleftrightarrow> sint z < 0" using bit_last_iff [of z] by simp
  have p0: "\<not> bit (push_bit 1 z) 0" by (simp only: bit_push_bit_iff) simp
  have pS: "bit (push_bit 1 z) (Suc n) \<longleftrightarrow> bit z n" if "n < 63"
    using that by (simp only: bit_push_bit_iff) auto
  define q where "q = push_bit 1 z"
  have z: "zigzag z = (if bit z 63 then NOT q else q)" by (simp only: zigzag_def last q_def)
  show "bit (zigzag z) 0 \<longleftrightarrow> bit z 63"
    using p0 unfolding z q_def [symmetric] by (simp add: bit_not_iff)
  show "bit (zigzag z) (Suc n) \<longleftrightarrow> bit z 63 \<noteq> bit z n" if "n < 63"
    using pS [OF that] that unfolding z q_def [symmetric] by (simp add: bit_not_iff)
qed

lemma zigzag_inj:
  assumes "zigzag x = zigzag y"
  shows "x = y"
proof (rule bit_word_eqI)
  fix n assume "n < LENGTH(64)"
  then have "n = 63 \<or> n < 63" by auto
  moreover have h: "bit x 63 = bit y 63" unfolding bit_zigzag(1) [symmetric] assms ..
  moreover have "bit x n = bit y n" if "n < 63"
    using bit_zigzag(2) [OF that, of x] bit_zigzag(2) [OF that, of y] h unfolding assms by blast
  ultimately show "bit x n = bit y n" by blast
qed

lemma putVarint_inj: "putVarint x @ a = putVarint y @ b \<Longrightarrow> x = y \<and> a = b"
  unfolding putVarint_def using putUvarint_inj zigzag_inj by blast

lemma unat_of_nat_64: "n < 2 ^ 64 \<Longrightarrow> unat (of_nat n :: u64) = n"
  by (simp add: unsigned_of_nat take_bit_nat_eq_self)

lemma EncodeBytes_inj:
  assumes "EncodeBytes xs @ a = EncodeBytes ys @ b" "length xs < 2 ^ 64" "length ys < 2 ^ 64"
  shows "xs = ys \<and> a = b"
proof -
  have e: "(of_nat (length xs) :: u64) = of_nat (length ys)" "xs @ a = ys @ b"
    using assms(1) putUvarint_inj by (auto simp: EncodeBytes_def)
  then have "length xs = length ys" using unat_of_nat_64 assms(2,3) by metis
  then show ?thesis using e by simp
qed

text \<open>Everything of a tree but the stored hashes and where its nodes live.\<close>

fun strip :: "node \<Rightarrow> node" where
  "strip (Leaf m) = Leaf (m\<lparr>nhash := None, persisted := False\<rparr>)"
| "strip (Branch h s m l r) = Branch h s (m\<lparr>nhash := None, persisted := False\<rparr>) (strip l) (strip r)"

lemma leaves_strip [simp]: "leaves (strip n) = leaves n"
  by (induction n) auto

lemma length_merkle [simp]: "length (merkle n) = 32"
  by (cases n) auto

lemma ucast_u8_u64_inj: "(ucast (a :: u8) :: u64) = ucast b \<Longrightarrow> a = b"
proof -
  assume "(ucast a :: u64) = ucast b"
  then have "(ucast (ucast a :: u64) :: u8) = ucast (ucast b :: u64)" by (rule arg_cong)
  moreover have "(ucast (ucast c :: u64) :: u8) = c" for c :: u8
    by (rule bit_word_eqI) (simp add: bit_simps)
  ultimately show "a = b" by metis
qed

lemma hashHeader_inj:
  assumes "hashHeader n @ a = hashHeader n' @ b"
  shows "Height n = Height n' \<and> Size n = Size n' \<and> Version n = Version n' \<and> a = b"
proof -
  have "putVarint (ucast (Height n)) @ (putVarint (Size n) @ putVarint (Version n) @ a) =
    putVarint (ucast (Height n')) @ (putVarint (Size n') @ putVarint (Version n') @ b)"
    using assms by (simp add: hashHeader_def)
  from putVarint_inj [OF this]
  have h: "Height n = Height n'" and e: "putVarint (Size n) @ (putVarint (Version n) @ a) =
    putVarint (Size n') @ (putVarint (Version n') @ b)"
    using ucast_u8_u64_inj by auto
  from putVarint_inj [OF e] putVarint_inj [of "Version n" a "Version n'" b] h show ?thesis by simp
qed

definition noCollision :: "node \<Rightarrow> node \<Rightarrow> bool" where
  "noCollision n n' \<longleftrightarrow>
     (\<forall>x \<in> nodeInputs n. \<forall>y \<in> nodeInputs n'. sha256 x = sha256 y \<longrightarrow> x = y) \<and>
     (\<forall>x \<in> valueInputs n. \<forall>y \<in> valueInputs n'. sha256 x = sha256 y \<longrightarrow> x = y)"

lemma merkle_Leaf_inj:
  assumes "merkle (Leaf m) = merkle (Leaf m')" "noCollision (Leaf m) (Leaf m')"
    and "length (nkey m) < 2 ^ 64" "length (nkey m') < 2 ^ 64" "nvalue m \<noteq> None" "nvalue m' \<noteq> None"
  shows "strip (Leaf m) = strip (Leaf m')"
proof -
  have "leafHashBytes (Leaf m) = leafHashBytes (Leaf m')"
    using assms(1,2) by (simp add: noCollision_def)
  then have h: "Version (Leaf m) = Version (Leaf m')"
    "EncodeBytes (nkey m) @ EncodeBytes (sha256 (valueBytes (Leaf m))) =
     EncodeBytes (nkey m') @ EncodeBytes (sha256 (valueBytes (Leaf m')))"
    unfolding leafHashBytes_def by (auto dest!: hashHeader_inj simp: Key_def)
  have e: "nkey m = nkey m'"
    "EncodeBytes (sha256 (valueBytes (Leaf m))) = EncodeBytes (sha256 (valueBytes (Leaf m')))"
    using EncodeBytes_inj [OF h(2) assms(3,4)] by auto
  then have "sha256 (valueBytes (Leaf m)) = sha256 (valueBytes (Leaf m'))"
    using EncodeBytes_inj [of "sha256 (valueBytes (Leaf m))" "[]" "sha256 (valueBytes (Leaf m'))" "[]"] by simp
  then have "valueBytes (Leaf m) = valueBytes (Leaf m')"
    using assms(2) by (simp add: noCollision_def)
  then have "nvalue m = nvalue m'" using assms(5,6) by (auto simp: valueBytes_def Value_def)
  then show ?thesis using h e by (cases m; cases m') (simp add: Version_def)
qed

lemma merkle_commits:
  "nodeWf n \<Longrightarrow> nodeWf n' \<Longrightarrow> noCollision n n' \<Longrightarrow> \<forall>k \<in> keys n \<union> keys n'. length k < 2 ^ 64 \<Longrightarrow>
   merkle n = merkle n' \<Longrightarrow> strip n = strip n'"
proof (induction n arbitrary: n')
  case (Leaf m)
  show ?case
  proof (cases n')
    case Leaf': (Leaf m')
    then show ?thesis using Leaf by (intro merkle_Leaf_inj [of m m', folded Leaf']) (auto simp: nodeWf_def)
  next
    case (Branch h s m' l r)
    then have "leafHashBytes (Leaf m) = branchHashBytes n' (merkle l) (merkle r)"
      using Leaf by (simp add: noCollision_def)
    then have "h = 0" unfolding leafHashBytes_def branchHashBytes_def using Branch by (auto dest!: hashHeader_inj)
    then show ?thesis using Leaf.prems(2) Branch by (simp add: nodeWf_def)
  qed
next
  case (Branch h s m l r)
  show ?case
  proof (cases n')
    case (Leaf m')
    then have "branchHashBytes (Branch h s m l r) (merkle l) (merkle r) = leafHashBytes n'"
      using Branch.prems by (simp add: noCollision_def)
    then have "h = 0" unfolding leafHashBytes_def branchHashBytes_def using Leaf by (auto dest!: hashHeader_inj)
    then show ?thesis using Branch.prems(1) by (simp add: nodeWf_def)
  next
    case Branch': (Branch h' s' m' l' r')
    have nc: "noCollision l l'" "noCollision r r'"
      using Branch.prems(3) Branch' unfolding noCollision_def by auto
    have "branchHashBytes (Branch h s m l r) (merkle l) (merkle r) = branchHashBytes n' (merkle l') (merkle r')"
      using Branch.prems Branch' by (simp add: noCollision_def)
    then have hd: "h = h' \<and> s = s' \<and> nversion m = nversion m'"
      "EncodeBytes (merkle l) @ EncodeBytes (merkle r) = EncodeBytes (merkle l') @ EncodeBytes (merkle r')"
      unfolding branchHashBytes_def using Branch' by (auto dest!: hashHeader_inj simp: Version_def)
    have ml: "merkle l = merkle l'" "EncodeBytes (merkle r) = EncodeBytes (merkle r')"
      using EncodeBytes_inj [OF hd(2)] by auto
    then have mr: "merkle r = merkle r'"
      using EncodeBytes_inj [of "merkle r" "[]" "merkle r'" "[]"] by simp
    have w: "nodeWf l" "nodeWf r" "nodeWf l'" "nodeWf r'"
      using Branch.prems(1,2) Branch' by (auto simp: nodeWf_def)
    have st: "strip l = strip l'" "strip r = strip r'"
      using Branch.IH(1) [OF w(1,3) nc(1) _ ml(1)] Branch.IH(2) [OF w(2,4) nc(2) _ mr]
        Branch.prems(4) Branch' by auto
    then have "leaves r = leaves r'" by (metis leaves_strip)
    moreover have o: "ordered (Branch h s m l r)" "ordered (Branch h' s' m' l' r')"
      using Branch.prems(1,2) Branch' by (simp_all only: nodeWf_def)
    ultimately have "nkey m = nkey m'" "nvalue m = nvalue m'"
      using ordered_min [OF o(1)] ordered_min [OF o(2)] by simp_all
    then show ?thesis using hd(1) st Branch' by (cases m; cases m') simp
  qed
qed

section \<open>Properties\<close>

text \<open>C5: hash caching is sound. When no stored hash is stale, \<open>Hash\<close> returns the hash computed from
  scratch over the whole tree, fills the stored hashes without touching anything else and
  leaves none of them stale, and \<open>VerifyHash\<close> accepts the node; \<open>setRecursive\<close> and \<open>removeRecursive\<close>
  keep that condition, so a root hash taken after any sequence of changes is never stale.\<close>

theorem hash_caching_sound:
  assumes "hashOK n" "balanced n"
  shows "fst (Hash n) = merkle n \<and> sameNode n (snd (Hash n)) \<and> hashOK (snd (Hash n)) \<and>
    fst (Hash (snd (Hash n))) = merkle n \<and> VerifyHash n \<and>
    hashOK (fst (setRecursive (Some n) k v ver cow)) \<and>
    rootHashOK (fst (snd (removeRecursive (Some n) k ver cow)))"
proof -
  note H = Hash_merkle [OF assms] and W = writeHashBytes_merkle [OF assms]
  have b: "balanced (snd (Hash n))" "balanced (snd (writeHashBytes n))"
    using H W sameNode_facts(3) assms(2) by blast+
  have "fst (Hash (snd (Hash n))) = merkle n"
    using Hash_merkle [of "snd (Hash n)"] H b sameNode_facts(6) by metis
  moreover have "VerifyHash n"
    using Hash_merkle [of "snd (writeHashBytes n)"] W b sameNode_facts(6) [of n "snd (writeHashBytes n)"]
    by (cases "writeHashBytes n") (simp add: VerifyHash_def HashNode_def)
  ultimately show ?thesis
    using H setRecursive_hashOK [of "Some n" k v ver cow] removeRecursive_hashOK [of "Some n" k ver cow] assms
    by simp
qed

lemma sampleTree_hashOK: "hashOK sampleTree"
  unfolding sampleTree_def by (simp add: setRecursive_hashOK newLeafNode_def)

theorem hash_caching_sound_witness:
  "fst (Hash sampleTree) = merkle sampleTree \<and> VerifyHash sampleTree"
  using hash_caching_sound [OF sampleTree_hashOK, of "[3]" "Some [31]" 2 1] sampleTree_wf by (simp add: nodeWf_def)

text \<open>C6: the root hash commits to the tree. If two well-formed trees have the same root hash, and
  no two different byte strings among those hashed for the two trees (nodes with nodes, values
  with values) collide under SHA-256, then
  the trees agree in everything except stored hashes and storage: shape, heights, sizes, versions, keys
  and values.\<close>

theorem root_hash_commits:
  assumes "nodeWf n" "nodeWf n'" "noCollision n n'" "\<forall>k \<in> keys n \<union> keys n'. length k < 2 ^ 64"
    and "merkle n = merkle n'"
  shows "strip n = strip n' \<and> leaves n = leaves n'"
  using merkle_commits [OF assms] leaves_strip by metis

theorem root_hash_commits_witness:
  "strip (newLeafNode [1] (Some [2]) 3) = strip (snd (Hash (newLeafNode [1] (Some [2]) 3)))"
proof -
  let ?n = "newLeafNode [1] (Some [2]) 3"
  have h: "hashOK ?n" "balanced ?n" "nodeWf ?n" by (auto simp: newLeafNode_def nodeWf_def)
  note H = Hash_merkle [OF h(1,2)]
  have s: "merkle (snd (Hash ?n)) = merkle ?n" "leaves (snd (Hash ?n)) = leaves ?n" "nodeWf (snd (Hash ?n))"
    using H sameNode_facts [of ?n "snd (Hash ?n)"] h(3) by (auto simp: nodeWf_def)
  have "snd (Hash ?n) = setHash ?n (Some (sha256 (leafHashBytes ?n)))"
    by (simp add: newLeafNode_def Hash.simps Let_def)
  then have "noCollision ?n (snd (Hash ?n))"
    by (simp add: noCollision_def newLeafNode_def leafHashBytes_def hash_defs)
  then show ?thesis using root_hash_commits [OF h(3) s(3)] s by (simp add: keys_def newLeafNode_def)
qed

end
