(* ===== verification/Snapshot.thy ===== *)
theory Snapshot
  imports NodeHash
begin

text \<open>
  Reading a snapshot directory: the record layouts of \<open>memiavl/layout_little_endian.go\<close>,
  \<open>PersistedNode\<close> of \<open>memiavl/persisted_node.go\<close>, and \<open>OpenSnapshot\<close> with the accessors and the
  sequential export of \<open>memiavl/snapshot.go\<close>. Files are byte lists; an access outside a file is a
  panic in the source and \<open>None\<close> here. \<open>presents S p n\<close> says that the accessors of the
  \<open>Node\<close> interface, applied to \<open>p\<close>, show exactly the tree \<open>n\<close>.
\<close>

section \<open>Record layouts\<close>

definition SizeNode :: nat where "SizeNode = 52"
definition SizeLeaf :: nat where "SizeLeaf = 52"
definition SizeMetadata :: nat where "SizeMetadata = 16"
definition SnapshotFileMagic :: u32 where "SnapshotFileMagic = 1280721225"
definition SnapshotFormat :: u32 where "SnapshotFormat = 0"

definition NodesNode :: "bytes \<Rightarrow> u32 \<Rightarrow> bytes option" where
  "NodesNode data i = sliceAt data (unat i * SizeNode) (unat i * SizeNode + SizeNode)"

definition LeavesLeaf :: "bytes \<Rightarrow> u32 \<Rightarrow> bytes option" where
  "LeavesLeaf data i = sliceAt data (unat i * SizeLeaf) (unat i * SizeLeaf + SizeLeaf)"

text \<open>The fields of a branch record and of a leaf record of 52 bytes.\<close>

definition nodeHeight :: "bytes \<Rightarrow> u8" where "nodeHeight d = d ! 0"
definition nodePreTrees :: "bytes \<Rightarrow> u8" where "nodePreTrees d = d ! 1"
definition nodeVersion :: "bytes \<Rightarrow> u64" where "nodeVersion d = the (getU64 (drop 4 d))"
definition nodeSize :: "bytes \<Rightarrow> u32" where "nodeSize d = the (getU32 (drop 12 d))"
definition nodeKeyLeaf :: "bytes \<Rightarrow> u32" where "nodeKeyLeaf d = the (getU32 (drop 16 d))"
definition nodeHash :: "bytes \<Rightarrow> bytes" where "nodeHash d = take 32 (drop 20 d)"

definition leafVersion :: "bytes \<Rightarrow> u64" where "leafVersion d = the (getU64 d)"
definition leafKeyLength :: "bytes \<Rightarrow> u32" where "leafKeyLength d = the (getU32 (drop 8 d))"
definition leafKeyOffset :: "bytes \<Rightarrow> u64" where "leafKeyOffset d = the (getU64 (drop 12 d))"
definition leafHash :: "bytes \<Rightarrow> bytes" where "leafHash d = take 32 (drop 20 d)"

section \<open>Snapshots\<close>

record pnode =
  pIsLeaf :: bool
  pIndex :: u32

record snapshot =
  snodes :: bytes
  sleaves :: bytes
  skvs :: bytes
  sversion :: u64
  sroot :: "pnode option"

type_synonym dir = "string \<rightharpoonup> bytes"

datatype snapError = NoFile string | BadMetadataSize | BadMagic | BadFormat | BadNodesSize
  | BadLeavesSize | CountMismatch

definition NewEmptySnapshot :: "u64 \<Rightarrow> snapshot" where
  "NewEmptySnapshot version = \<lparr>snodes = [], sleaves = [], skvs = [], sversion = version, sroot = None\<rparr>"

definition readFile :: "dir \<Rightarrow> string \<Rightarrow> snapError + bytes" where
  "readFile d name = (case d name of None \<Rightarrow> Inl (NoFile name) | Some bz \<Rightarrow> Inr bz)"

definition parseMetadata :: "bytes \<Rightarrow> snapError + u64" where
  "parseMetadata bz =
     (if length bz \<noteq> SizeMetadata then Inl BadMetadataSize
      else if getU32 bz \<noteq> Some SnapshotFileMagic then Inl BadMagic
      else if getU32 (drop 4 bz) \<noteq> Some SnapshotFormat then Inl BadFormat
      else Inr (the (getU64 (drop 8 bz))))"

definition OpenSnapshot :: "dir \<Rightarrow> snapError + snapshot" where
  "OpenSnapshot d =
     andThen (readFile d ''metadata'') (\<lambda>bz.
     andThen (parseMetadata bz) (\<lambda>version.
     andThen (readFile d ''nodes'') (\<lambda>nds.
     andThen (readFile d ''leaves'') (\<lambda>lvs.
     andThen (readFile d ''kvs'') (\<lambda>kvs.
       if length nds mod SizeNode \<noteq> 0 then Inl BadNodesSize
       else if length lvs mod SizeLeaf \<noteq> 0 then Inl BadLeavesSize
       else
         (let nodesLen = length nds div SizeNode; leavesLen = length lvs div SizeLeaf in
          if (0 < leavesLen \<and> nodesLen + 1 \<noteq> leavesLen) \<or> (leavesLen = 0 \<and> nodesLen \<noteq> 0)
          then Inl CountMismatch
          else Inr \<lparr>snodes = nds, sleaves = lvs, skvs = kvs, sversion = version,
                 sroot = (if 0 < nodesLen then Some \<lparr>pIsLeaf = False, pIndex = of_nat (nodesLen - 1)\<rparr>
                          else if 0 < leavesLen then Some \<lparr>pIsLeaf = True, pIndex = 0\<rparr>
                          else None)\<rparr>))))))"

definition snapIsEmpty :: "snapshot \<Rightarrow> bool" where
  "snapIsEmpty S \<longleftrightarrow> sroot S = None"

definition nodesLen :: "snapshot \<Rightarrow> nat" where
  "nodesLen S = length (snodes S) div SizeNode"

definition leavesLen :: "snapshot \<Rightarrow> nat" where
  "leavesLen S = length (sleaves S) div SizeLeaf"

definition snapLeaf :: "u32 \<Rightarrow> pnode" where
  "snapLeaf i = \<lparr>pIsLeaf = True, pIndex = i\<rparr>"

definition snapNode :: "u32 \<Rightarrow> pnode" where
  "snapNode i = \<lparr>pIsLeaf = False, pIndex = i\<rparr>"

definition snapRootHash :: "snapshot \<Rightarrow> (pnode \<Rightarrow> bytes option) \<Rightarrow> bytes option" where
  "snapRootHash S hash = (case sroot S of None \<Rightarrow> Some (sha256 []) | Some p \<Rightarrow> hash p)"

definition snapKeyValue :: "snapshot \<Rightarrow> u64 \<Rightarrow> (bytes \<times> bytes) option" where
  "snapKeyValue S offset =
     do {
       klen \<leftarrow> getU32 (drop (unat offset) (skvs S));
       let o1 = offset + 4;
       key \<leftarrow> sliceAt (skvs S) (unat o1) (unat (o1 + ucast klen));
       let o2 = o1 + ucast klen;
       vlen \<leftarrow> getU32 (drop (unat o2) (skvs S));
       let o3 = o2 + 4;
       value \<leftarrow> sliceAt (skvs S) (unat o3) (unat (o3 + ucast vlen));
       Some (key, value)
     }"

definition LeafKey :: "snapshot \<Rightarrow> u32 \<Rightarrow> bytes option" where
  "LeafKey S i =
     do {
       leaf \<leftarrow> LeavesLeaf (sleaves S) i;
       let o1 = leafKeyOffset leaf + 4;
       sliceAt (skvs S) (unat o1) (unat (o1 + ucast (leafKeyLength leaf)))
     }"

definition LeafKeyValue :: "snapshot \<Rightarrow> u32 \<Rightarrow> (bytes \<times> bytes) option" where
  "LeafKeyValue S i =
     do {
       leaf \<leftarrow> LeavesLeaf (sleaves S) i;
       let o1 = leafKeyOffset leaf + 4;
       key \<leftarrow> sliceAt (skvs S) (unat o1) (unat (o1 + ucast (leafKeyLength leaf)));
       let o2 = o1 + ucast (leafKeyLength leaf);
       vlen \<leftarrow> getU32 (drop (unat o2) (skvs S));
       let o3 = o2 + 4;
       value \<leftarrow> sliceAt (skvs S) (unat o3) (unat (o3 + ucast vlen));
       Some (key, value)
     }"

section \<open>PersistedNode\<close>

definition getStartLeaf :: "u32 \<Rightarrow> u32 \<Rightarrow> u32 \<Rightarrow> u32" where
  "getStartLeaf index sz preTrees = index + 2 - sz + preTrees"

definition getEndLeaf :: "u32 \<Rightarrow> u32 \<Rightarrow> u32" where
  "getEndLeaf index preTrees = index + preTrees + 1"

definition getLeftBranch :: "u32 \<Rightarrow> u32 \<Rightarrow> u32" where
  "getLeftBranch keyLeaf preTrees = keyLeaf - preTrees - 2"

definition pHeight :: "snapshot \<Rightarrow> pnode \<Rightarrow> u8 option" where
  "pHeight S p = (if pIsLeaf p then Some 0 else map_option nodeHeight (NodesNode (snodes S) (pIndex p)))"

definition pVersion :: "snapshot \<Rightarrow> pnode \<Rightarrow> u64 option" where
  "pVersion S p =
     (if pIsLeaf p then map_option leafVersion (LeavesLeaf (sleaves S) (pIndex p))
      else map_option nodeVersion (NodesNode (snodes S) (pIndex p)))"

definition pSize :: "snapshot \<Rightarrow> pnode \<Rightarrow> u64 option" where
  "pSize S p =
     (if pIsLeaf p then Some 1
      else map_option (\<lambda>d. ucast (nodeSize d)) (NodesNode (snodes S) (pIndex p)))"

definition pKey :: "snapshot \<Rightarrow> pnode \<Rightarrow> bytes option" where
  "pKey S p =
     (if pIsLeaf p then LeafKey S (pIndex p)
      else do { d \<leftarrow> NodesNode (snodes S) (pIndex p); LeafKey S (nodeKeyLeaf d) })"

definition pValue :: "snapshot \<Rightarrow> pnode \<Rightarrow> slice option" where
  "pValue S p =
     (if \<not> pIsLeaf p then Some None
      else map_option (\<lambda>kv. Some (snd kv)) (LeafKeyValue S (pIndex p)))"

definition pLeft :: "snapshot \<Rightarrow> pnode \<Rightarrow> pnode option" where
  "pLeft S p =
     (if pIsLeaf p then None
      else do {
        d \<leftarrow> NodesNode (snodes S) (pIndex p);
        let preTrees = ucast (nodePreTrees d);
        let startLeaf = getStartLeaf (pIndex p) (nodeSize d) preTrees;
        let keyLeaf = nodeKeyLeaf d;
        Some (if startLeaf + 1 = keyLeaf then snapLeaf startLeaf
              else snapNode (getLeftBranch keyLeaf preTrees))
      })"

definition pRight :: "snapshot \<Rightarrow> pnode \<Rightarrow> pnode option" where
  "pRight S p =
     (if pIsLeaf p then None
      else do {
        d \<leftarrow> NodesNode (snodes S) (pIndex p);
        let keyLeaf = nodeKeyLeaf d;
        Some (if keyLeaf = getEndLeaf (pIndex p) (ucast (nodePreTrees d)) then snapLeaf keyLeaf
              else snapNode (pIndex p - 1))
      })"

definition pHash :: "snapshot \<Rightarrow> pnode \<Rightarrow> bytes option" where
  "pHash S p =
     (if pIsLeaf p then map_option leafHash (LeavesLeaf (sleaves S) (pIndex p))
      else map_option nodeHash (NodesNode (snodes S) (pIndex p)))"

text \<open>
  \<open>Get\<close>: a binary search over the leaves of the node. The predicate handed to \<open>sort.Search\<close>
  reads a leaf key, which cannot fail on a node of an opened snapshot; out of range the
  model answers like a smaller key.
\<close>

definition leafRange :: "snapshot \<Rightarrow> pnode \<Rightarrow> (u32 \<times> u32) option" where
  "leafRange S p =
     (if pIsLeaf p then Some (pIndex p, 1)
      else map_option (\<lambda>d. (getStartLeaf (pIndex p) (nodeSize d) (ucast (nodePreTrees d)), nodeSize d))
        (NodesNode (snodes S) (pIndex p)))"

definition keyNotBelow :: "snapshot \<Rightarrow> u32 \<Rightarrow> bytes \<Rightarrow> nat \<Rightarrow> bool" where
  "keyNotBelow S start key i =
     (case LeafKey S (start + of_nat i) of None \<Rightarrow> False | Some k \<Rightarrow> 0 \<le> bytesCompare k key)"

definition pGet :: "snapshot \<Rightarrow> pnode \<Rightarrow> bytes \<Rightarrow> (slice \<times> u32) option" where
  "pGet S p key =
     do {
       (start, count) \<leftarrow> leafRange S p;
       let i = of_nat (sortSearch (unat count) (keyNotBelow S start key));
       if start + count \<le> i + start then Some (None, i)
       else do {
         (nodeKey, value) \<leftarrow> LeafKeyValue S (i + start);
         Some (if nodeKey \<noteq> key then None else Some value, i)
       }
     }"

definition pGetByIndex :: "snapshot \<Rightarrow> pnode \<Rightarrow> u32 \<Rightarrow> (bytes \<times> slice) option option" where
  "pGetByIndex S p leafIndex =
     (if pIsLeaf p then
        (if leafIndex \<noteq> 0 then Some None
         else map_option (\<lambda>kv. Some (fst kv, Some (snd kv))) (LeafKeyValue S (pIndex p)))
      else do {
        d \<leftarrow> NodesNode (snodes S) (pIndex p);
        let preTrees = ucast (nodePreTrees d);
        let startLeaf = getStartLeaf (pIndex p) (nodeSize d) preTrees;
        let i = startLeaf + leafIndex;
        if getEndLeaf (pIndex p) preTrees < i then Some None
        else map_option (\<lambda>kv. Some (fst kv, Some (snd kv))) (LeafKeyValue S i)
      })"

end
