(* ===== verification/SnapshotWrite.thy ===== *)
theory SnapshotWrite
  imports Snapshot
begin

text \<open>
  Writing a snapshot directory: \<open>snapshotWriter\<close>, \<open>writeRecursive\<close> and \<open>writeSnapshot\<close> of
  \<open>memiavl/snapshot.go\<close>. The three buffered files are byte lists in the writer's state. Reads and
  writes of the file system succeed here; the one failure of the writer is the cancellation of its
  context, which is polled every \<open>CancelCheckInterval\<close> leaves: \<open>ctx i\<close> tells whether the poll made
  when \<open>i\<close> leaves are written finds the context done.
\<close>

section \<open>Writer\<close>

record snapshotWriter =
  wNodes :: bytes
  wLeaves :: bytes
  wKvs :: bytes
  branchCounter :: u32
  leafCounter :: u32
  kvsOffset :: u64

datatype writeError = Cancelled

definition newSnapshotWriter :: snapshotWriter where
  "newSnapshotWriter =
     \<lparr>wNodes = [], wLeaves = [], wKvs = [], branchCounter = 0, leafCounter = 0, kvsOffset = 0\<rparr>"

definition CancelCheckInterval :: u32 where "CancelCheckInterval = 1000"

definition kvBytes :: "bytes \<Rightarrow> bytes \<Rightarrow> bytes" where
  "kvBytes key value = putU32 (of_nat (length key)) @ key @ putU32 (of_nat (length value)) @ value"

definition writeKeyValue :: "bytes \<Rightarrow> bytes \<Rightarrow> snapshotWriter \<Rightarrow> snapshotWriter" where
  "writeKeyValue key value w =
     w\<lparr>wKvs := wKvs w @ kvBytes key value,
       kvsOffset := kvsOffset w + (4 + 4 + of_nat (length key) + of_nat (length value))\<rparr>"

definition leafRecord :: "u64 \<Rightarrow> nat \<Rightarrow> u64 \<Rightarrow> bytes \<Rightarrow> bytes" where
  "leafRecord version keyLen offset hash =
     putU64 version @ putU32 (of_nat keyLen) @ putU64 offset @ hash"

definition writeLeaf ::
  "(u32 \<Rightarrow> bool) \<Rightarrow> u64 \<Rightarrow> bytes \<Rightarrow> bytes \<Rightarrow> bytes \<Rightarrow> snapshotWriter \<Rightarrow> writeError + snapshotWriter" where
  "writeLeaf ctx version key value hash w =
     (if leafCounter w mod CancelCheckInterval = 0 \<and> ctx (leafCounter w) then Inl Cancelled
      else
        (let rec = leafRecord version (length key) (kvsOffset w) hash;
             w1 = writeKeyValue key value w
         in Inr (w1\<lparr>wLeaves := wLeaves w1 @ rec, leafCounter := leafCounter w1 + 1\<rparr>)))"

definition branchRecord :: "u64 \<Rightarrow> u32 \<Rightarrow> u8 \<Rightarrow> u8 \<Rightarrow> u32 \<Rightarrow> bytes \<Rightarrow> bytes" where
  "branchRecord version sz height preTrees keyLeaf hash =
     [height, preTrees, 0, 0] @ putU64 version @ putU32 sz @ putU32 keyLeaf @ hash"

definition writeBranch ::
  "u64 \<Rightarrow> u32 \<Rightarrow> u8 \<Rightarrow> u8 \<Rightarrow> u32 \<Rightarrow> bytes \<Rightarrow> snapshotWriter \<Rightarrow> snapshotWriter" where
  "writeBranch version sz height preTrees keyLeaf hash w =
     w\<lparr>wNodes := wNodes w @ branchRecord version sz height preTrees keyLeaf hash,
       branchCounter := branchCounter w + 1\<rparr>"

text \<open>
  \<open>writeRecursive\<close> also returns the node, whose stored hashes \<open>Hash\<close> may have filled in.
\<close>

definition writeAsLeaf ::
  "(u32 \<Rightarrow> bool) \<Rightarrow> node \<Rightarrow> snapshotWriter \<Rightarrow> writeError + snapshotWriter \<times> node" where
  "writeAsLeaf ctx nd w =
     (let (hash, nd') = Hash nd in
      andThen (writeLeaf ctx (Version nd) (Key nd) (valueBytes nd) hash w) (\<lambda>w1. Inr (w1, nd')))"

fun writeRecursive ::
  "(u32 \<Rightarrow> bool) \<Rightarrow> node \<Rightarrow> snapshotWriter \<Rightarrow> writeError + snapshotWriter \<times> node" where
  "writeRecursive ctx (Leaf m) w = writeAsLeaf ctx (Leaf m) w"
| "writeRecursive ctx (Branch h s m l r) w =
     (if IsLeaf (Branch h s m l r) then writeAsLeaf ctx (Branch h s m l r) w
      else
        (let preTrees = ucast (leafCounter w - branchCounter w) in
         andThen (writeRecursive ctx l w) (\<lambda>(w1, l').
           let keyLeaf = leafCounter w1 in
           andThen (writeRecursive ctx r w1) (\<lambda>(w2, r').
             let (hash, nd') = Hash (Branch h s m l' r') in
             Inr (writeBranch (nversion m) (ucast s) h preTrees keyLeaf hash w2, nd')))))"

definition metadataBytes :: "u64 \<Rightarrow> bytes" where
  "metadataBytes version = putU32 SnapshotFileMagic @ putU32 SnapshotFormat @ putU64 version"

text \<open>
  \<open>writeSnapshot\<close> creates the files, lets \<open>doWrite\<close> fill them, and writes the metadata last. The
  buffers are flushed only when \<open>doWrite\<close> reports a positive number of leaves.
\<close>

definition writeSnapshot ::
  "u64 \<Rightarrow> (snapshotWriter \<Rightarrow> 'e + snapshotWriter \<times> u32 \<times> 'a) \<Rightarrow> dir \<Rightarrow> 'e + dir \<times> 'a" where
  "writeSnapshot version doWrite d =
     andThen (doWrite newSnapshotWriter) (\<lambda>(w, leafCount, x).
       let flushed = (\<lambda>bz. if 0 < leafCount then bz else []) in
       Inr (d(''nodes'' \<mapsto> flushed (wNodes w), ''leaves'' \<mapsto> flushed (wLeaves w),
              ''kvs'' \<mapsto> flushed (wKvs w), ''metadata'' \<mapsto> metadataBytes version), x))"

definition writeRoot ::
  "(u32 \<Rightarrow> bool) \<Rightarrow> node option \<Rightarrow> snapshotWriter \<Rightarrow> writeError + snapshotWriter \<times> u32 \<times> node option" where
  "writeRoot ctx rt w =
     (case rt of
        None \<Rightarrow> Inr (w, 0, None)
      | Some n \<Rightarrow> andThen (writeRecursive ctx n w) (\<lambda>(w1, n'). Inr (w1, leafCounter w1, Some n')))"

section \<open>What a stored tree looks like\<close>

text \<open>
  \<open>stored S n L B\<close>: the files of \<open>S\<close> hold the subtree \<open>n\<close>, with \<open>L\<close> leaves and \<open>B\<close> branches written
  before it. A branch follows both of its subtrees, so the branches of \<open>n\<close> have the
  indices \<open>B .. B + nleaves n - 2\<close>.
\<close>

definition kvStored :: "snapshot \<Rightarrow> u64 \<Rightarrow> bytes \<Rightarrow> bytes \<Rightarrow> bool" where
  "kvStored S offset key value \<longleftrightarrow>
     (\<exists>pre post. skvs S = pre @ kvBytes key value @ post \<and> length pre = unat offset \<and>
        unat offset + length (kvBytes key value) < 2 ^ 64)"

fun stored :: "snapshot \<Rightarrow> node \<Rightarrow> nat \<Rightarrow> nat \<Rightarrow> bool" where
  "stored S (Leaf m) L B =
     (\<exists>offset. LeavesLeaf (sleaves S) (of_nat L) =
          Some (leafRecord (nversion m) (length (nkey m)) offset (merkle (Leaf m))) \<and>
        kvStored S offset (nkey m) (valueBytes (Leaf m)))"
| "stored S (Branch h s m l r) L B =
     (stored S l L B \<and> stored S r (L + nleaves l) (B + nleaves l - 1) \<and>
      NodesNode (snodes S) (of_nat (B + nleaves l + nleaves r - 2)) =
        Some (branchRecord (nversion m) (ucast s) h (of_nat (L - B)) (of_nat (L + nleaves l))
                (merkle (Branch h s m l r))))"

fun smallKV :: "node \<Rightarrow> bool" where
  "smallKV (Leaf m) = (length (nkey m) < 2 ^ 32 \<and> length (valueBytes (Leaf m)) < 2 ^ 32)"
| "smallKV (Branch h s m l r) = (smallKV l \<and> smallKV r)"

definition kvsSize :: "(bytes \<times> bytes) list \<Rightarrow> nat" where
  "kvsSize xs = sum_list (map (\<lambda>(k, v). 8 + length k + length v) xs)"

section \<open>The writer stores the tree\<close>

lemma length_leafRecord [simp]: "length (leafRecord v k off hash) = 20 + length hash"
  by (simp add: leafRecord_def)

lemma length_branchRecord [simp]: "length (branchRecord v s h p k hash) = 20 + length hash"
  by (simp add: branchRecord_def)

lemma length_kvBytes [simp]: "length (kvBytes k v) = 8 + length k + length v"
  by (simp add: kvBytes_def)

definition wInv :: "snapshotWriter \<Rightarrow> nat \<Rightarrow> nat \<Rightarrow> bool" where
  "wInv w L B \<longleftrightarrow> length (wLeaves w) = 52 * L \<and> length (wNodes w) = 52 * B \<and>
     leafCounter w = of_nat L \<and> branchCounter w = of_nat B \<and>
     kvsOffset w = of_nat (length (wKvs w)) \<and> B \<le> L"

text \<open>\<open>S\<close> was opened from files that start with what \<open>w\<close> has written.\<close>

definition extends :: "snapshot \<Rightarrow> snapshotWriter \<Rightarrow> bool" where
  "extends S w \<longleftrightarrow> (\<exists>a b c. snodes S = wNodes w @ a \<and> sleaves S = wLeaves w @ b \<and> skvs S = wKvs w @ c)"

definition wle :: "snapshotWriter \<Rightarrow> snapshotWriter \<Rightarrow> bool" where
  "wle w w' \<longleftrightarrow> (\<exists>a b c. wNodes w' = wNodes w @ a \<and> wLeaves w' = wLeaves w @ b \<and> wKvs w' = wKvs w @ c)"

lemma wle_refl [simp]: "wle w w"
  by (simp add: wle_def)

lemma wle_trans: "wle u v \<Longrightarrow> wle v w \<Longrightarrow> wle u w"
  by (auto simp: wle_def)

lemma extends_wle: "extends S w' \<Longrightarrow> wle w w' \<Longrightarrow> extends S w"
  by (auto simp: extends_def wle_def)

lemma LeavesLeaf_mid:
  assumes "length xs = 52 * L" "length rec = 52" "L < 2 ^ 32"
  shows "LeavesLeaf (xs @ rec @ ys) (of_nat L) = Some rec"
proof -
  have "unat (of_nat L :: u32) * SizeLeaf = length xs"
    using assms by (simp add: SizeLeaf_def unsigned_of_nat take_bit_nat_eq_self)
  then show ?thesis using sliceAt_mid [of xs rec ys] assms(2) by (simp add: LeavesLeaf_def SizeLeaf_def)
qed

lemma NodesNode_mid:
  assumes "length xs = 52 * B" "length rec = 52" "B < 2 ^ 32"
  shows "NodesNode (xs @ rec @ ys) (of_nat B) = Some rec"
proof -
  have "unat (of_nat B :: u32) * SizeNode = length xs"
    using assms by (simp add: SizeNode_def unsigned_of_nat take_bit_nat_eq_self)
  then show ?thesis using sliceAt_mid [of xs rec ys] assms(2) by (simp add: NodesNode_def SizeNode_def)
qed

lemma writeLeaf_stored:
  assumes w: "writeLeaf ctx (nversion m) (nkey m) (valueBytes (Leaf m)) (merkle (Leaf m)) w = Inr w'"
    and inv: "wInv w L B"
  shows "wInv w' (Suc L) B" "wle w w'" "length (wKvs w') = length (wKvs w) + 8 + length (nkey m) + length (valueBytes (Leaf m))"
    and "extends S w' \<Longrightarrow> L < 2 ^ 32 \<Longrightarrow> length (wKvs w') < 2 ^ 64 \<Longrightarrow> stored S (Leaf m) L B"
proof -
  let ?v = "valueBytes (Leaf m)"
  let ?rec = "leafRecord (nversion m) (length (nkey m)) (kvsOffset w) (merkle (Leaf m))"
  have w': "wNodes w' = wNodes w" "wLeaves w' = wLeaves w @ ?rec" "wKvs w' = wKvs w @ kvBytes (nkey m) ?v"
    "leafCounter w' = leafCounter w + 1" "branchCounter w' = branchCounter w"
    "kvsOffset w' = kvsOffset w + (8 + of_nat (length (nkey m)) + of_nat (length ?v))"
    using w by (auto simp: writeLeaf_def writeKeyValue_def Let_def simp del: merkle.simps split: if_splits)
  show "wInv w' (Suc L) B" "wle w w'" "length (wKvs w') = length (wKvs w) + 8 + length (nkey m) + length ?v"
    using inv w' by (auto simp: wInv_def wle_def simp del: merkle.simps)
  show "stored S (Leaf m) L B" if x: "extends S w'" "L < 2 ^ 32" "length (wKvs w') < 2 ^ 64"
  proof -
    obtain a b c where S: "snodes S = wNodes w' @ a" "sleaves S = wLeaves w' @ b" "skvs S = wKvs w' @ c"
      using x(1) by (auto simp: extends_def)
    have "LeavesLeaf (sleaves S) (of_nat L) = Some ?rec"
      using LeavesLeaf_mid [of "wLeaves w" L ?rec b] inv S w' x(2)
      by (simp add: wInv_def del: merkle.simps)
    moreover have "kvStored S (kvsOffset w) (nkey m) ?v"
      unfolding kvStored_def
      by (rule exI [of _ "wKvs w"], rule exI [of _ c])
        (use S w' x(3) inv in \<open>simp add: wInv_def unat_of_nat_64\<close>)
    ultimately show ?thesis by (auto simp del: merkle.simps)
  qed
qed

lemma ucast_of_nat_8: "ucast (of_nat n :: u32) = (of_nat n :: u8)"
  by transfer (simp add: take_bit_of_nat min_def)

lemma kvsSize_simps [simp]:
  "kvsSize [] = 0" "kvsSize ((k, v) # xs) = 8 + length k + length v + kvsSize xs"
  "kvsSize (xs @ ys) = kvsSize xs + kvsSize ys"
  by (auto simp: kvsSize_def)

text \<open>What one call of \<open>writeRecursive\<close> guarantees.\<close>

definition wrote :: "node \<Rightarrow> snapshotWriter \<Rightarrow> nat \<Rightarrow> nat \<Rightarrow> snapshotWriter \<times> node \<Rightarrow> bool" where
  "wrote n w L B res \<longleftrightarrow>
     (case res of (w', n') \<Rightarrow>
       sameNode n n' \<and> hashOK n' \<and> wInv w' (L + nleaves n) (B + nleaves n - 1) \<and> wle w w' \<and>
       length (wKvs w') = length (wKvs w) + kvsSize (leaves n) \<and>
       (\<forall>S. extends S w' \<longrightarrow> L + nleaves n < 2 ^ 32 \<longrightarrow> length (wKvs w') < 2 ^ 64 \<longrightarrow> stored S n L B))"

lemma wrote_Leaf:
  assumes "nodeWf (Leaf m)" "hashOK (Leaf m)" "writeRecursive ctx (Leaf m) w = Inr res" "wInv w L B"
  shows "wrote (Leaf m) w L B res"
proof -
  have b: "balanced (Leaf m)" by simp
  note H = Hash_merkle [OF assms(2) b]
  obtain w' where w': "writeLeaf ctx (nversion m) (nkey m) (valueBytes (Leaf m)) (merkle (Leaf m)) w = Inr w'"
    "res = (w', snd (Hash (Leaf m)))"
    using assms(3) H by (cases "Hash (Leaf m)")
      (auto simp: writeAsLeaf_def andThen_Inr Version_def Key_def simp del: merkle.simps)
  have v: "length (valueBytes (Leaf m)) = length (the (nvalue m))"
    using assms(1) by (auto simp: nodeWf_def valueBytes_def Value_def)
  note st = writeLeaf_stored [OF w'(1) assms(4)]
  show ?thesis
    using st H w'(2) v by (simp add: wrote_def del: stored.simps merkle.simps hashOK.simps)
qed

lemma wrote_Branch:
  assumes wl: "wrote l w L B (w1, l')" and wr: "wrote r w1 (L + nleaves l) (B + nleaves l - 1) (w2, r')"
    and ok: "hashOK (Branch h s m l r)" and bal: "balanced (Branch h s m l r)" and inv: "wInv w L B"
    and H: "Hash (Branch h s m l' r') = (x, n')"
    and w3: "w3 = writeBranch (nversion m) (ucast s) h (ucast (leafCounter w - branchCounter w))
      (leafCounter w1) x w2"
  shows "wrote (Branch h s m l r) w L B (w3, n')"
proof -
  let ?n = "Branch h s m l r" and ?n1 = "Branch h s m l' r'"
  have same: "sameNode l l'" "sameNode r r'" "hashOK l'" "hashOK r'"
    using wl wr by (auto simp: wrote_def)
  then have s1: "sameNode ?n ?n1" by simp
  note f = sameNode_facts [OF s1]
  have ok1: "hashOK ?n1" using same ok f(6) by (simp del: merkle.simps)
  have b1: "balanced ?n1" using bal f(3) by simp
  note HM = Hash_merkle [OF ok1 b1, unfolded H]
  have x: "x = merkle ?n" and n': "sameNode ?n1 n'" "hashOK n'" using HM f(6) by auto
  have sn: "sameNode ?n n'" using sameNode_trans [OF s1 n'(1)] .
  obtain a b where ab: "nleaves l = Suc a" "nleaves r = Suc b" by (metis nleaves_Suc)
  define B2 where "B2 = B + nleaves l + nleaves r - 2"
  have B2: "B + nleaves l - 1 + nleaves r - 1 = B2" "B2 + 1 = B + nleaves ?n - 1"
    unfolding B2_def by (simp_all add: ab)
  have iw: "wInv w1 (L + nleaves l) (B + nleaves l - 1)" "wInv w2 (L + nleaves ?n) B2"
    using wl wr B2(1) by (simp_all add: wrote_def add.assoc)
  let ?rec = "branchRecord (nversion m) (ucast s) h (of_nat (L - B)) (of_nat (L + nleaves l)) (merkle ?n)"
  have pre: "ucast (leafCounter w - branchCounter w) = (of_nat (L - B) :: u8)"
    using inv by (simp add: wInv_def ucast_of_nat_8 flip: of_nat_diff)
  have w3': "wNodes w3 = wNodes w2 @ ?rec" "wLeaves w3 = wLeaves w2" "wKvs w3 = wKvs w2"
    "leafCounter w3 = leafCounter w2" "branchCounter w3 = branchCounter w2 + 1" "kvsOffset w3 = kvsOffset w2"
    using w3 pre iw x by (simp_all add: writeBranch_def wInv_def del: merkle.simps)
  have le: "wle w w1" "wle w1 w2" "wle w2 w3" using wl wr w3' by (auto simp: wrote_def wle_def)
  have st: "stored S ?n L B" if S3: "extends S w3" "L + nleaves ?n < 2 ^ 32" "length (wKvs w3) < 2 ^ 64" for S
  proof -
    obtain c where S: "snodes S = wNodes w3 @ c" using S3(1) by (auto simp: extends_def)
    have "B2 < 2 ^ 32" using iw(2) that(2) by (simp add: wInv_def)
    then have "NodesNode (snodes S) (of_nat B2) = Some ?rec"
      using NodesNode_mid [of "wNodes w2" B2 ?rec c] iw(2) S w3'(1) by (simp add: wInv_def del: merkle.simps)
    moreover have "extends S w2" "extends S w1" using that(1) le extends_wle by blast+
    moreover have "length (wKvs w1) < 2 ^ 64" using that(3) w3'(3) le(2) by (auto simp: wle_def)
    ultimately show ?thesis
      using wl wr that(2,3) w3'(3) unfolding B2_def wrote_def by (simp del: merkle.simps)
  qed
  have "B2 + 1 \<le> L + nleaves ?n" using inv unfolding B2(2) by (auto simp: wInv_def)
  then have "wInv w3 (L + nleaves ?n) (B + nleaves ?n - 1)"
    using iw(2) w3' B2(2) [symmetric] by (simp add: wInv_def del: merkle.simps)
  then show ?thesis
    using sn n'(2) st wle_trans [OF wle_trans [OF le(1,2)] le(3)] wl wr w3'(3)
    unfolding wrote_def by (simp del: merkle.simps stored.simps)
qed

lemma writeRecursive_wrote:
  "nodeWf n \<Longrightarrow> hashOK n \<Longrightarrow> writeRecursive ctx n w = Inr res \<Longrightarrow> wInv w L B \<Longrightarrow> wrote n w L B res"
proof (induction n arbitrary: w L B res)
  case (Leaf m)
  then show ?case by (rule wrote_Leaf)
next
  case (Branch h s m l r)
  have b: "balanced (Branch h s m l r)" and nl: "\<not> IsLeaf (Branch h s m l r)"
    using Branch.prems(1) by (auto simp: nodeWf_def)
  have k: "nodeWf l" "nodeWf r" "hashOK l" "hashOK r" using Branch.prems(1,2) by (auto simp: nodeWf_def)
  let ?pre = "ucast (leafCounter w - branchCounter w) :: u8"
  obtain w1 l' w2 r' where e1: "writeRecursive ctx l w = Inr (w1, l')"
    "writeRecursive ctx r w1 = Inr (w2, r')"
    and res: "res = (case Hash (Branch h s m l' r') of (hash, nd') \<Rightarrow>
      (writeBranch (nversion m) (ucast s) h ?pre (leafCounter w1) hash w2, nd'))"
    using Branch.prems(3) nl
    by (auto simp: Let_def andThen_Inr case_prod_beta simp del: IsLeaf.simps)
  obtain x n' where e2: "Hash (Branch h s m l' r') = (x, n')" by fastforce
  have e: "writeRecursive ctx l w = Inr (w1, l')" "writeRecursive ctx r w1 = Inr (w2, r')"
    "Hash (Branch h s m l' r') = (x, n')"
    "res = (writeBranch (nversion m) (ucast s) h ?pre (leafCounter w1) x w2, n')"
    using e1 e2 res by auto
  have wl: "wrote l w L B (w1, l')" using Branch.IH(1) [OF k(1,3) e(1) Branch.prems(4)] .
  then have "wInv w1 (L + nleaves l) (B + nleaves l - 1)" by (simp add: wrote_def)
  then have wr: "wrote r w1 (L + nleaves l) (B + nleaves l - 1) (w2, r')"
    using Branch.IH(2) [OF k(2,4) e(2)] by simp
  show ?case using wrote_Branch [OF wl wr Branch.prems(2) b Branch.prems(4) e(3) refl] e(4) by simp
qed

lemma writeRecursive_total:
  assumes "\<forall>i. \<not> ctx i"
  shows "\<exists>res. writeRecursive ctx n w = Inr res"
proof -
  have leaf: "\<exists>w' n'. writeAsLeaf ctx nd w = Inr (w', n')" for nd w
    using assms by (simp add: writeAsLeaf_def writeLeaf_def Let_def split: prod.splits)
  show ?thesis
  proof (induction n arbitrary: w)
    case (Branch h s m l r)
    obtain w1 l' where L: "writeRecursive ctx l w = Inr (w1, l')" using Branch.IH(1) by force
    obtain w2 r' where R: "writeRecursive ctx r w1 = Inr (w2, r')" using Branch.IH(2) by force
    show ?case using L R leaf by (simp add: Let_def split: prod.splits)
  qed (simp add: leaf)
qed

end
