(* ===== verification/SnapshotView.thy ===== *)
theory SnapshotView
  imports SnapshotWrite
begin

text \<open>
  A snapshot that stores a tree presents it: every accessor of \<open>PersistedNode\<close>
  (\<open>memiavl/persisted_node.go\<close>) returns what the tree has there, the index arithmetic of \<open>Left\<close> and
  \<open>Right\<close> finds the children, and the binary search of \<open>Get\<close> and the index lookup of \<open>GetByIndex\<close>
  agree with the recursive lookups of \<open>MemNode\<close>.
\<close>

section \<open>Reading records back\<close>

lemma branchRecord_fields [simp]:
  assumes "length hash = 32"
  shows "nodeHeight (branchRecord v sz h p k hash) = h" "nodePreTrees (branchRecord v sz h p k hash) = p"
    "nodeVersion (branchRecord v sz h p k hash) = v" "nodeSize (branchRecord v sz h p k hash) = sz"
    "nodeKeyLeaf (branchRecord v sz h p k hash) = k" "nodeHash (branchRecord v sz h p k hash) = hash"
  using assms
  by (simp_all add: branchRecord_def nodeHeight_def nodePreTrees_def nodeVersion_def nodeSize_def
      nodeKeyLeaf_def nodeHash_def)

lemma leafRecord_fields [simp]:
  assumes "length hash = 32"
  shows "leafVersion (leafRecord v kl off hash) = v" "leafKeyLength (leafRecord v kl off hash) = of_nat kl"
    "leafKeyOffset (leafRecord v kl off hash) = off" "leafHash (leafRecord v kl off hash) = hash"
  using assms
  by (simp_all add: leafRecord_def leafVersion_def leafKeyLength_def leafKeyOffset_def leafHash_def)

lemma ucast_of_nat_u32: "n < 2 ^ 32 \<Longrightarrow> ucast (of_nat n :: u32) = (of_nat n :: u64)"
  by (simp add: word_unat_eq_iff unsigned_ucast_eq unsigned_of_nat take_bit_nat_eq_self)

lemma kvStored_reads:
  assumes kv: "kvStored S offset key value" and small: "length key < 2 ^ 32" "length value < 2 ^ 32"
  shows "sliceAt (skvs S) (unat (offset + 4)) (unat (offset + 4 + of_nat (length key))) = Some key"
    and "getU32 (drop (unat (offset + 4 + of_nat (length key))) (skvs S)) = Some (of_nat (length value))"
    and "sliceAt (skvs S) (unat (offset + 4 + of_nat (length key) + 4))
      (unat (offset + 4 + of_nat (length key) + 4 + of_nat (length value))) = Some value"
    and "getU32 (drop (unat offset) (skvs S)) = Some (of_nat (length key))"
proof -
  obtain pre post where k: "skvs S = pre @ kvBytes key value @ post" "length pre = unat offset"
    and lt: "unat offset + (8 + length key + length value) < 2 ^ 64"
    using kv by (auto simp: kvStored_def)
  have o: "offset = of_nat (length pre)" unfolding k(2) by simp
  have lp: "length pre + (8 + length key + length value) < 2 ^ 64" using lt unfolding k(2) .
  have u1: "unat (offset + 4) = length pre + 4"
    using unat_of_nat_64 [of "length pre + 4"] lp unfolding o by simp
  have u2: "unat (offset + 4 + of_nat (length key)) = length pre + 4 + length key"
    using unat_of_nat_64 [of "length pre + 4 + length key"] lp unfolding o by simp
  have u3: "unat (offset + 4 + of_nat (length key) + 4) = length pre + 4 + length key + 4"
    using unat_of_nat_64 [of "length pre + 4 + length key + 4"] lp unfolding o by simp
  have u4: "unat (offset + 4 + of_nat (length key) + 4 + of_nat (length value)) =
      length pre + 4 + length key + 4 + length value"
    using unat_of_nat_64 [of "length pre + 4 + length key + 4 + length value"] lp unfolding o by simp
  show "sliceAt (skvs S) (unat (offset + 4)) (unat (offset + 4 + of_nat (length key))) = Some key"
    unfolding u1 u2 k(1) kvBytes_def by (simp add: sliceAt_def)
  show "getU32 (drop (unat (offset + 4 + of_nat (length key))) (skvs S)) = Some (of_nat (length value))"
    unfolding u2 k(1) kvBytes_def by simp
  show "sliceAt (skvs S) (unat (offset + 4 + of_nat (length key) + 4))
      (unat (offset + 4 + of_nat (length key) + 4 + of_nat (length value))) = Some value"
    unfolding u3 u4 k(1) kvBytes_def by (simp add: sliceAt_def)
  show "getU32 (drop (unat offset) (skvs S)) = Some (of_nat (length key))"
    unfolding k(1) k(2) [symmetric] kvBytes_def by simp
qed

lemma stored_Leaf_reads:
  assumes "stored S (Leaf m) L B" "smallKV (Leaf m)"
  shows "LeafKey S (of_nat L) = Some (nkey m)"
    and "LeafKeyValue S (of_nat L) = Some (nkey m, valueBytes (Leaf m))"
    and "pVersion S (snapLeaf (of_nat L)) = Some (nversion m)"
    and "pHash S (snapLeaf (of_nat L)) = Some (merkle (Leaf m))"
    and "\<exists>leaf. LeavesLeaf (sleaves S) (of_nat L) = Some leaf \<and>
      snapKeyValue S (leafKeyOffset leaf) = Some (nkey m, valueBytes (Leaf m))"
proof -
  obtain offset where r: "LeavesLeaf (sleaves S) (of_nat L) =
      Some (leafRecord (nversion m) (length (nkey m)) offset (merkle (Leaf m)))"
    and kv: "kvStored S offset (nkey m) (valueBytes (Leaf m))"
    using assms(1) by (auto simp del: merkle.simps)
  have sm: "length (nkey m) < 2 ^ 32" "length (valueBytes (Leaf m)) < 2 ^ 32" using assms(2) by auto
  note reads = kvStored_reads [OF kv sm]
  have h: "length (merkle (Leaf m)) = 32" by (rule length_merkle)
  note flds = leafRecord_fields [OF h] and u = ucast_of_nat_u32 [OF sm(1)] ucast_of_nat_u32 [OF sm(2)]
  show "LeafKey S (of_nat L) = Some (nkey m)"
    by (simp only: LeafKey_def r bind.bind_lunit flds u reads Let_def)
  show "LeafKeyValue S (of_nat L) = Some (nkey m, valueBytes (Leaf m))"
    by (simp only: LeafKeyValue_def r bind.bind_lunit flds u reads Let_def)
  show "pVersion S (snapLeaf (of_nat L)) = Some (nversion m)"
    by (simp add: pVersion_def snapLeaf_def r flds del: merkle.simps)
  show "pHash S (snapLeaf (of_nat L)) = Some (merkle (Leaf m))"
    by (simp add: pHash_def snapLeaf_def r flds del: merkle.simps)
  show "\<exists>leaf. LeavesLeaf (sleaves S) (of_nat L) = Some leaf \<and>
      snapKeyValue S (leafKeyOffset leaf) = Some (nkey m, valueBytes (Leaf m))"
    by (rule exI, rule conjI, rule r) (simp only: snapKeyValue_def bind.bind_lunit flds u reads Let_def)
qed

section \<open>A stored tree is presented\<close>

fun presents :: "snapshot \<Rightarrow> pnode \<Rightarrow> node \<Rightarrow> bool" where
  "presents S p (Leaf m) =
     (pIsLeaf p \<and> pHeight S p = Some 0 \<and> pSize S p = Some 1 \<and> pVersion S p = Some (nversion m) \<and>
      pKey S p = Some (nkey m) \<and> pValue S p = Some (nvalue m) \<and> pHash S p = Some (merkle (Leaf m)))"
| "presents S p (Branch h s m l r) =
     (\<not> pIsLeaf p \<and> pHeight S p = Some h \<and> pSize S p = Some s \<and> pVersion S p = Some (nversion m) \<and>
      pKey S p = Some (nkey m) \<and> pValue S p = Some (nvalue m) \<and>
      pHash S p = Some (merkle (Branch h s m l r)) \<and>
      (\<exists>pl. pLeft S p = Some pl \<and> presents S pl l) \<and> (\<exists>pr. pRight S p = Some pr \<and> presents S pr r))"

fun pnodeFor :: "node \<Rightarrow> nat \<Rightarrow> nat \<Rightarrow> pnode" where
  "pnodeFor (Leaf m) L B = snapLeaf (of_nat L)"
| "pnodeFor (Branch h s m l r) L B = snapNode (of_nat (B + nleaves l + nleaves r - 2))"

lemma nleaves_1_iff: "nleaves n = 1 \<longleftrightarrow> (\<exists>m. n = Leaf m)"
proof (cases n)
  case (Branch h s m l r)
  obtain a b where "nleaves l = Suc a" "nleaves r = Suc b" by (metis nleaves_Suc)
  then show ?thesis using Branch by simp
qed simp

lemma pnodeFor_alt:
  "pnodeFor n L B =
     (if nleaves n = 1 then snapLeaf (of_nat L) else snapNode (of_nat (B + nleaves n - 2)))"
  using nleaves_1_iff [of n] by (cases n) (simp_all add: add.assoc)

lemma stored_leaf_nth:
  "ordered n \<Longrightarrow> stored S n L B \<Longrightarrow> smallKV n \<Longrightarrow> i < nleaves n \<Longrightarrow>
   LeafKey S (of_nat (L + i)) = Some (fst (leaves n ! i)) \<and>
   LeafKeyValue S (of_nat (L + i)) = Some (leaves n ! i) \<and>
   (\<exists>leaf. LeavesLeaf (sleaves S) (of_nat (L + i)) = Some leaf \<and>
      snapKeyValue S (leafKeyOffset leaf) = Some (leaves n ! i))"
proof (induction n arbitrary: L B i)
  case (Leaf m)
  have "valueBytes (Leaf m) = the (nvalue m)"
    using Leaf.prems(1) by (auto simp: valueBytes_def Value_def)
  then show ?case using stored_Leaf_reads [OF Leaf.prems(2,3)] Leaf.prems(4) by simp
next
  case (Branch h s m l r)
  show ?case
  proof (cases "i < nleaves l")
    case True
    then show ?thesis using Branch.IH(1) [of L B i] Branch.prems by (simp add: nth_append)
  next
    case False
    then have "L + i = L + nleaves l + (i - nleaves l)" "i - nleaves l < nleaves r" using Branch.prems(4) by auto
    then show ?thesis
      using Branch.IH(2) [of "L + nleaves l" "B + nleaves l - 1" "i - nleaves l"] Branch.prems False
      by (simp add: nth_append)
  qed
qed

lemma unat_of_nat_32: "n < 2 ^ 32 \<Longrightarrow> unat (of_nat n :: u32) = n"
  by (simp add: unsigned_of_nat take_bit_nat_eq_self)

lemma of_nat_u32_eq: "x < 2 ^ 32 \<Longrightarrow> y < 2 ^ 32 \<Longrightarrow> (of_nat x :: u32) = of_nat y \<longleftrightarrow> x = y"
  by (simp add: word_unat_eq_iff unsigned_of_nat take_bit_nat_eq_self)

lemma ucast_of_nat_u8: "n < 256 \<Longrightarrow> ucast (of_nat n :: u8) = (of_nat n :: u32)"
  by (simp add: word_unat_eq_iff unsigned_ucast_eq unsigned_of_nat take_bit_nat_eq_self)

text \<open>
  The index arithmetic of a branch that has \<open>B\<close> branches and \<open>B + q\<close> leaves before it, \<open>Suc a\<close>
  leaves on its left and \<open>Suc b\<close> on its right.
\<close>

lemma branch_indices:
  fixes B q a b :: nat
  defines "idx \<equiv> of_nat (B + a + b) :: u32"
  shows "getStartLeaf idx (of_nat (a + b + 2)) (of_nat q) = of_nat (B + q)"
    and "getEndLeaf idx (of_nat q) = of_nat (B + q + a + b + 1)"
    and "getLeftBranch (of_nat (B + q + a + 1)) (of_nat q) = of_nat (B + a) - 1"
    and "idx - 1 = of_nat (B + a + b) - 1"
  unfolding idx_def getStartLeaf_def getEndLeaf_def getLeftBranch_def
  by (simp_all add: algebra_simps)

lemma stored_presents:
  "nodeWf n \<Longrightarrow> stored S n L B \<Longrightarrow> smallKV n \<Longrightarrow> B \<le> L \<Longrightarrow> L + nleaves n < 2 ^ 32 \<Longrightarrow> L - B + ht n < 256 \<Longrightarrow>
   presents S (pnodeFor n L B) n"
proof (induction n arbitrary: L B)
  case (Leaf m)
  have "valueBytes (Leaf m) = the (nvalue m)" "nvalue m \<noteq> None"
    using Leaf.prems(1) by (auto simp: valueBytes_def Value_def nodeWf_def)
  then show ?case
    using stored_Leaf_reads [OF Leaf.prems(2,3)]
    by (simp add: pHeight_def pSize_def pKey_def pValue_def snapLeaf_def del: merkle.simps)
next
  case (Branch h s m l r)
  let ?n = "Branch h s m l r"
  obtain a b where ab: "nleaves l = Suc a" "nleaves r = Suc b" by (metis nleaves_Suc)
  obtain q where q: "L = B + q" using Branch.prems(4) le_Suc_ex by blast
  let ?rec = "branchRecord (nversion m) (ucast s) h (of_nat q) (of_nat (L + Suc a)) (merkle ?n)"
  let ?idx = "of_nat (B + a + b) :: u32"
  have w: "nodeWf l" "nodeWf r" "ordered ?n" using Branch.prems(1) by (auto simp: nodeWf_def)
  have st: "stored S l L B" "stored S r (L + Suc a) (B + a)" "NodesNode (snodes S) ?idx = Some ?rec"
    using Branch.prems(2) ab q by (simp_all del: merkle.simps)
  have len: "length (merkle ?n) = 32" by (rule length_merkle)
  note flds = branchRecord_fields [OF len]
  have qs: "q < 256" "L + a + b + 2 < 2 ^ 32" using Branch.prems(5,6) ab q by auto
  have sz: "s = of_nat (a + b + 2)" using Branch.prems(1) ab by (simp add: nodeWf_def)
  then have us: "(ucast s :: u32) = of_nat (a + b + 2)" by (simp only: ucast_of_nat_32)
  have uq: "ucast (of_nat q :: u8) = (of_nat q :: u32)" using qs by (intro ucast_of_nat_u8) simp
  have p: "pnodeFor ?n L B = snapNode ?idx" using ab by simp
  have key: "LeafKey S (of_nat (L + Suc a)) = Some (nkey m)"
    using stored_leaf_nth [of r S "L + Suc a" "B + a" 0] w st(2) Branch.prems(3) ordered_min [OF w(3)]
    by (simp add: hd_conv_nth nodeWf_def)
  have l: "pLeft S (snapNode ?idx) = Some (pnodeFor l L B)"
  proof -
    have c: "getStartLeaf ?idx (ucast s) (of_nat q) + 1 = of_nat (L + Suc a) \<longleftrightarrow> a = 0"
      unfolding us branch_indices(1) using of_nat_u32_eq [of "L + 1" "L + Suc a"] qs q by simp
    have i: "of_nat (B + a) - 1 = (of_nat (B + Suc a - 2) :: u32)" if "a \<noteq> 0"
      using that by (cases a) simp_all
    have e: "pLeft S (snapNode ?idx) =
      Some (if getStartLeaf ?idx (ucast s) (of_nat q) + 1 = of_nat (L + Suc a)
        then snapLeaf (getStartLeaf ?idx (ucast s) (of_nat q))
        else snapNode (getLeftBranch (of_nat (L + Suc a)) (of_nat q)))"
      by (simp add: pLeft_def st(3) flds uq snapNode_def Let_def del: merkle.simps of_nat_add of_nat_Suc)
    have f: "getStartLeaf ?idx (ucast s) (of_nat q) = of_nat L"
      "getLeftBranch (of_nat (L + Suc a)) (of_nat q) = of_nat (B + a) - 1"
      using branch_indices(1) [of B a b q] branch_indices(3) [of B q a] us q by simp_all
    show ?thesis unfolding e c unfolding f pnodeFor_alt ab(1) using i by simp
  qed
  have r: "pRight S (snapNode ?idx) = Some (pnodeFor r (L + Suc a) (B + a))"
  proof -
    have "of_nat (L + Suc a) = getEndLeaf ?idx (of_nat q) \<longleftrightarrow> b = 0"
      unfolding branch_indices(2) using of_nat_u32_eq [of "L + Suc a" "B + q + a + b + 1"] qs q by simp
    moreover have "?idx - 1 = of_nat (B + a + nleaves r - 2)" if "b \<noteq> 0"
      using that ab by (cases b) simp_all
    ultimately show ?thesis
      unfolding pRight_def pnodeFor_alt using ab
      by (simp add: st(3) flds uq snapNode_def snapLeaf_def Let_def del: merkle.simps of_nat_add)
  qed
  have IHl: "presents S (pnodeFor l L B) l"
    using Branch.IH(1) [OF w(1) st(1)] Branch.prems(3-6) by simp
  have IHr: "presents S (pnodeFor r (L + Suc a) (B + a)) r"
    using Branch.IH(2) [OF w(2) st(2)] Branch.prems(3-6) ab q by simp
  have "ucast (ucast s :: u32) = s"
    unfolding us using ucast_of_nat_u32 [of "a + b + 2"] qs sz by simp
  then show ?case
    unfolding p using l r IHl IHr key st(3) flds w(3)
    by (simp add: pHeight_def pSize_def pVersion_def pKey_def pValue_def pHash_def snapNode_def
        del: merkle.simps)
qed

section \<open>Lookups\<close>

lemma stored_leafRange:
  assumes "nodeWf n" "stored S n L B" "B \<le> L" "L + nleaves n < 2 ^ 32" "L - B < 256"
  shows "leafRange S (pnodeFor n L B) = Some (of_nat L, of_nat (nleaves n))"
proof (cases n)
  case (Leaf m)
  then show ?thesis by (simp add: leafRange_def snapLeaf_def)
next
  case (Branch h s m l r)
  obtain a b where ab: "nleaves l = Suc a" "nleaves r = Suc b" by (metis nleaves_Suc)
  obtain q where q: "L = B + q" using assms(3) le_Suc_ex by blast
  have "(ucast s :: u32) = of_nat (a + b + 2)"
  proof -
    have "s = of_nat (a + b + 2)" using assms(1) ab Branch by (simp add: nodeWf_def)
    then show ?thesis by (simp only: ucast_of_nat_32)
  qed
  moreover have "ucast (of_nat q :: u8) = (of_nat q :: u32)" using assms(5) q by (intro ucast_of_nat_u8) simp
  moreover have "NodesNode (snodes S) (of_nat (B + a + b)) =
    Some (branchRecord (nversion m) (ucast s) h (of_nat q) (of_nat (L + Suc a)) (merkle n))"
    using assms(2) ab q Branch by (simp del: merkle.simps)
  ultimately show ?thesis
    using branch_indices(1) [of B a b q] Branch ab q by (simp add: leafRange_def snapNode_def del: merkle.simps)
qed

lemma stored_Get:
  assumes "nodeWf n" "stored S n L B" "smallKV n" "B \<le> L" "L + nleaves n < 2 ^ 32" "L - B < 256"
  shows "pGet S (pnodeFor n L B) k = Some (Get n k)"
proof -
  let ?xs = "leaves n" and ?f = "keyNotBelow S (of_nat L) k"
  have o: "ordered n" using assms(1) by (simp add: nodeWf_def)
  note srt = ordered_sorted [OF o]
  note nth = stored_leaf_nth [OF o assms(2,3)]
  have u: "unat (of_nat (nleaves n) :: u32) = nleaves n"
    using assms(5) by (simp add: unsigned_of_nat take_bit_nat_eq_self)
  have "?f i \<longleftrightarrow> k \<le> fst (?xs ! i)" if "i < nleaves n" for i
    using nth [OF that] by (simp add: keyNotBelow_def compare_simps)
  then have ss: "sortSearch (nleaves n) ?f = rank k ?xs" by (rule sortSearch_rank [OF srt])
  define rk where "rk = rank k ?xs"
  have rk: "rk \<le> nleaves n" using rank_split(1) [OF srt] by (simp add: rk_def)
  have cmp: "of_nat L + of_nat (nleaves n) \<le> (of_nat rk + of_nat L :: u32) \<longleftrightarrow> rk = nleaves n"
  proof -
    have "unat (of_nat L + of_nat (nleaves n) :: u32) = L + nleaves n"
      "unat (of_nat rk + of_nat L :: u32) = rk + L"
      using unat_of_nat_32 [of "L + nleaves n"] unat_of_nat_32 [of "rk + L"] assms(5) rk by simp_all
    then show ?thesis using rk by (auto simp: word_le_nat_alt)
  qed
  show ?thesis
  proof (cases "rk = nleaves n")
    case True
    then have "map_of ?xs k = None" using rank_nth [OF srt, of k] by (cases "map_of ?xs k") (auto simp: rk_def)
    then show ?thesis
      using True cmp ss u by (simp add: pGet_def stored_leafRange [OF assms(1,2,4,5,6)] Get_spec [OF assms(1)] Let_def flip: rk_def)
  next
    case False
    then have lt: "rk < nleaves n" using rk by simp
    have kv: "LeafKeyValue S (of_nat rk + of_nat L) = Some (?xs ! rk)" using nth [OF lt] by (simp add: add.commute)
    have "map_of ?xs k = (if fst (?xs ! rk) = k then Some (snd (?xs ! rk)) else None)"
    proof (cases "map_of ?xs k")
      case None
      then show ?thesis using nth_mem [OF lt] by (auto simp: map_of_eq_None_iff)
    next
      case (Some v)
      then show ?thesis using rank_nth [OF srt Some] by (simp add: rk_def)
    qed
    then show ?thesis
      using False cmp ss u kv
      by (cases "?xs ! rk") (simp add: pGet_def stored_leafRange [OF assms(1,2,4,5,6)] Get_spec [OF assms(1)] Let_def flip: rk_def)
  qed
qed

lemma stored_GetByIndex:
  assumes "nodeWf n" "stored S n L B" "smallKV n" "B \<le> L" "L + nleaves n < 2 ^ 32" "L - B < 256"
    and i: "L + unat i < 2 ^ 32"
  shows "pGetByIndex S (pnodeFor n L B) i = Some (GetByIndex n i)"
proof -
  have o: "ordered n" using assms(1) by (simp add: nodeWf_def)
  have nl: "nleaves n < 2 ^ 32" using assms(5) by simp
  note nth = stored_leaf_nth [OF o assms(2,3)] and G = GetByIndex_spec [OF assms(1) nl, of i]
  have Li: "of_nat L + i = of_nat (L + unat i)" by simp
  show ?thesis
  proof (cases n)
    case (Leaf m)
    then show ?thesis
      using nth [of 0] G by (simp add: pGetByIndex_def snapLeaf_def unat_eq_0)
  next
    case (Branch h s m l r)
    obtain a b where ab: "nleaves l = Suc a" "nleaves r = Suc b" by (metis nleaves_Suc)
    obtain q where q: "L = B + q" using assms(4) le_Suc_ex by blast
    have rng: "leafRange S (snapNode (of_nat (B + a + b))) = Some (of_nat L, of_nat (nleaves n))"
      using stored_leafRange [OF assms(1,2,4,5,6)] Branch ab by simp
    have uq: "ucast (of_nat q :: u8) = (of_nat q :: u32)" using assms(6) q by (intro ucast_of_nat_u8) simp
    have rec: "NodesNode (snodes S) (of_nat (B + a + b)) =
      Some (branchRecord (nversion m) (ucast s) h (of_nat q) (of_nat (L + Suc a)) (merkle n))"
      using assms(2) ab q Branch by (simp del: merkle.simps)
    have e: "getEndLeaf (of_nat (B + a + b)) (of_nat q) < of_nat L + i \<longleftrightarrow> nleaves n \<le> unat i"
      unfolding branch_indices(2) Li
      using unat_of_nat_32 [of "B + q + a + b + 1"] unat_of_nat_32 [of "L + unat i"] i assms(5) ab q Branch
      by (auto simp: word_less_nat_alt)
    have st: "getStartLeaf (of_nat (B + a + b)) (ucast s) (of_nat q) = of_nat L"
      using rng rec uq by (auto simp: leafRange_def snapNode_def simp del: merkle.simps of_nat_add of_nat_Suc)
    have "pGetByIndex S (snapNode (of_nat (B + a + b))) i =
      (if nleaves n \<le> unat i then Some None
       else map_option (\<lambda>kv. Some (fst kv, Some (snd kv))) (LeafKeyValue S (of_nat L + i)))"
      unfolding e [symmetric]
      by (simp add: pGetByIndex_def snapNode_def rec uq st Let_def del: merkle.simps of_nat_add of_nat_Suc)
    then show ?thesis
      using G nth [of "unat i"] Branch ab by (auto simp: not_le Li simp del: of_nat_add)
  qed
qed

section \<open>Round trip through the files\<close>

lemma parseMetadata_bytes [simp]: "parseMetadata (metadataBytes v) = Inr v"
proof -
  have "drop 4 (metadataBytes v) = putU32 SnapshotFormat @ putU64 v" "drop 8 (metadataBytes v) = putU64 v"
    by (simp_all add: metadataBytes_def)
  then show ?thesis by (simp add: parseMetadata_def SizeMetadata_def) (simp add: metadataBytes_def)
qed

lemma writeSnapshot_open:
  assumes n: "nodeWf n" "hashOK n" "smallKV n" and sz: "nleaves n < 2 ^ 32" "kvsSize (leaves n) < 2 ^ 64"
    and ctx: "\<forall>i. \<not> ctx i"
  shows "\<exists>d' n' S. writeSnapshot ver (writeRoot ctx (Some n)) d = Inr (d', Some n') \<and> sameNode n n' \<and>
    hashOK n' \<and> OpenSnapshot d' = Inr S \<and> sversion S = ver \<and> sroot S = Some (pnodeFor n 0 0) \<and> stored S n 0 0 \<and>
    leavesLen S = nleaves n \<and> nodesLen S = nleaves n - 1"
proof -
  obtain w' n' where w': "writeRecursive ctx n newSnapshotWriter = Inr (w', n')"
    using writeRecursive_total [OF ctx] by force
  have inv: "wInv newSnapshotWriter 0 0" by (simp add: wInv_def newSnapshotWriter_def)
  note wr = writeRecursive_wrote [OF n(1,2) w' inv, unfolded wrote_def prod.case]
  obtain a where a: "nleaves n = Suc a" by (metis nleaves_Suc)
  have len: "length (wLeaves w') = 52 * nleaves n" "length (wNodes w') = 52 * (nleaves n - 1)"
    "leafCounter w' = of_nat (nleaves n)" "length (wKvs w') < 2 ^ 64"
    using wr sz(2) by (auto simp: wInv_def newSnapshotWriter_def)
  have pos: "0 < leafCounter w'"
    unfolding len(3) using unat_of_nat_32 [OF sz(1)] a by (metis unat_eq_0 word_gt_0 zero_less_Suc less_numeral_extra(3))
  define d' where "d' = d(''nodes'' \<mapsto> wNodes w', ''leaves'' \<mapsto> wLeaves w', ''kvs'' \<mapsto> wKvs w',
    ''metadata'' \<mapsto> metadataBytes ver)"
  define S where "S = \<lparr>snodes = wNodes w', sleaves = wLeaves w', skvs = wKvs w', sversion = ver,
    sroot = Some (pnodeFor n 0 0)\<rparr>"
  have "writeSnapshot ver (writeRoot ctx (Some n)) d = Inr (d', Some n')"
    using w' pos by (simp add: writeSnapshot_def writeRoot_def d'_def Let_def)
  moreover have "OpenSnapshot d' = Inr S"
    using len a by (simp add: OpenSnapshot_def readFile_def d'_def S_def Let_def SizeNode_def SizeLeaf_def
        pnodeFor_alt snapLeaf_def snapNode_def)
  moreover have "stored S n 0 0"
    using wr len sz(1) by (simp add: extends_def S_def)
  moreover have "leavesLen S = nleaves n" "nodesLen S = nleaves n - 1"
    using len by (simp_all add: S_def leavesLen_def nodesLen_def SizeLeaf_def SizeNode_def)
  ultimately show ?thesis using wr by (intro exI [of _ d'] exI [of _ n'] exI [of _ S]) (simp add: S_def)
qed

section \<open>Properties\<close>

text \<open>C7: a snapshot round trip. Writing a well-formed tree (fewer than \<open>2 ^ 32\<close> leaves, keys and values
  shorter than \<open>2 ^ 32\<close> bytes) and opening the directory gives a snapshot of the same version whose
  root presents the tree: every accessor of every \<open>PersistedNode\<close> reached through \<open>Left\<close> and
  \<open>Right\<close> returns the tree's height, size, version, key, value and hash. The tree in memory is
  unchanged but for stored hashes.\<close>

theorem snapshot_roundtrip:
  assumes "nodeWf n" "hashOK n" "smallKV n" "nleaves n < 2 ^ 32" "kvsSize (leaves n) < 2 ^ 64"
    and "\<forall>i. \<not> ctx i"
  shows "\<exists>d' n' S p. writeSnapshot ver (writeRoot ctx (Some n)) d = Inr (d', Some n') \<and> sameNode n n' \<and>
    OpenSnapshot d' = Inr S \<and> sversion S = ver \<and> sroot S = Some p \<and> presents S p n"
proof -
  obtain d' n' S where w: "writeSnapshot ver (writeRoot ctx (Some n)) d = Inr (d', Some n')" "sameNode n n'"
    "OpenSnapshot d' = Inr S" "sversion S = ver" "sroot S = Some (pnodeFor n 0 0)" "stored S n 0 0"
    using writeSnapshot_open [OF assms(1-5), of ctx ver d] assms(6) by auto
  have "ht n < 124" using assms(1,4) wf_ht_bound [of n] by simp
  then have "presents S (pnodeFor n 0 0) n"
    using stored_presents [OF assms(1) w(6) assms(3)] assms(4) by simp
  then show ?thesis using w by blast
qed

lemma sampleTree_small: "smallKV sampleTree"
proof -
  have "smallKV n \<longleftrightarrow> (\<forall>(k, v) \<in> set (leaves n). length k < 2 ^ 32 \<and> length v < 2 ^ 32)" if "ordered n" for n
    using that by (induction n) (auto simp: valueBytes_def Value_def)
  then show ?thesis using sampleTree_wf sampleTree_leaves by (simp add: nodeWf_def)
qed

theorem snapshot_roundtrip_witness:
  "\<exists>d' n' S p. writeSnapshot 7 (writeRoot (\<lambda>_. False) (Some sampleTree)) (\<lambda>_. None) = Inr (d', Some n') \<and>
    OpenSnapshot d' = Inr S \<and> sroot S = Some p \<and> presents S p sampleTree"
proof -
  have "nleaves sampleTree < 2 ^ 32" "kvsSize (leaves sampleTree) < 2 ^ 64" by (simp_all add: sampleTree_leaves)
  then show ?thesis
    using snapshot_roundtrip [OF sampleTree_wf sampleTree_hashOK sampleTree_small, of "\<lambda>_. False" 7 "\<lambda>_. None"]
    by blast
qed

text \<open>C8: lookups in a snapshot agree with lookups in memory. On the root of a snapshot that stores
  the tree, the binary search of \<open>PersistedNode.Get\<close> returns the same value and index as the
  recursive \<open>MemNode.Get\<close> on the tree, and \<open>PersistedNode.GetByIndex\<close> the same entry as
  \<open>MemNode.GetByIndex\<close>, for every key and every index, without an access outside the files.\<close>

theorem persisted_lookup_agrees:
  assumes "nodeWf n" "stored S n 0 0" "smallKV n" "nleaves n < 2 ^ 32"
  shows "pGet S (pnodeFor n 0 0) k = Some (Get n k) \<and>
    pGetByIndex S (pnodeFor n 0 0) i = Some (GetByIndex n i)"
proof -
  have "unat i < 2 ^ 32" using unsigned_less [of i] by simp
  then show ?thesis
    using stored_Get [OF assms(1,2,3)] stored_GetByIndex [OF assms(1,2,3), of i] assms(4) by simp
qed

theorem persisted_lookup_agrees_witness:
  "\<exists>S. stored S sampleTree 0 0 \<and> pGet S (pnodeFor sampleTree 0 0) [3] = Some (Some [30], 1)"
proof -
  have sz: "nleaves sampleTree < 2 ^ 32" "kvsSize (leaves sampleTree) < 2 ^ 64" by (simp_all add: sampleTree_leaves)
  then obtain S where S: "stored S sampleTree 0 0"
    using writeSnapshot_open [OF sampleTree_wf sampleTree_hashOK sampleTree_small sz, of "\<lambda>_. False" 7 "\<lambda>_. None"]
    by auto
  have "Get sampleTree [3] = (Some [30], 1)"
    using Get_spec [OF sampleTree_wf, of "[3]"] by (simp add: sampleTree_leaves rank_def)
  then show ?thesis
    using persisted_lookup_agrees [OF sampleTree_wf S sampleTree_small sz(1), of "[3]" 0] S by auto
qed

end
