(* ===== verification/MemTree.thy ===== *)
theory MemTree
  imports SnapshotView
begin

text \<open>
  \<open>Tree\<close> of \<open>memiavl/tree.go\<close>: versions, the LRU cache in front of lookups, change sets, and the
  root hash. The cache is the third-party package \<open>cosmos/iavl/cache\<close>: its operations are the
  parameter \<open>ops\<close>, and what is relied on is \<open>cacheLaws\<close>, that a lookup answers with the last value added
  for the key or not at all. The mutex around the cache is not modelled; every operation here is
  one critical section. A snapshot-backed root is read through \<open>viewNode\<close>, the tree its
  \<open>PersistedNode\<close>s show.
\<close>

section \<open>State\<close>

record 'c cacheOps =
  cacheNew :: "int \<Rightarrow> 'c"
  cacheAdd :: "bytes \<Rightarrow> bytes \<Rightarrow> 'c \<Rightarrow> 'c"
  cacheGet :: "bytes \<Rightarrow> 'c \<Rightarrow> bytes option \<times> 'c"
  cacheRemove :: "bytes \<Rightarrow> 'c \<Rightarrow> 'c"

record 'c tree =
  tversion :: u64
  cowVersion :: u64
  troot :: "node option"
  tsnapshot :: "snapshot option"
  tcache :: "'c option"
  zeroCopy :: bool

record kvPair =
  kvDelete :: bool
  kvKey :: bytes
  kvValue :: slice

type_synonym changeSet = "kvPair list"

definition MaxInt64 :: u64 where "MaxInt64 = 0x7fffffffffffffff"

definition emptyHash :: bytes where "emptyHash = sha256 []"

section \<open>Construction\<close>

definition NewCache :: "'c cacheOps \<Rightarrow> int \<Rightarrow> 'c option" where
  "NewCache ops cacheSize = (if cacheSize = 0 then None else Some (cacheNew ops cacheSize))"

definition NewEmptyTree :: "'c cacheOps \<Rightarrow> u64 \<Rightarrow> int \<Rightarrow> 'c tree" where
  "NewEmptyTree ops version cacheSize =
     \<lparr>tversion = version, cowVersion = 0, troot = None, tsnapshot = None,
      tcache = NewCache ops cacheSize, zeroCopy = True\<rparr>"

definition NewTree :: "'c cacheOps \<Rightarrow> int \<Rightarrow> 'c tree" where
  "NewTree ops cacheSize = NewEmptyTree ops 0 cacheSize"

definition NewWithInitialVersion :: "'c cacheOps \<Rightarrow> u64 \<Rightarrow> int \<Rightarrow> 'c tree" where
  "NewWithInitialVersion ops initialVersion cacheSize =
     (if initialVersion \<le> 1 then NewTree ops cacheSize
      else NewEmptyTree ops (initialVersion - 1) cacheSize)"

text \<open>
  The tree that a persisted node shows, read node by node. The fuel is the depth; a
  tree of a snapshot is lower than 124, so 256 is enough.
\<close>

fun viewNode :: "nat \<Rightarrow> snapshot \<Rightarrow> pnode \<Rightarrow> node option" where
  "viewNode 0 S p = None"
| "viewNode (Suc f) S p =
     do {
       version \<leftarrow> pVersion S p;
       key \<leftarrow> pKey S p;
       value \<leftarrow> pValue S p;
       hash \<leftarrow> pHash S p;
       let m = \<lparr>nversion = version, nkey = key, nvalue = value, nhash = Some hash, persisted = True\<rparr>;
       if pIsLeaf p then Some (Leaf m)
       else do {
         h \<leftarrow> pHeight S p;
         sz \<leftarrow> pSize S p;
         pl \<leftarrow> pLeft S p;
         pr \<leftarrow> pRight S p;
         l \<leftarrow> viewNode f S pl;
         r \<leftarrow> viewNode f S pr;
         Some (Branch h sz m l r)
       }
     }"

definition viewRoot :: "snapshot \<Rightarrow> node option" where
  "viewRoot S = do { p \<leftarrow> sroot S; viewNode 256 S p }"

definition NewFromSnapshot :: "'c cacheOps \<Rightarrow> snapshot \<Rightarrow> bool \<Rightarrow> int \<Rightarrow> 'c tree" where
  "NewFromSnapshot ops S zc cacheSize =
     \<lparr>tversion = sversion S, cowVersion = 0, troot = (if snapIsEmpty S then None else viewRoot S),
      tsnapshot = Some S, tcache = NewCache ops cacheSize, zeroCopy = zc\<rparr>"

section \<open>Versions\<close>

definition treeIsEmpty :: "'c tree \<Rightarrow> bool" where
  "treeIsEmpty t \<longleftrightarrow> troot t = None"

definition setInitialVersion :: "u64 \<Rightarrow> 'c tree \<Rightarrow> 'c tree" where
  "setInitialVersion initialVersion t =
     (if 0 < tversion t then t
      else if initialVersion < 1 then t\<lparr>tversion := 0\<rparr>
      else t\<lparr>tversion := initialVersion - 1\<rparr>)"

datatype treeError = NegativeInitialVersion | VersionOverflow

definition SetInitialVersion :: "int \<Rightarrow> 'c tree \<Rightarrow> treeError + 'c tree" where
  "SetInitialVersion initialVersion t =
     (if initialVersion < 0 then Inl NegativeInitialVersion
      else Inr (setInitialVersion (of_int initialVersion) t))"

definition SetZeroCopy :: "bool \<Rightarrow> 'c tree \<Rightarrow> 'c tree" where
  "SetZeroCopy zc t = t\<lparr>zeroCopy := zc\<rparr>"

definition isMemRoot :: "node option \<Rightarrow> bool" where
  "isMemRoot rt = (case rt of None \<Rightarrow> False | Some n \<Rightarrow> \<not> persisted (meta n))"

text \<open>\<open>Copy\<close> changes the receiver too: its in-memory nodes are protected from now on.\<close>

definition treeCopy :: "'c cacheOps \<Rightarrow> int \<Rightarrow> 'c tree \<Rightarrow> 'c tree \<times> 'c tree" where
  "treeCopy ops cacheSize t =
     (let t1 = (if isMemRoot (troot t) then t\<lparr>cowVersion := tversion t\<rparr> else t)
      in (t1, t1\<lparr>tcache := NewCache ops cacheSize\<rparr>))"

definition treeClose :: "'c tree \<Rightarrow> 'c tree" where
  "treeClose t = t\<lparr>tsnapshot := None, troot := None\<rparr>"

section \<open>Changes\<close>

definition treeSet :: "'c cacheOps \<Rightarrow> bytes \<Rightarrow> slice \<Rightarrow> 'c tree \<Rightarrow> 'c tree" where
  "treeSet ops key value t =
     (let v = (case value of None \<Rightarrow> [] | Some x \<Rightarrow> x);
          t1 = t\<lparr>troot := Some (fst (setRecursive (troot t) key (Some v) (tversion t + 1) (cowVersion t)))\<rparr>
      in t1\<lparr>tcache := map_option (cacheAdd ops key v) (tcache t1)\<rparr>)"

definition treeRemove :: "'c cacheOps \<Rightarrow> bytes \<Rightarrow> 'c tree \<Rightarrow> 'c tree" where
  "treeRemove ops key t =
     (let t1 = t\<lparr>troot := fst (snd (removeRecursive (troot t) key (tversion t + 1) (cowVersion t)))\<rparr>
      in t1\<lparr>tcache := map_option (cacheRemove ops key) (tcache t1)\<rparr>)"

definition applyPair :: "'c cacheOps \<Rightarrow> kvPair \<Rightarrow> 'c tree \<Rightarrow> 'c tree" where
  "applyPair ops pair t =
     (if kvDelete pair then treeRemove ops (kvKey pair) t else treeSet ops (kvKey pair) (kvValue pair) t)"

definition ApplyChangeSet :: "'c cacheOps \<Rightarrow> changeSet \<Rightarrow> 'c tree \<Rightarrow> 'c tree" where
  "ApplyChangeSet ops cs t = fold (applyPair ops) cs t"

definition treeRootHash :: "'c tree \<Rightarrow> bytes \<times> 'c tree" where
  "treeRootHash t =
     (case troot t of
        None \<Rightarrow> (emptyHash, t)
      | Some n \<Rightarrow> (let (h, n') = Hash n in (h, t\<lparr>troot := Some n'\<rparr>)))"

text \<open>
  The comparison with \<open>math.MaxInt64\<close> is made after the 64-bit addition, as in the source.
\<close>

definition treeSaveVersion :: "bool \<Rightarrow> 'c tree \<Rightarrow> treeError + (slice \<times> u64) \<times> 'c tree" where
  "treeSaveVersion updateHash t =
     (if MaxInt64 < tversion t + 1 then Inl VersionOverflow
      else
        (let (hash, t1) = (if updateHash then (case treeRootHash t of (h, t') \<Rightarrow> (Some h, t')) else (None, t));
             t2 = t1\<lparr>tversion := tversion t1 + 1\<rparr>
         in Inr ((hash, tversion t2), t2)))"

definition treeVersion :: "'c tree \<Rightarrow> treeError + u64" where
  "treeVersion t = (if MaxInt64 < tversion t then Inl VersionOverflow else Inr (tversion t))"

section \<open>Lookups\<close>

definition GetWithIndex :: "'c tree \<Rightarrow> bytes \<Rightarrow> u32 \<times> slice" where
  "GetWithIndex t key =
     (case troot t of None \<Rightarrow> (0, None) | Some n \<Rightarrow> (let (value, index) = Get n key in (index, value)))"

definition treeGetByIndex :: "'c tree \<Rightarrow> int \<Rightarrow> (bytes \<times> slice) option" where
  "treeGetByIndex t index =
     (if index > 0xffffffff then None
      else case troot t of None \<Rightarrow> None | Some n \<Rightarrow> GetByIndex n (of_int index))"

definition treeGet :: "'c cacheOps \<Rightarrow> bytes \<Rightarrow> 'c tree \<Rightarrow> slice \<times> 'c tree" where
  "treeGet ops key t =
     (let (hit, t1) =
        (case tcache t of
           None \<Rightarrow> (None, t)
         | Some c \<Rightarrow> (let (v, c') = cacheGet ops key c in (v, t\<lparr>tcache := Some c'\<rparr>)))
      in case hit of
           Some v \<Rightarrow> (Some v, t1)
         | None \<Rightarrow>
             (case snd (GetWithIndex t1 key) of
                None \<Rightarrow> (None, t1)
              | Some v \<Rightarrow> (Some v, t1\<lparr>tcache := map_option (cacheAdd ops key v) (tcache t1)\<rparr>)))"

definition treeHas :: "'c cacheOps \<Rightarrow> bytes \<Rightarrow> 'c tree \<Rightarrow> bool \<times> 'c tree" where
  "treeHas ops key t = (case treeGet ops key t of (v, t') \<Rightarrow> (v \<noteq> None, t'))"

section \<open>Snapshots of a tree\<close>

definition WriteSnapshot ::
  "(u32 \<Rightarrow> bool) \<Rightarrow> dir \<Rightarrow> 'c tree \<Rightarrow> writeError + dir \<times> 'c tree" where
  "WriteSnapshot ctx d t =
     andThen (writeSnapshot (tversion t) (writeRoot ctx (troot t)) d)
       (\<lambda>(d', rt). Inr (d', t\<lparr>troot := rt\<rparr>))"

section \<open>Invariant\<close>

text \<open>What the code relies on of the cache package; \<open>view\<close> is the content of a cache.\<close>

definition cacheLaws :: "'c cacheOps \<Rightarrow> ('c \<Rightarrow> bytes \<rightharpoonup> bytes) \<Rightarrow> bool" where
  "cacheLaws ops view \<longleftrightarrow>
     (\<forall>n. view (cacheNew ops n) = Map.empty) \<and>
     (\<forall>k c. fst (cacheGet ops k c) = view c k \<and> view (snd (cacheGet ops k c)) \<subseteq>\<^sub>m view c) \<and>
     (\<forall>k v c. view (cacheAdd ops k v c) \<subseteq>\<^sub>m (view c)(k \<mapsto> v)) \<and>
     (\<forall>k c. view (cacheRemove ops k c) \<subseteq>\<^sub>m (view c)(k := None))"

abbreviation treeMap :: "'c tree \<Rightarrow> bytes \<rightharpoonup> bytes" where
  "treeMap t \<equiv> map_of (rootLeaves (troot t))"

definition cacheOK :: "('c \<Rightarrow> bytes \<rightharpoonup> bytes) \<Rightarrow> 'c tree \<Rightarrow> bool" where
  "cacheOK view t \<longleftrightarrow> (\<forall>c. tcache t = Some c \<longrightarrow> view c \<subseteq>\<^sub>m treeMap t)"

definition treeOK :: "('c \<Rightarrow> bytes \<rightharpoonup> bytes) \<Rightarrow> 'c tree \<Rightarrow> bool" where
  "treeOK view t \<longleftrightarrow> rootWf (troot t) \<and> rootHashOK (troot t) \<and> cacheOK view t"

section \<open>Stores of key-value pairs\<close>

text \<open>
  The contract of an ordered store with bounded capacity: insertion and deletion act on the sorted
  entries. What the multi tree and the log replay need of a store is proved once here.
\<close>

locale kv_store =
  fixes put :: "bytes \<Rightarrow> bytes \<Rightarrow> 's \<Rightarrow> 's" and del :: "bytes \<Rightarrow> 's \<Rightarrow> 's"
    and entries :: "'s \<Rightarrow> (bytes \<times> bytes) list" and inv :: "'s \<Rightarrow> bool" and cap :: nat
  assumes inv_sorted: "inv s \<Longrightarrow> sorted_wrt (<) (map fst (entries s))"
    and entries_put: "inv s \<Longrightarrow> length (entries s) < cap \<Longrightarrow> entries (put k v s) = putKV k v (entries s)"
    and inv_put: "inv s \<Longrightarrow> length (entries s) < cap \<Longrightarrow> inv (put k v s)"
    and entries_del: "inv s \<Longrightarrow> length (entries s) < cap \<Longrightarrow> entries (del k s) = delKV k (entries s)"
    and inv_del: "inv s \<Longrightarrow> length (entries s) < cap \<Longrightarrow> inv (del k s)"
begin

definition run1 :: "bool \<times> bytes \<times> bytes \<Rightarrow> 's \<Rightarrow> 's" where
  "run1 c s = (case c of (d, k, v) \<Rightarrow> if d then del k s else put k v s)"

definition spec1 :: "bool \<times> bytes \<times> bytes \<Rightarrow> (bytes \<rightharpoonup> bytes) \<Rightarrow> bytes \<rightharpoonup> bytes" where
  "spec1 c m = (case c of (d, k, v) \<Rightarrow> if d then m(k := None) else m(k \<mapsto> v))"

lemma inv_distinct: "inv s \<Longrightarrow> distinct (map fst (entries s))"
  using inv_sorted strict_sorted_iff by blast

lemma run1_step:
  assumes "inv s" "length (entries s) < cap"
  shows "inv (run1 c s)" "map_of (entries (run1 c s)) = spec1 c (map_of (entries s))"
    "length (entries (run1 c s)) \<le> Suc (length (entries s))"
proof -
  obtain d k v where c: "c = (d, k, v)" by (cases c) auto
  note e = entries_put [OF assms, of k v] entries_del [OF assms, of k]
  show "inv (run1 c s)" using c assms by (simp add: run1_def inv_put inv_del)
  show "map_of (entries (run1 c s)) = spec1 c (map_of (entries s))"
    using c e by (simp add: run1_def spec1_def map_of_putKV map_of_delKV)
  show "length (entries (run1 c s)) \<le> Suc (length (entries s))"
    using c e length_putKV [OF inv_distinct [OF assms(1)], of k v]
    by (simp add: run1_def delKV_def le_SucI)
qed

lemma run_fold:
  "inv s \<Longrightarrow> length (entries s) + length cs \<le> cap \<Longrightarrow>
   inv (fold run1 cs s) \<and> map_of (entries (fold run1 cs s)) = fold spec1 cs (map_of (entries s)) \<and>
   length (entries (fold run1 cs s)) \<le> length (entries s) + length cs"
proof (induction cs arbitrary: s)
  case (Cons c cs)
  then have "length (entries s) < cap" by simp
  note r = run1_step [OF Cons.prems(1) this, of c]
  have "length (entries (run1 c s)) + length cs \<le> cap" using r(3) Cons.prems(2) by simp
  note IH = Cons.IH [OF r(1) this]
  have "length (entries (fold run1 cs (run1 c s))) \<le> length (entries s) + length (c # cs)"
    using IH r(3) by simp
  then show ?case using IH r(2) by simp
qed simp

lemma run_last_write_wins:
  assumes "inv s" "length (entries s) + length (cs @ [c]) \<le> cap" "c = (d, k, v)"
  shows "map_of (entries (fold run1 (cs @ [c]) s)) k = (if d then None else Some v)"
  using run_fold [OF assms(1,2)] assms(3) by (simp add: spec1_def)

end

section \<open>The tree is such a store\<close>

lemma treeOK_new: "cacheLaws ops view \<Longrightarrow> treeOK view (NewEmptyTree ops v n)"
  by (auto simp: treeOK_def cacheOK_def NewEmptyTree_def NewCache_def cacheLaws_def split: if_splits)

lemma rootLeaves_treeSet:
  "rootWf (troot t) \<Longrightarrow>
   rootLeaves (troot (treeSet ops k v t)) = putKV k (case v of None \<Rightarrow> [] | Some x \<Rightarrow> x) (rootLeaves (troot t))"
  by (simp add: treeSet_def Let_def setRecursive_leaves)

lemma rootLeaves_treeRemove:
  "rootWf (troot t) \<Longrightarrow> rootLeaves (troot (treeRemove ops k t)) = delKV k (rootLeaves (troot t))"
  by (simp add: treeRemove_def Let_def removeRecursive_leaves)

lemma treeSet_OK:
  assumes "cacheLaws ops view" "treeOK view t" "length (rootLeaves (troot t)) < 2 ^ 62"
  shows "treeOK view (treeSet ops k v t)"
proof -
  let ?v = "case v of None \<Rightarrow> [] | Some x \<Rightarrow> x"
  have w: "rootWf (troot t)" "rootHashOK (troot t)" "cacheOK view t" using assms(2) by (auto simp: treeOK_def)
  have "cacheOK view (treeSet ops k v t)"
    unfolding cacheOK_def rootLeaves_treeSet [OF w(1)] map_of_putKV
  proof (intro allI impI)
    fix c assume "tcache (treeSet ops k v t) = Some c"
    then obtain c0 where c0: "tcache t = Some c0" "c = cacheAdd ops k ?v c0"
      by (auto simp: treeSet_def Let_def)
    then have "view c \<subseteq>\<^sub>m (view c0)(k \<mapsto> ?v)" using assms(1) by (simp add: cacheLaws_def)
    moreover have "view c0 \<subseteq>\<^sub>m treeMap t" using w(3) c0(1) by (simp add: cacheOK_def)
    then have "(view c0)(k \<mapsto> ?v) \<subseteq>\<^sub>m (treeMap t)(k \<mapsto> ?v)" by (rule map_le_upd)
    ultimately show "view c \<subseteq>\<^sub>m (treeMap t)(k \<mapsto> ?v)" by (rule map_le_trans)
  qed
  then show ?thesis
    using w assms(3) by (simp add: treeOK_def treeSet_def Let_def setRecursive_wf setRecursive_hashOK)
qed

lemma treeRemove_OK:
  assumes "cacheLaws ops view" "treeOK view t" "length (rootLeaves (troot t)) < 2 ^ 62"
  shows "treeOK view (treeRemove ops k t)"
proof -
  have w: "rootWf (troot t)" "rootHashOK (troot t)" "cacheOK view t" using assms(2) by (auto simp: treeOK_def)
  have "cacheOK view (treeRemove ops k t)"
    unfolding cacheOK_def rootLeaves_treeRemove [OF w(1)] map_of_delKV
  proof (intro allI impI)
    fix c assume "tcache (treeRemove ops k t) = Some c"
    then obtain c0 where c0: "tcache t = Some c0" "c = cacheRemove ops k c0"
      by (auto simp: treeRemove_def Let_def)
    then have "view c \<subseteq>\<^sub>m (view c0)(k := None)" using assms(1) by (simp add: cacheLaws_def)
    moreover have "view c0 \<subseteq>\<^sub>m treeMap t" using w(3) c0(1) by (simp add: cacheOK_def)
    then have "(view c0)(k := None) \<subseteq>\<^sub>m (treeMap t)(k := None)" by (auto simp: map_le_def)
    ultimately show "view c \<subseteq>\<^sub>m (treeMap t)(k := None)" by (rule map_le_trans)
  qed
  then show ?thesis
    using w assms(3) by (simp add: treeOK_def treeRemove_def Let_def removeRecursive_wf removeRecursive_hashOK)
qed

interpretation mem: kv_store "\<lambda>k v. treeSet ops k (Some v)" "treeRemove ops"
  "\<lambda>t. rootLeaves (troot t)" "\<lambda>t. cacheLaws ops view \<and> treeOK view t" "2 ^ 62"
  for ops :: "'c cacheOps" and view
proof unfold_locales
  fix t :: "'c tree" and k :: bytes and v :: bytes
  assume inv: "cacheLaws ops view \<and> treeOK view t"
  then have w: "rootWf (troot t)" by (simp add: treeOK_def)
  show "sorted_wrt (<) (map fst (rootLeaves (troot t)))" by (rule rootWf_sorted [OF w])
  show "rootLeaves (troot (treeSet ops k (Some v) t)) = putKV k v (rootLeaves (troot t))"
    "rootLeaves (troot (treeRemove ops k t)) = delKV k (rootLeaves (troot t))"
    using w by (simp_all add: rootLeaves_treeSet rootLeaves_treeRemove)
  assume "length (rootLeaves (troot t)) < 2 ^ 62"
  then show "cacheLaws ops view \<and> treeOK view (treeSet ops k (Some v) t)"
    "cacheLaws ops view \<and> treeOK view (treeRemove ops k t)"
    using inv treeSet_OK treeRemove_OK by blast+
qed

text \<open>A change of the code as a change of the abstract map: a nil value is stored as empty.\<close>

definition pairOf :: "kvPair \<Rightarrow> bool \<times> bytes \<times> bytes" where
  "pairOf p = (kvDelete p, kvKey p, case kvValue p of None \<Rightarrow> [] | Some x \<Rightarrow> x)"

definition specPair :: "kvPair \<Rightarrow> (bytes \<rightharpoonup> bytes) \<Rightarrow> bytes \<rightharpoonup> bytes" where
  "specPair p m =
     (if kvDelete p then m(kvKey p := None)
      else m(kvKey p \<mapsto> (case kvValue p of None \<Rightarrow> [] | Some x \<Rightarrow> x)))"

lemma treeSet_nil: "treeSet ops k v t = treeSet ops k (Some (case v of None \<Rightarrow> [] | Some x \<Rightarrow> x)) t"
  by (simp add: treeSet_def)

lemma applyPair_run1: "applyPair ops p = mem.run1 ops (pairOf p)"
  using treeSet_nil [of ops "kvKey p" "kvValue p"]
  by (auto simp: fun_eq_iff applyPair_def mem.run1_def pairOf_def)

lemma specPair_spec1: "specPair p = mem.spec1 (pairOf p)"
  by (auto simp: fun_eq_iff specPair_def mem.spec1_def pairOf_def)

lemma ApplyChangeSet_run:
  "ApplyChangeSet ops cs t = fold (mem.run1 ops) (map pairOf cs) t"
  "fold specPair cs m = fold mem.spec1 (map pairOf cs) m"
  by (simp_all add: ApplyChangeSet_def applyPair_run1 [abs_def] specPair_spec1 [abs_def] fold_map comp_def)

lemma applyPair_version [simp]:
  "tversion (applyPair ops p t) = tversion t" "cowVersion (applyPair ops p t) = cowVersion t"
  "tsnapshot (applyPair ops p t) = tsnapshot t"
  by (simp_all add: applyPair_def treeSet_def treeRemove_def Let_def)

lemma ApplyChangeSet_version [simp]:
  "tversion (ApplyChangeSet ops cs t) = tversion t" "cowVersion (ApplyChangeSet ops cs t) = cowVersion t"
  "tsnapshot (ApplyChangeSet ops cs t) = tsnapshot t"
  unfolding ApplyChangeSet_def by (induction cs arbitrary: t) simp_all

lemma ApplyChangeSet_OK:
  assumes "cacheLaws ops view" "treeOK view t" "length (rootLeaves (troot t)) + length cs \<le> 2 ^ 62"
  shows "treeOK view (ApplyChangeSet ops cs t)" "treeMap (ApplyChangeSet ops cs t) = fold specPair cs (treeMap t)"
    "length (rootLeaves (troot (ApplyChangeSet ops cs t))) \<le> length (rootLeaves (troot t)) + length cs"
  using mem.run_fold [of ops view t "map pairOf cs"] assms by (auto simp: ApplyChangeSet_run)

lemma GetWithIndex_map:
  assumes "rootWf (troot t)"
  shows "snd (GetWithIndex t k) = treeMap t k"
  using assms by (cases "troot t") (auto simp: GetWithIndex_def Get_spec)

lemma treeGet_spec:
  assumes laws: "cacheLaws ops view" and ok: "treeOK view t"
  shows "fst (treeGet ops k t) = treeMap t k" "treeOK view (snd (treeGet ops k t))"
    "troot (snd (treeGet ops k t)) = troot t" "tversion (snd (treeGet ops k t)) = tversion t"
proof -
  have w: "rootWf (troot t)" "rootHashOK (troot t)" using ok by (auto simp: treeOK_def)
  have "fst (treeGet ops k t) = treeMap t k \<and> treeOK view (snd (treeGet ops k t)) \<and>
    troot (snd (treeGet ops k t)) = troot t \<and> tversion (snd (treeGet ops k t)) = tversion t"
  proof (cases "tcache t")
    case None
    then show ?thesis
      using ok GetWithIndex_map [OF w(1), of k]
      by (auto simp: treeGet_def treeOK_def cacheOK_def split: option.splits)
  next
    case (Some c)
    obtain hit c' where g: "cacheGet ops k c = (hit, c')" by fastforce
    have hit: "hit = view c k" "view c' \<subseteq>\<^sub>m view c" using laws g unfolding cacheLaws_def by (metis fst_conv, metis snd_conv)
    have sub: "view c \<subseteq>\<^sub>m treeMap t" using ok Some by (simp add: treeOK_def cacheOK_def)
    define t1 where "t1 = t\<lparr>tcache := Some c'\<rparr>"
    have ok1: "treeOK view t1" using ok map_le_trans [OF hit(2) sub] by (simp add: treeOK_def cacheOK_def t1_def)
    show ?thesis
    proof (cases hit)
      case (Some v)
      then have "treeMap t k = Some v" using sub hit(1) by (metis domI map_le_def)
      then show ?thesis using \<open>tcache t = Some c\<close> g Some ok1 by (simp add: treeGet_def t1_def)
    next
      case None
      have gi: "snd (GetWithIndex t1 k) = treeMap t k" using GetWithIndex_map [of t1 k] w(1) by (simp add: t1_def)
      show ?thesis
      proof (cases "treeMap t k")
        case tn: None
        then show ?thesis using \<open>tcache t = Some c\<close> g None gi ok1 by (simp add: treeGet_def t1_def)
      next
        case (Some v)
        have "view (cacheAdd ops k v c') \<subseteq>\<^sub>m (view c')(k \<mapsto> v)" using laws by (simp add: cacheLaws_def)
        moreover have "(view c')(k \<mapsto> v) \<subseteq>\<^sub>m (treeMap t)(k \<mapsto> v)"
          using map_le_trans [OF hit(2) sub] by (rule map_le_upd)
        ultimately have "view (cacheAdd ops k v c') \<subseteq>\<^sub>m (treeMap t)(k \<mapsto> v)" by (rule map_le_trans)
        then have "view (cacheAdd ops k v c') \<subseteq>\<^sub>m treeMap t" using Some by (simp add: map_upd_triv)
        then show ?thesis
          using \<open>tcache t = Some c\<close> g None gi Some w by (simp add: treeGet_def t1_def treeOK_def cacheOK_def)
      qed
    qed
  qed
  then show "fst (treeGet ops k t) = treeMap t k" "treeOK view (snd (treeGet ops k t))"
    "troot (snd (treeGet ops k t)) = troot t" "tversion (snd (treeGet ops k t)) = tversion t" by auto
qed

fun rootMerkle :: "node option \<Rightarrow> bytes" where
  "rootMerkle None = emptyHash"
| "rootMerkle (Some n) = merkle n"

lemma treeRootHash_spec:
  assumes "treeOK view t"
  shows "fst (treeRootHash t) = rootMerkle (troot t)" "treeOK view (snd (treeRootHash t))"
    "rootLeaves (troot (snd (treeRootHash t))) = rootLeaves (troot t)"
    "rootMerkle (troot (snd (treeRootHash t))) = rootMerkle (troot t)"
    "tversion (snd (treeRootHash t)) = tversion t"
proof -
  have "fst (treeRootHash t) = rootMerkle (troot t) \<and> treeOK view (snd (treeRootHash t)) \<and>
    rootLeaves (troot (snd (treeRootHash t))) = rootLeaves (troot t) \<and>
    rootMerkle (troot (snd (treeRootHash t))) = rootMerkle (troot t) \<and>
    tversion (snd (treeRootHash t)) = tversion t"
  proof (cases "troot t")
    case None
    then show ?thesis using assms by (simp add: treeRootHash_def)
  next
    case (Some n)
    have h: "hashOK n" "balanced n" "nodeWf n" using assms Some by (auto simp: treeOK_def nodeWf_def)
    obtain x n' where H: "Hash n = (x, n')" by fastforce
    note HM = Hash_merkle [OF h(1,2), unfolded H]
    then have f: "leaves n' = leaves n" "merkle n' = merkle n" "nodeWf n'"
      using sameNode_facts [of n n'] h(3) by (auto simp: nodeWf_def)
    show ?thesis using assms Some H HM f by (auto simp: treeRootHash_def treeOK_def cacheOK_def)
  qed
  then show "fst (treeRootHash t) = rootMerkle (troot t)" "treeOK view (snd (treeRootHash t))"
    "rootLeaves (troot (snd (treeRootHash t))) = rootLeaves (troot t)"
    "rootMerkle (troot (snd (treeRootHash t))) = rootMerkle (troot t)"
    "tversion (snd (treeRootHash t)) = tversion t" by auto
qed

section \<open>Reading a written tree back\<close>

fun persist :: "node \<Rightarrow> node" where
  "persist (Leaf m) = Leaf (m\<lparr>nhash := Some (merkle (Leaf m)), persisted := True\<rparr>)"
| "persist (Branch h s m l r) =
     Branch h s (m\<lparr>nhash := Some (merkle (Branch h s m l r)), persisted := True\<rparr>) (persist l) (persist r)"

lemma merkle_strip: "merkle (strip n) = merkle n"
  by (induction n) (simp_all add: leafHashBytes_def branchHashBytes_def hash_defs)

lemma strip_sameNode: "sameNode n n' \<Longrightarrow> strip n = strip n'"
proof (induction n n' rule: sameNode.induct)
  case (1 m m')
  then have "m\<lparr>nhash := None\<rparr>\<lparr>persisted := False\<rparr> = m'\<lparr>nhash := None\<rparr>\<lparr>persisted := False\<rparr>" by (simp only: sameNode.simps)
  then show ?case by simp
next
  case (2 h s m l r h' s' m' l' r')
  then have "m\<lparr>nhash := None\<rparr>\<lparr>persisted := False\<rparr> = m'\<lparr>nhash := None\<rparr>\<lparr>persisted := False\<rparr>" by (simp only: sameNode.simps)
  then show ?case using 2 by simp
qed simp_all

lemma strip_persist [simp]: "strip (persist n) = strip n"
  by (induction n) simp_all

lemma merkle_persist [simp]: "merkle (persist n) = merkle n"
  using merkle_strip [of n] merkle_strip [of "persist n"] by simp

lemma persist_facts [simp]:
  "leaves (persist n) = leaves n" "ht (persist n) = ht n" "hashOK (persist n)"
  "balanced (persist n) = balanced n" "sized (persist n) = sized n" "ordered (persist n) = ordered n"
proof -
  show l: "leaves (persist n) = leaves n" for n by (induction n) simp_all
  then have k: "keys (persist n) = keys n" for n by (rule keys_cong)
  show h: "ht (persist n) = ht n" for n by (induction n) simp_all
  show "balanced (persist n) = balanced n" "sized (persist n) = sized n" "ordered (persist n) = ordered n"
    by (induction n) (simp_all add: l h k)
  have m: "merkle (Branch h s (a\<lparr>nhash := x, persisted := y\<rparr>) (persist l) (persist r)) = merkle (Branch h s a l r)"
    for h s a x y l r
    by (simp add: branchHashBytes_def hash_defs)
  have m': "merkle (Leaf (a\<lparr>nhash := x, persisted := y\<rparr>)) = merkle (Leaf a)" for a x y
    by (simp add: leafHashBytes_def hash_defs)
  show "hashOK (persist n)" by (induction n) (simp_all add: m m' del: merkle.simps)
qed

lemma nodeWf_persist [simp]: "nodeWf (persist n) = nodeWf n"
  by (simp add: nodeWf_def)

lemma presents_view: "presents S p n \<Longrightarrow> ht n < f \<Longrightarrow> viewNode f S p = Some (persist n)"
proof (induction n arbitrary: p f)
  case (Leaf m)
  then show ?case by (cases f) (auto simp: Let_def simp del: merkle.simps)
next
  case (Branch h s m l r)
  obtain f' where f: "f = Suc f'" using Branch.prems(2) by (cases f) auto
  obtain pl pr where p: "pLeft S p = Some pl" "presents S pl l" "pRight S p = Some pr" "presents S pr r"
    using Branch.prems(1) by auto
  have "viewNode f' S pl = Some (persist l)" "viewNode f' S pr = Some (persist r)"
    using Branch.IH p Branch.prems(2) f by auto
  then show ?case using Branch.prems(1) p f by (auto simp: Let_def simp del: merkle.simps)
qed

definition storable :: "node option \<Rightarrow> bool" where
  "storable rt \<longleftrightarrow> (case rt of None \<Rightarrow> True
     | Some n \<Rightarrow> smallKV n \<and> nleaves n < 2 ^ 32 \<and> kvsSize (leaves n) < 2 ^ 64)"

lemma WriteSnapshot_restore:
  assumes ok: "treeOK view t" and sto: "storable (troot t)" and ctx: "\<forall>i. \<not> ctx i" and laws: "cacheLaws ops view"
  shows "\<exists>d' t' S. WriteSnapshot ctx d t = Inr (d', t') \<and> treeOK view t' \<and> treeMap t' = treeMap t \<and>
    OpenSnapshot d' = Inr S \<and> sversion S = tversion t \<and>
    treeOK view (NewFromSnapshot ops S zc n) \<and> tversion (NewFromSnapshot ops S zc n) = tversion t \<and>
    rootLeaves (troot (NewFromSnapshot ops S zc n)) = rootLeaves (troot t) \<and>
    rootMerkle (troot (NewFromSnapshot ops S zc n)) = rootMerkle (troot t) \<and>
    map_option strip (troot (NewFromSnapshot ops S zc n)) = map_option strip (troot t) \<and>
    map_option strip (troot t') = map_option strip (troot t) \<and> tversion t' = tversion t"
proof -
  have nc: "tcache (NewFromSnapshot ops S zc n) = Some c \<Longrightarrow> view c = Map.empty" for S c
    using laws by (auto simp: NewFromSnapshot_def NewCache_def cacheLaws_def split: if_splits)
  show ?thesis
  proof (cases "troot t")
    case None
    define d' where "d' = d(''nodes'' \<mapsto> [], ''leaves'' \<mapsto> [], ''kvs'' \<mapsto> [],
      ''metadata'' \<mapsto> metadataBytes (tversion t))"
    define S where "S = NewEmptySnapshot (tversion t)"
    have "WriteSnapshot ctx d t = Inr (d', t)"
      using None by (simp add: WriteSnapshot_def writeSnapshot_def writeRoot_def d'_def newSnapshotWriter_def Let_def)
    moreover have "OpenSnapshot d' = Inr S"
      by (simp add: OpenSnapshot_def readFile_def d'_def S_def NewEmptySnapshot_def SizeNode_def SizeLeaf_def Let_def)
    moreover have "treeOK view (NewFromSnapshot ops S zc n)"
      using nc [of S] by (auto simp: treeOK_def cacheOK_def NewFromSnapshot_def S_def NewEmptySnapshot_def snapIsEmpty_def)
    ultimately show ?thesis
      using None ok by (intro exI [of _ d'] exI [of _ t] exI [of _ S])
        (simp add: NewFromSnapshot_def S_def NewEmptySnapshot_def snapIsEmpty_def)
  next
    case (Some nd)
    have w: "nodeWf nd" "hashOK nd" using ok Some by (auto simp: treeOK_def)
    have sm: "smallKV nd" "nleaves nd < 2 ^ 32" "kvsSize (leaves nd) < 2 ^ 64" using sto Some by (auto simp: storable_def)
    obtain d' nd' S where wr: "writeSnapshot (tversion t) (writeRoot ctx (Some nd)) d = Inr (d', Some nd')"
      "sameNode nd nd'" "hashOK nd'" "OpenSnapshot d' = Inr S" "sversion S = tversion t"
      "sroot S = Some (pnodeFor nd 0 0)" "stored S nd 0 0"
      using writeSnapshot_open [OF w sm ctx, of "tversion t" d] by blast
    have "ht nd < 124" using w(1) sm(2) wf_ht_bound [of nd] by simp
    then have "presents S (pnodeFor nd 0 0) nd" "ht nd < 256"
      using stored_presents [OF w(1) wr(7) sm(1)] sm(2) by simp_all
    then have v: "viewRoot S = Some (persist nd)" using wr(6) presents_view by (simp add: viewRoot_def)
    have rt: "troot (NewFromSnapshot ops S zc n) = Some (persist nd)"
      using v wr(6) by (simp add: NewFromSnapshot_def snapIsEmpty_def)
    have ok2: "treeOK view (NewFromSnapshot ops S zc n)"
      using nc [of S] rt w(1) by (auto simp: treeOK_def cacheOK_def)
    have f: "leaves nd' = leaves nd" "nodeWf nd'"
      using sameNode_facts [OF wr(2)] w(1) by (auto simp: nodeWf_def)
    have "WriteSnapshot ctx d t = Inr (d', t\<lparr>troot := Some nd'\<rparr>)"
      using wr(1) Some by (simp add: WriteSnapshot_def)
    moreover have "treeOK view (t\<lparr>troot := Some nd'\<rparr>)"
      using ok Some f wr(3) by (simp add: treeOK_def cacheOK_def)
    ultimately show ?thesis
      using ok2 rt wr(4,5) Some f strip_sameNode [OF wr(2)]
      by (intro exI [of _ d'] exI [of _ "t\<lparr>troot := Some nd'\<rparr>"] exI [of _ S]) (simp add: NewFromSnapshot_def)
  qed
qed

section \<open>Properties\<close>

text \<open>A bounded cache with first-in first-out eviction, on which the hypothesis on the cache holds.\<close>

definition fifoOps :: "(nat \<times> (bytes \<times> bytes) list) cacheOps" where
  "fifoOps = \<lparr>cacheNew = (\<lambda>n. (nat n, [])),
     cacheAdd = (\<lambda>k v (n, xs). (n, take n ((k, v) # delKV k xs))),
     cacheGet = (\<lambda>k (n, xs). (map_of xs k, (n, xs))),
     cacheRemove = (\<lambda>k (n, xs). (n, delKV k xs))\<rparr>"

definition fifoView :: "nat \<times> (bytes \<times> bytes) list \<Rightarrow> bytes \<rightharpoonup> bytes" where
  "fifoView c = map_of (snd c)"

lemma map_of_take_sub: "map_of (take n xs) k = Some v \<Longrightarrow> map_of xs k = Some v"
  by (metis append_take_drop_id map_add_find_right map_of_append)

lemma fifo_laws: "cacheLaws fifoOps fifoView"
  unfolding cacheLaws_def
proof (intro conjI allI)
  fix k v and c :: "nat \<times> (bytes \<times> bytes) list"
  obtain n xs where c: "c = (n, xs)" by (cases c)
  have "map_of (take n ((k, v) # delKV k xs)) x = Some y \<Longrightarrow> ((map_of xs)(k \<mapsto> v)) x = Some y" for x y
    using map_of_take_sub [of n "(k, v) # delKV k xs" x y] by (auto simp: map_of_delKV split: if_splits)
  then show "fifoView (cacheAdd fifoOps k v c) \<subseteq>\<^sub>m (fifoView c)(k \<mapsto> v)"
    unfolding map_le_def c by (auto simp: fifoOps_def fifoView_def simp del: fun_upd_apply)
qed (auto simp: fifoOps_def fifoView_def map_of_delKV split: prod.splits)

text \<open>C9: applying a change set acts on the tree as the list of updates acts on a map, in order, with
  a nil value stored as the empty one; the tree stays well-formed, its version does not move, and
  afterwards every lookup, whether the LRU cache answers it or the tree does, returns the value in
  the updated map. The cache never serves a stale value.\<close>

theorem ApplyChangeSet_correct:
  assumes "cacheLaws ops view" "treeOK view t" "length (rootLeaves (troot t)) + length cs \<le> 2 ^ 62"
  shows "treeOK view (ApplyChangeSet ops cs t) \<and>
    treeMap (ApplyChangeSet ops cs t) = fold specPair cs (treeMap t) \<and>
    tversion (ApplyChangeSet ops cs t) = tversion t \<and>
    (\<forall>k. fst (treeGet ops k (ApplyChangeSet ops cs t)) = fold specPair cs (treeMap t) k \<and>
         fst (treeHas ops k (ApplyChangeSet ops cs t)) = (fold specPair cs (treeMap t) k \<noteq> None) \<and>
         treeOK view (snd (treeGet ops k (ApplyChangeSet ops cs t))))"
  using ApplyChangeSet_OK [OF assms] treeGet_spec [OF assms(1) ApplyChangeSet_OK(1) [OF assms]]
  by (simp add: treeHas_def split_beta)

definition samplePairs :: changeSet where
  "samplePairs =
     [\<lparr>kvDelete = False, kvKey = [1], kvValue = Some [10]\<rparr>, \<lparr>kvDelete = False, kvKey = [2], kvValue = None\<rparr>,
      \<lparr>kvDelete = True, kvKey = [1], kvValue = None\<rparr>, \<lparr>kvDelete = False, kvKey = [3], kvValue = Some [30]\<rparr>]"

theorem ApplyChangeSet_correct_witness:
  "fst (treeGet fifoOps [2] (ApplyChangeSet fifoOps samplePairs (NewTree fifoOps 1))) = Some [] \<and>
   fst (treeGet fifoOps [1] (ApplyChangeSet fifoOps samplePairs (NewTree fifoOps 1))) = None"
proof -
  have "troot (NewTree fifoOps 1) = None" by (simp add: NewTree_def NewEmptyTree_def)
  moreover have "length samplePairs = 4" by (simp add: samplePairs_def)
  ultimately show ?thesis
    using ApplyChangeSet_correct [OF fifo_laws, of "NewTree fifoOps 1" samplePairs]
      treeOK_new [OF fifo_laws, of 0 1]
    by (simp add: NewTree_def samplePairs_def specPair_def)
qed

text \<open>C10: saving a version either fails because the next version exceeds the signed 64-bit range,
  or moves to the next version, keeps the content and the invariant, and returns the Merkle
  hash computed from scratch when the caller asked for it (the SHA-256 of nothing on an empty tree).\<close>

theorem treeSaveVersion_correct:
  assumes "treeOK view t"
  shows "(case treeSaveVersion upd t of
      Inl e \<Rightarrow> e = VersionOverflow \<and> 2 ^ 63 \<le> unat (tversion t + 1)
    | Inr ((hash, v), t') \<Rightarrow> unat (tversion t + 1) < 2 ^ 63 \<and> v = tversion t + 1 \<and> treeVersion t' = Inr v \<and>
        hash = (if upd then Some (rootMerkle (troot t)) else None) \<and> treeOK view t' \<and>
        rootLeaves (troot t') = rootLeaves (troot t) \<and> rootMerkle (troot t') = rootMerkle (troot t))"
proof -
  have m: "MaxInt64 < w \<longleftrightarrow> 2 ^ 63 \<le> unat w" for w
    by (simp add: MaxInt64_def word_less_nat_alt) arith
  obtain h t1 where r: "treeRootHash t = (h, t1)" by fastforce
  note s = treeRootHash_spec [OF assms, unfolded r]
  have ok: "treeOK view (x\<lparr>tversion := w\<rparr>) = treeOK view x" for x w
    by (simp add: treeOK_def cacheOK_def)
  show ?thesis
    using s assms by (auto simp: treeSaveVersion_def Let_def r m ok treeVersion_def not_le)
qed

theorem treeSaveVersion_correct_witness:
  "treeSaveVersion True (NewEmptyTree fifoOps 6 1) =
     Inr ((Some (sha256 []), 7), NewEmptyTree fifoOps 7 1)"
  using treeSaveVersion_correct [OF treeOK_new [OF fifo_laws, of 6 1], of True]
  by (simp add: treeSaveVersion_def MaxInt64_def treeRootHash_def NewEmptyTree_def emptyHash_def)

text \<open>C11: a tree survives a restart through a snapshot. Writing a tree, empty or not, and opening
  the files gives a tree of the same version with the same entries in the same order and the
  same root hash, which satisfies the invariant again; the tree that was written is
  unchanged but for memoized hashes.\<close>

theorem tree_snapshot_restore:
  assumes "treeOK view t" "storable (troot t)" "\<forall>i. \<not> ctx i" "cacheLaws ops view"
  shows "\<exists>d' t' S. WriteSnapshot ctx d t = Inr (d', t') \<and> treeOK view t' \<and> treeMap t' = treeMap t \<and>
    OpenSnapshot d' = Inr S \<and> sversion S = tversion t \<and>
    treeOK view (NewFromSnapshot ops S zc n) \<and> tversion (NewFromSnapshot ops S zc n) = tversion t \<and>
    rootLeaves (troot (NewFromSnapshot ops S zc n)) = rootLeaves (troot t) \<and>
    rootMerkle (troot (NewFromSnapshot ops S zc n)) = rootMerkle (troot t)"
  using WriteSnapshot_restore [OF assms] by blast

definition sampleMemTree :: "(nat \<times> (bytes \<times> bytes) list) tree" where
  "sampleMemTree = (NewEmptyTree fifoOps 9 2)\<lparr>troot := Some sampleTree\<rparr>"

lemma sampleMemTree_OK: "treeOK fifoView sampleMemTree" "storable (troot sampleMemTree)"
proof -
  show "treeOK fifoView sampleMemTree"
    using sampleTree_wf sampleTree_hashOK
    by (simp add: sampleMemTree_def treeOK_def NewEmptyTree_def NewCache_def cacheOK_def fifoOps_def fifoView_def)
  show "storable (troot sampleMemTree)"
    using sampleTree_small by (simp add: sampleMemTree_def storable_def sampleTree_leaves)
qed

theorem tree_snapshot_restore_witness:
  "\<exists>d' t' S. WriteSnapshot (\<lambda>_. False) Map.empty sampleMemTree = Inr (d', t') \<and> OpenSnapshot d' = Inr S \<and>
    tversion (NewFromSnapshot fifoOps S True 4) = 9 \<and>
    rootLeaves (troot (NewFromSnapshot fifoOps S True 4)) = rootLeaves (troot sampleMemTree)"
proof -
  have "tversion sampleMemTree = 9" by (simp add: sampleMemTree_def NewEmptyTree_def)
  then show ?thesis
    using tree_snapshot_restore [OF sampleMemTree_OK _ fifo_laws, of "\<lambda>_. False" Map.empty True 4] by fastforce
qed

end
