(* ===== verification/Iter.thy ===== *)
theory Iter
  imports MemTree
begin

text \<open>
  The iterator of \<open>memiavl/iterator.go\<close>: a stack of subtrees still to visit, pruned by the bounds
  when a branch is opened. \<open>iterNext\<close> is the loop of \<open>Next\<close>; \<open>remaining\<close> drains an iterator through
  \<open>Valid\<close>, \<open>Key\<close>, \<open>Value\<close> and \<open>Next\<close> the way its callers do.
\<close>

section \<open>State and operations\<close>

record iter =
  istart :: slice
  iend :: slice
  ascending :: bool
  izeroCopy :: bool
  ikey :: slice
  ivalue :: slice
  ivalid :: bool
  istack :: "node list"

definition afterStart :: "slice \<Rightarrow> bytes \<Rightarrow> bool" where
  "afterStart start key = (case start of None \<Rightarrow> True | Some s \<Rightarrow> bytesCompare s key < 0)"

definition startOrAfter :: "slice \<Rightarrow> bytes \<Rightarrow> bool" where
  "startOrAfter start key \<longleftrightarrow>
     afterStart start key \<or> bytesCompare (case start of None \<Rightarrow> [] | Some s \<Rightarrow> s) key = 0"

definition beforeEnd :: "slice \<Rightarrow> bytes \<Rightarrow> bool" where
  "beforeEnd stop key = (case stop of None \<Rightarrow> True | Some e \<Rightarrow> bytesCompare key e < 0)"

text \<open>The children pushed for a branch, the one to be popped first in front.\<close>

definition pushChildren :: "iter \<Rightarrow> bytes \<Rightarrow> node \<Rightarrow> node \<Rightarrow> node list \<Rightarrow> node list" where
  "pushChildren it key l r stack =
     (if ascending it then
        (let s1 = (if beforeEnd (iend it) key then r # stack else stack)
         in if afterStart (istart it) key then l # s1 else s1)
      else
        (let s1 = (if afterStart (istart it) key then l # stack else stack)
         in if beforeEnd (iend it) key then r # s1 else s1))"

text \<open>Opening a branch replaces it by at most its two children.\<close>

definition weight :: "node list \<Rightarrow> nat" where
  "weight st = sum_list (map (\<lambda>n. Suc (2 * size n)) st)"

lemma weight_simps [simp]: "weight [] = 0" "weight (n # st) = Suc (2 * size n) + weight st"
  by (simp_all add: weight_def)

lemma weight_push: "weight (pushChildren it k l r st) \<le> 2 + 2 * size l + 2 * size r + weight st"
  by (simp add: pushChildren_def Let_def)

function iterNext :: "iter \<Rightarrow> iter" where
  "iterNext it =
     (case istack it of
        [] \<Rightarrow> it\<lparr>ivalid := False\<rparr>
      | n # stack \<Rightarrow>
          if IsLeaf n then
            (if startOrAfter (istart it) (Key n) \<and> beforeEnd (iend it) (Key n)
             then it\<lparr>istack := stack, ikey := Some (Key n), ivalue := Value n\<rparr>
             else iterNext (it\<lparr>istack := stack\<rparr>))
          else
            (case n of
               Leaf m \<Rightarrow> it
             | Branch h s m l r \<Rightarrow> iterNext (it\<lparr>istack := pushChildren it (nkey m) l r stack\<rparr>)))"
  by pat_completeness auto
termination
  by (relation "measure (\<lambda>it. weight (istack it))") (auto simp: less_Suc_eq_le weight_push [THEN order_trans])

declare iterNext.simps [simp del]

lemma iterNext_unfold:
  "istack it = [] \<Longrightarrow> iterNext it = it\<lparr>ivalid := False\<rparr>"
  "istack it = Branch h s m l r # stack \<Longrightarrow> \<not> IsLeaf (Branch h s m l r) \<Longrightarrow>
    iterNext it = iterNext (it\<lparr>istack := pushChildren it (nkey m) l r stack\<rparr>)"
  by (simp add: iterNext.simps [of it], subst iterNext.simps [of it], auto)

definition NewIterator :: "slice \<Rightarrow> slice \<Rightarrow> bool \<Rightarrow> node option \<Rightarrow> bool \<Rightarrow> iter" where
  "NewIterator start stop asc root zc =
     iterNext \<lparr>istart = start, iend = stop, ascending = asc, izeroCopy = zc, ikey = None, ivalue = None,
       ivalid = True, istack = (case root of None \<Rightarrow> [] | Some n \<Rightarrow> [n])\<rparr>"

definition iterDomain :: "iter \<Rightarrow> slice \<times> slice" where
  "iterDomain it = (istart it, iend it)"

definition iterClose :: "iter \<Rightarrow> iter" where
  "iterClose it = it\<lparr>ivalid := False, istack := []\<rparr>"

definition treeIterator :: "slice \<Rightarrow> slice \<Rightarrow> bool \<Rightarrow> 'c tree \<Rightarrow> iter" where
  "treeIterator start stop asc t = NewIterator start stop asc (troot t) (zeroCopy t)"

section \<open>What a call of \<open>Next\<close> does\<close>

text \<open>The entries that a stack still holds within the domain, in the order of iteration.\<close>

definition inDomain :: "slice \<Rightarrow> slice \<Rightarrow> bytes \<Rightarrow> bool" where
  "inDomain start stop k \<longleftrightarrow>
     (case start of None \<Rightarrow> True | Some s \<Rightarrow> s \<le> k) \<and> (case stop of None \<Rightarrow> True | Some e \<Rightarrow> k < e)"

definition inOrder :: "bool \<Rightarrow> 'a list \<Rightarrow> 'a list" where
  "inOrder asc xs = (if asc then xs else rev xs)"

definition visit :: "iter \<Rightarrow> node \<Rightarrow> (bytes \<times> bytes) list" where
  "visit it n = inOrder (ascending it) (filter (\<lambda>p. inDomain (istart it) (iend it) (fst p)) (leaves n))"

definition pending :: "iter \<Rightarrow> (bytes \<times> bytes) list" where
  "pending it = concat (map (visit it) (istack it))"

definition iterWf :: "iter \<Rightarrow> bool" where
  "iterWf it \<longleftrightarrow> (\<forall>n \<in> set (istack it). ordered n \<and> balanced n)"

lemma visit_upd [simp]:
  "visit (it\<lparr>istack := st\<rparr>) = visit it" "visit (it\<lparr>istack := st, ikey := k, ivalue := v\<rparr>) = visit it"
  "visit (it\<lparr>ivalid := b\<rparr>) = visit it"
  by (simp_all add: visit_def fun_eq_iff)

lemma leaf_test:
  "startOrAfter s k \<and> beforeEnd e k \<longleftrightarrow> inDomain s e k"
  by (auto simp: startOrAfter_def beforeEnd_def afterStart_def inDomain_def compare_simps split: option.splits)

text \<open>A subtree that is not pushed holds nothing of the domain.\<close>

lemma visit_pruned_left: "\<forall>x \<in> keys l. x < k \<Longrightarrow> \<not> afterStart (istart it) k \<Longrightarrow> visit it l = []"
  by (auto simp: visit_def inOrder_def filter_empty_conv keys_def afterStart_def inDomain_def compare_simps
      split: option.splits)

lemma visit_pruned_right: "\<forall>x \<in> keys r. k \<le> x \<Longrightarrow> \<not> beforeEnd (iend it) k \<Longrightarrow> visit it r = []"
  by (fastforce simp: visit_def inOrder_def filter_empty_conv keys_def beforeEnd_def inDomain_def compare_simps
      split: option.splits)

lemma pending_push:
  assumes "ordered (Branch h s m l r)"
  shows "concat (map (visit it) (pushChildren it (nkey m) l r stack)) =
    visit it (Branch h s m l r) @ concat (map (visit it) stack)"
proof -
  have "\<forall>x \<in> keys l. x < nkey m" "\<forall>x \<in> keys r. nkey m \<le> x" using assms by auto
  then have "\<not> afterStart (istart it) (nkey m) \<Longrightarrow> visit it l = []"
    "\<not> beforeEnd (iend it) (nkey m) \<Longrightarrow> visit it r = []"
    using visit_pruned_left visit_pruned_right by blast+
  moreover have "visit it (Branch h s m l r) =
      (if ascending it then visit it l @ visit it r else visit it r @ visit it l)"
    by (simp add: visit_def inOrder_def)
  ultimately show ?thesis by (auto simp: pushChildren_def Let_def)
qed

text \<open>The contract of one call.\<close>

definition nextOK :: "iter \<Rightarrow> iter \<Rightarrow> bool" where
  "nextOK it it' \<longleftrightarrow> iterWf it' \<and> istart it' = istart it \<and> iend it' = iend it \<and> ascending it' = ascending it \<and>
     (case pending it of
        [] \<Rightarrow> \<not> ivalid it' \<and> istack it' = []
      | (k, v) # rest \<Rightarrow> ivalid it' = ivalid it \<and> ikey it' = Some k \<and> ivalue it' = Some v \<and> pending it' = rest)"

lemma nextOK_skip:
  assumes "nextOK (it\<lparr>istack := st\<rparr>) it'" "concat (map (visit it) st) = pending it"
  shows "nextOK it it'"
proof -
  have "pending (it\<lparr>istack := st\<rparr>) = pending it" using assms(2) by (simp add: pending_def)
  then show ?thesis using assms(1) by (auto simp: nextOK_def split: list.splits)
qed

lemma iterNext_spec: "iterWf it \<Longrightarrow> nextOK it (iterNext it)"
proof (induction it rule: iterNext.induct)
  case (1 it)
  show ?case
  proof (cases "istack it")
    case Nil
    then have "iterNext it = it\<lparr>ivalid := False\<rparr>" by (simp add: iterNext.simps)
    then show ?thesis using Nil by (simp add: nextOK_def pending_def iterWf_def)
  next
    case (Cons n stack)
    have wf: "ordered n" "balanced n" "\<forall>n \<in> set stack. ordered n \<and> balanced n"
      using 1(3) Cons by (auto simp: iterWf_def)
    show ?thesis
    proof (cases n)
      case (Leaf m)
      have v: "visit it n = (if inDomain (istart it) (iend it) (Key n) then [(Key n, the (Value n))] else [])"
        using Leaf by (simp add: visit_def inOrder_def Key_def Value_def)
      show ?thesis
      proof (cases "inDomain (istart it) (iend it) (Key n)")
        case True
        then have "iterNext it = it\<lparr>istack := stack, ikey := Some (Key n), ivalue := Value n\<rparr>"
          using Cons Leaf by (simp add: iterNext.simps [of it] leaf_test)
        then show ?thesis
          using True v Cons Leaf wf by (auto simp: nextOK_def pending_def iterWf_def Value_def)
      next
        case False
        then have e: "iterNext it = iterNext (it\<lparr>istack := stack\<rparr>)"
          using Cons Leaf by (simp add: iterNext.simps [of it] leaf_test)
        have "nextOK (it\<lparr>istack := stack\<rparr>) (iterNext (it\<lparr>istack := stack\<rparr>))"
          using 1(1) [OF Cons] Leaf False wf by (simp add: leaf_test iterWf_def)
        then show ?thesis unfolding e by (rule nextOK_skip) (simp add: pending_def Cons v False)
      qed
    next
      case (Branch h s m l r)
      let ?st = "pushChildren it (nkey m) l r stack"
      have nl: "\<not> IsLeaf n" using wf(2) Branch IsLeaf_ht [of n] by simp
      then have e: "iterNext it = iterNext (it\<lparr>istack := ?st\<rparr>)"
        using Cons Branch iterNext_unfold(2) by blast
      have "set ?st \<subseteq> {l, r} \<union> set stack" by (auto simp: pushChildren_def Let_def)
      then have "iterWf (it\<lparr>istack := ?st\<rparr>)" using wf Branch by (auto simp: iterWf_def)
      then have "nextOK (it\<lparr>istack := ?st\<rparr>) (iterNext (it\<lparr>istack := ?st\<rparr>))"
        using 1(2) [OF Cons nl Branch] by simp
      then show ?thesis
        unfolding e by (rule nextOK_skip) (use wf(1) Branch Cons in \<open>simp add: pending_push pending_def\<close>)
    qed
  qed
qed

section \<open>Draining an iterator\<close>

lemma iterNext_weight: "istack it \<noteq> [] \<Longrightarrow> weight (istack (iterNext it)) < weight (istack it)"
proof (induction it rule: iterNext.induct)
  case (1 it)
  then obtain n stack where st: "istack it = n # stack" by (cases "istack it") auto
  have le: "weight (istack (iterNext (it\<lparr>istack := st'\<rparr>))) \<le> weight st'"
    if "st' \<noteq> [] \<Longrightarrow> weight (istack (iterNext (it\<lparr>istack := st'\<rparr>))) < weight st'" for st'
    using that by (cases st') (auto simp: iterNext.simps [of "it\<lparr>istack := []\<rparr>"])
  show ?case
  proof (cases "IsLeaf n")
    case True
    have "weight (istack (iterNext it)) \<le> weight stack"
      using 1(1) [OF st True] le [of stack] st True by (auto simp: iterNext.simps [of it])
    then show ?thesis using st by simp
  next
    case False
    then obtain h s m l r where n: "n = Branch h s m l r" by (cases n) auto
    let ?st = "pushChildren it (nkey m) l r stack"
    have "weight (istack (iterNext (it\<lparr>istack := ?st\<rparr>))) \<le> weight ?st"
      using 1(2) [OF st False n] by (intro le) simp
    moreover have "iterNext it = iterNext (it\<lparr>istack := ?st\<rparr>)" using st False n iterNext_unfold(2) by blast
    ultimately show ?thesis using st n weight_push [of it "nkey m" l r stack] by simp
  qed
qed

function remaining :: "iter \<Rightarrow> (bytes \<times> slice) list" where
  "remaining it =
     (if ivalid it then ((case ikey it of None \<Rightarrow> [] | Some k \<Rightarrow> k), ivalue it) # remaining (iterNext it) else [])"
  by pat_completeness auto
termination
proof (relation "measure (\<lambda>it. weight (istack it) + (if ivalid it then 1 else 0))")
  fix it :: iter assume "ivalid it"
  then show "(iterNext it, it) \<in> measure (\<lambda>it. weight (istack it) + (if ivalid it then 1 else 0))"
    using iterNext_weight [of it] by (cases "istack it = []") (auto simp: iterNext.simps [of it])
qed simp

declare remaining.simps [simp del]

lemma remaining_Next:
  assumes "iterWf it" "ivalid it"
  shows "remaining (iterNext it) = map (\<lambda>(k, v). (k, Some v)) (pending it)"
  using assms
proof (induction "pending it" arbitrary: it)
  case Nil
  then have "\<not> ivalid (iterNext it)" using iterNext_spec [of it] by (simp add: nextOK_def)
  then show ?case using Nil by (simp add: remaining.simps)
next
  case (Cons p ps)
  obtain k v where p: "p = (k, v)" by fastforce
  have "nextOK it (iterNext it)" using iterNext_spec Cons.prems by blast
  then have n: "iterWf (iterNext it)" "ivalid (iterNext it)" "ikey (iterNext it) = Some k"
    "ivalue (iterNext it) = Some v" "pending (iterNext it) = ps"
    using Cons.hyps(2) [symmetric] Cons.prems(2) p by (auto simp: nextOK_def)
  show ?case
    using Cons.hyps(1) [of "iterNext it"] n Cons.hyps(2) [symmetric] p by (simp add: remaining.simps [of "iterNext it"])
qed

section \<open>Properties\<close>

text \<open>C12: an iterator over a tree yields exactly the entries whose key lies in the half-open domain,
  each once, in key order or in reverse, whatever the bounds (nil is unbounded); pruning
  subtrees by the bounds loses nothing, the iterator becomes invalid after the last entry, and a closed one is
  invalid and stays so.\<close>

theorem iterator_exact:
  assumes "rootWf (troot t)"
  shows "remaining (treeIterator start stop asc t) =
      map (\<lambda>(k, v). (k, Some v))
        (inOrder asc (filter (\<lambda>p. inDomain start stop (fst p)) (rootLeaves (troot t)))) \<and>
    \<not> ivalid (iterNext (iterClose (treeIterator start stop asc t)))"
proof -
  let ?it = "\<lparr>istart = start, iend = stop, ascending = asc, izeroCopy = zeroCopy t, ikey = None, ivalue = None,
    ivalid = True, istack = (case troot t of None \<Rightarrow> [] | Some n \<Rightarrow> [n])\<rparr>"
  have "iterWf ?it" using assms by (cases "troot t") (auto simp: iterWf_def nodeWf_def)
  then have "remaining (treeIterator start stop asc t) = map (\<lambda>(k, v). (k, Some v)) (pending ?it)"
    unfolding treeIterator_def NewIterator_def by (rule remaining_Next) simp
  moreover have "pending ?it = inOrder asc (filter (\<lambda>p. inDomain start stop (fst p)) (rootLeaves (troot t)))"
    by (cases "troot t") (simp_all add: pending_def visit_def inOrder_def)
  ultimately show ?thesis by (simp add: iterClose_def iterNext_unfold(1))
qed

theorem iterator_exact_witness:
  "remaining (treeIterator (Some [2]) (Some [9]) False sampleMemTree) =
     map (\<lambda>(k, v). (k, Some v)) (rev (filter (\<lambda>p. [2] \<le> fst p \<and> fst p < [9]) (leaves sampleTree)))"
  using iterator_exact [of sampleMemTree "Some [2]" "Some [9]" False] sampleTree_wf
  by (simp add: sampleMemTree_def inDomain_def inOrder_def)

end
