(* ===== verification/Export.thy ===== *)
theory Export
  imports Iter
begin

text \<open>
  Export of a tree as a stream of nodes: \<open>ScanPostOrder\<close> and \<open>Export\<close> of \<open>memiavl/tree.go\<close>, the
  sequential \<open>export\<close> of \<open>memiavl/snapshot.go\<close> that reads the files in order without following child
  links, and the exporters of \<open>memiavl/export.go\<close>. A channel between the exporting goroutine and its
  consumer is the list of nodes still to be received; the consumer sees a prefix of it when it
  cancels. The callback of \<open>ScanPostOrder\<close> cannot stop the scan: its answer is dropped.
\<close>

section \<open>Post-order scan of a tree\<close>

record exportNode =
  eKey :: bytes
  eValue :: slice
  eVersion :: u64
  eHeight :: u8

definition toExport :: "node \<Rightarrow> exportNode" where
  "toExport n = \<lparr>eKey = Key n, eValue = Value n, eVersion = Version n, eHeight = Height n\<rparr>"

text \<open>The loop over the explicit stack; the flag tells that the children have been pushed already.\<close>

function scanLoop :: "(node \<times> bool) list \<Rightarrow> node list" where
  "scanLoop [] = []"
| "scanLoop ((n, expanded) # stack) =
     (if IsLeaf n \<or> expanded then n # scanLoop stack
      else (case n of
              Leaf m \<Rightarrow> []
            | Branch h s m l r \<Rightarrow> scanLoop ((l, False) # (r, False) # (n, True) # stack)))"
  by pat_completeness auto
termination
  by (relation "measure (\<lambda>st. sum_list (map (\<lambda>(n, e). if e then 1 else 4 * size n + 2) st))") auto

definition ScanPostOrder :: "node option \<Rightarrow> node list" where
  "ScanPostOrder rt = (case rt of None \<Rightarrow> [] | Some n \<Rightarrow> scanLoop [(n, False)])"

section \<open>Sequential export of the snapshot files\<close>

definition leafExport :: "snapshot \<Rightarrow> u32 \<Rightarrow> exportNode option" where
  "leafExport S j =
     do {
       leaf \<leftarrow> LeavesLeaf (sleaves S) j;
       (key, value) \<leftarrow> snapKeyValue S (leafKeyOffset leaf);
       Some \<lparr>eKey = key, eValue = Some value, eVersion = leafVersion leaf, eHeight = 0\<rparr>
     }"

text \<open>The inner loop: leaves are added until \<open>target\<close> trees are pending.\<close>

function addLeaves :: "snapshot \<Rightarrow> nat \<Rightarrow> nat \<Rightarrow> u32 \<Rightarrow> (exportNode list \<times> u32) option" where
  "addLeaves S target pendingTrees j =
     (if pendingTrees < target then
        do {
          e \<leftarrow> leafExport S j;
          (es, j') \<leftarrow> addLeaves S target (pendingTrees + 1) (j + 1);
          Some (e # es, j')
        }
      else Some ([], j))"
  by pat_completeness auto
termination
  by (relation "measure (\<lambda>(S, target, p, j). target - p)") auto

declare addLeaves.simps [simp del]

lemma u32_succ: "i < (n :: u32) \<Longrightarrow> unat (i + 1) = Suc (unat i)"
proof -
  assume lt: "i < n"
  have "unat n < 2 ^ 32" using unsigned_less [of n] by simp
  then show ?thesis using lt by (simp add: unat_word_ariths word_less_nat_alt)
qed

function exportLoop :: "snapshot \<Rightarrow> u32 \<Rightarrow> u32 \<Rightarrow> nat \<Rightarrow> exportNode list option" where
  "exportLoop S i j pendingTrees =
     (if i < of_nat (nodesLen S) then
        do {
          nd \<leftarrow> NodesNode (snodes S) i;
          let target = unat (nodePreTrees nd) + 2;
          (es, j') \<leftarrow> addLeaves S target pendingTrees j;
          key \<leftarrow> LeafKey S (nodeKeyLeaf nd);
          let e = \<lparr>eKey = key, eValue = None, eVersion = nodeVersion nd, eHeight = nodeHeight nd\<rparr>;
          rest \<leftarrow> exportLoop S (i + 1) j' (max pendingTrees target - 1);
          Some (es @ e # rest)
        }
      else Some [])"
  by pat_completeness auto
termination
proof (relation "measure (\<lambda>(S, i, j, p). unat (of_nat (nodesLen S) :: u32) - unat i)")
  fix S :: snapshot and i j j' :: u32 and p t x es xs k
  assume a: "i < of_nat (nodesLen S)"
  then show "((S, i + 1, j', max p t - 1), S, i, j, p) \<in> measure (\<lambda>(S, i, j, p). unat (of_nat (nodesLen S) :: u32) - unat i)"
    using u32_succ [OF a] a by (simp add: word_less_nat_alt)
qed simp

declare exportLoop.simps [simp del]

definition snapExport :: "snapshot \<Rightarrow> exportNode list option" where
  "snapExport S =
     (if leavesLen S = 0 then Some []
      else if leavesLen S = 1 then
        do {
          version \<leftarrow> pVersion S (snapLeaf 0);
          key \<leftarrow> pKey S (snapLeaf 0);
          value \<leftarrow> pValue S (snapLeaf 0);
          Some [\<lparr>eKey = key, eValue = value, eVersion = version, eHeight = 0\<rparr>]
        }
      else exportLoop S 0 0 0)"

section \<open>Exporters\<close>

text \<open>An exporter is the content of its channel; \<open>None\<close> of \<open>exporterNext\<close> is \<open>ErrorExportDone\<close>.\<close>

type_synonym exporter = "exportNode list"

definition treeExport :: "'c tree \<Rightarrow> exporter option" where
  "treeExport t =
     (case tsnapshot t of
        Some S \<Rightarrow> if tversion t = sversion S then snapExport S
                 else Some (map toExport (ScanPostOrder (troot t)))
      | None \<Rightarrow> Some (map toExport (ScanPostOrder (troot t))))"

fun exporterNext :: "exporter \<Rightarrow> exportNode option \<times> exporter" where
  "exporterNext [] = (None, [])"
| "exporterNext (e # es) = (Some e, es)"

definition exporterClose :: "exporter \<Rightarrow> exporter" where
  "exporterClose e = []"

record 'c multiTreeExporter =
  mteTrees :: "(string \<times> 'c tree) list"
  iTree :: nat
  mteExporter :: "exporter option"

datatype exportItem = ItemName string | ItemNode exportNode

datatype exportError = ErrorExportDone | ExportPanic

definition nextTree :: "'c multiTreeExporter \<Rightarrow> exportError + exportItem \<times> 'c multiTreeExporter" where
  "nextTree mte =
     (if length (mteTrees mte) \<le> iTree mte then Inl ErrorExportDone
      else
        (let (name, t) = mteTrees mte ! iTree mte in
         case treeExport t of
           None \<Rightarrow> Inl ExportPanic
         | Some ex \<Rightarrow> Inr (ItemName name, mte\<lparr>mteExporter := Some ex, iTree := iTree mte + 1\<rparr>)))"

text \<open>\<open>Next\<close> calls itself once more when the current tree is done, then with no exporter.\<close>

definition mteNext :: "'c multiTreeExporter \<Rightarrow> exportError + exportItem \<times> 'c multiTreeExporter" where
  "mteNext mte =
     (case mteExporter mte of
        Some ex \<Rightarrow>
          (case exporterNext ex of
             (Some e, ex') \<Rightarrow> Inr (ItemNode e, mte\<lparr>mteExporter := Some ex'\<rparr>)
           | (None, ex') \<Rightarrow> nextTree (mte\<lparr>mteExporter := None\<rparr>))
      | None \<Rightarrow> nextTree mte)"

definition mteClose :: "'c multiTreeExporter \<Rightarrow> 'c multiTreeExporter" where
  "mteClose mte = mte\<lparr>mteExporter := None\<rparr>"

section \<open>The scan is the recursive post-order\<close>

fun postOrder :: "node \<Rightarrow> node list" where
  "postOrder (Leaf m) = [Leaf m]"
| "postOrder (Branch h s m l r) = postOrder l @ postOrder r @ [Branch h s m l r]"

lemma scanLoop_postOrder: "balanced n \<Longrightarrow> scanLoop ((n, False) # st) = postOrder n @ scanLoop st"
proof (induction n arbitrary: st)
  case (Branch h s m l r)
  then have "\<not> IsLeaf (Branch h s m l r)" by auto
  then show ?case using Branch by (simp del: IsLeaf.simps)
qed simp

lemma ScanPostOrder_postOrder:
  "rootWf rt \<Longrightarrow> ScanPostOrder rt = (case rt of None \<Rightarrow> [] | Some n \<Rightarrow> postOrder n)"
  by (cases rt) (simp_all add: ScanPostOrder_def scanLoop_postOrder nodeWf_def del: scanLoop.simps(2))

abbreviation exportOf :: "node \<Rightarrow> exportNode list" where
  "exportOf n \<equiv> map toExport (postOrder n)"

section \<open>The sequential export is the post-order too\<close>

text \<open>
  A leaf is emitted only when a branch needs it, so after the branches of a subtree the last leaf may
  still be outstanding. \<open>leafSeg S a b\<close> are the leaves with index in \<open>[a, b)\<close>.
\<close>

definition leafSeg :: "snapshot \<Rightarrow> nat \<Rightarrow> nat \<Rightarrow> exportNode list" where
  "leafSeg S a b = map (\<lambda>i. the (leafExport S (of_nat i))) [a..<b]"

lemma leafSeg_append: "a \<le> b \<Longrightarrow> b \<le> c \<Longrightarrow> leafSeg S a b @ leafSeg S b c = leafSeg S a c"
  by (simp add: leafSeg_def flip: map_append upt_add_eq_append)
    (metis le_add_diff_inverse upt_add_eq_append)

lemma leafSeg_Cons: "a < b \<Longrightarrow> leafSeg S a b = the (leafExport S (of_nat a)) # leafSeg S (Suc a) b"
  by (simp add: leafSeg_def upt_conv_Cons)

lemma addLeaves_seg:
  assumes "\<forall>x. j \<le> x \<and> x < j + k \<longrightarrow> leafExport S (of_nat x) \<noteq> None"
  shows "addLeaves S (p + k) p (of_nat j) = Some (leafSeg S j (j + k), of_nat (j + k))"
  using assms
proof (induction k arbitrary: p j)
  case 0
  then show ?case by (simp add: addLeaves.simps leafSeg_def)
next
  case (Suc k)
  obtain e where e: "leafExport S (of_nat j) = Some e" using Suc.prems by fastforce
  have "addLeaves S (Suc p + k) (Suc p) (of_nat (Suc j)) = Some (leafSeg S (Suc j) (Suc j + k), of_nat (Suc j + k))"
    by (rule Suc.IH) (use Suc.prems in auto)
  then show ?case
    using e by (simp add: addLeaves.simps [of S "Suc (k + p)" p] leafSeg_Cons add.commute)
qed

lemma stored_leafExport:
  "ordered n \<Longrightarrow> stored S n L B \<Longrightarrow> smallKV n \<Longrightarrow> i < nleaves n \<Longrightarrow>
   \<exists>e. leafExport S (of_nat (L + i)) = Some e"
  using stored_leaf_nth [of n S L B i] by (cases "leaves n ! i") (auto simp: leafExport_def)

lemma stored_leafExport_Leaf:
  assumes "ordered (Leaf m)" "stored S (Leaf m) L B" "smallKV (Leaf m)"
  shows "leafExport S (of_nat L) = Some (toExport (Leaf m))"
proof -
  note r = stored_Leaf_reads [OF assms(2,3)]
  have "valueBytes (Leaf m) = the (nvalue m)" using assms(1) by (auto simp: valueBytes_def Value_def)
  then show ?thesis
    using r(3,5) assms(1)
    by (auto simp: leafExport_def toExport_def Key_def Value_def Version_def pVersion_def snapLeaf_def)
qed

lemma map_append_option [simp]:
  "map_option ((@) []) r = r" "map_option ((@) xs) (map_option ((@) ys) r) = map_option ((@) (xs @ ys)) r"
  by (cases r; simp)+

definition exports :: "snapshot \<Rightarrow> node \<Rightarrow> nat \<Rightarrow> nat \<Rightarrow> nat \<Rightarrow> bool" where
  "exports S n L B j \<longleftrightarrow>
     (\<exists>out j'. B + nleaves n - 1 \<le> j' \<and> j \<le> j' \<and> j' \<le> L + nleaves n \<and> (nleaves n = 1 \<or> j' = L + nleaves n) \<and>
        out @ leafSeg S j' (L + nleaves n) = leafSeg S j L @ exportOf n \<and>
        exportLoop S (of_nat B) (of_nat j) (j - B) =
          map_option ((@) out)
            (exportLoop S (of_nat (B + nleaves n - 1)) (of_nat j') (j' - (B + nleaves n - 1))))"

lemma exportLoop_branch:
  assumes nd: "NodesNode (snodes S) (of_nat i) = Some (branchRecord v sz h (of_nat pre) kl hash)" "length hash = 32"
    and key: "LeafKey S kl = Some k" and pre: "pre < 256" "j - i + c = pre + 2" "i < nodesLen S" "nodesLen S < 2 ^ 32"
    and lv: "\<forall>x. j \<le> x \<and> x < j + c \<longrightarrow> leafExport S (of_nat x) \<noteq> None"
  shows "exportLoop S (of_nat i) (of_nat j) (j - i) =
    map_option ((@) (leafSeg S j (j + c) @ [\<lparr>eKey = k, eValue = None, eVersion = v, eHeight = h\<rparr>]))
      (exportLoop S (of_nat (Suc i)) (of_nat (j + c)) (pre + 1))"
proof -
  have lt: "(of_nat i :: u32) < of_nat (nodesLen S)"
    using pre unat_of_nat_32 [of i] unat_of_nat_32 [of "nodesLen S"] by (simp add: word_less_nat_alt)
  have u: "unat (of_nat pre :: u8) = pre" using pre(1) by (simp add: unat_of_nat)
  have al: "addLeaves S (pre + 2) (j - i) (of_nat j) = Some (leafSeg S j (j + c), of_nat (j + c))"
    using addLeaves_seg [OF lv, of "j - i"] pre(2) by simp
  have m: "max (j - i) (pre + 2) - 1 = pre + 1" using pre(2) by simp
  show ?thesis
    apply (subst exportLoop.simps)
    using lt nd key u al m
    by (cases "exportLoop S (1 + of_nat i) (of_nat j + of_nat c) (Suc pre)") (simp_all add: Let_def add.commute)
qed

lemma exports_stored:
  assumes "nodeWf n" "stored S n L B" "smallKV n" "B \<le> j" "j \<le> L" "L - B + ht n < 256"
    and "B + nleaves n - 1 \<le> nodesLen S" "nodesLen S < 2 ^ 32"
    and "\<forall>x. j \<le> x \<and> x < L \<longrightarrow> leafExport S (of_nat x) \<noteq> None"
  shows "exports S n L B j"
  using assms
proof (induction n arbitrary: L B j)
  case (Leaf m)
  have o: "ordered (Leaf m)" using Leaf.prems(1) by (simp add: nodeWf_def)
  have "leafSeg S j (Suc L) = leafSeg S j L @ [toExport (Leaf m)]"
    using stored_leafExport_Leaf [OF o Leaf.prems(2,3)] Leaf.prems(5) by (simp add: leafSeg_def)
  then show ?case
    unfolding exports_def using Leaf.prems(4,5)
    by (intro exI [of _ "[]"] exI [of _ j]) simp
next
  case (Branch h s m l r)
  let ?n = "Branch h s m l r"
  have k: "nodeWf l" "nodeWf r" "ordered r" "ordered ?n" "ordered l" using Branch.prems(1) by (auto simp: nodeWf_def)
  have st: "stored S l L B" "stored S r (L + nleaves l) (B + nleaves l - 1)" "smallKV l" "smallKV r"
    using Branch.prems(2,3) by auto
  obtain a b where ab: "nleaves l = Suc a" "nleaves r = Suc b" by (metis nleaves_Suc)
  have lvl: "leafExport S (of_nat x) \<noteq> None" if "j \<le> x" "x < L + nleaves l" for x
    using that Branch.prems(9) stored_leafExport [OF k(5) st(1,3), of "x - L"] by (cases "x < L") auto
  have lvr: "leafExport S (of_nat x) \<noteq> None" if "j \<le> x" "x < L + nleaves ?n" for x
    using that lvl stored_leafExport [OF k(3) st(2,4), of "x - (L + nleaves l)"] by (cases "x < L + nleaves l") auto
  have "exports S l L B j"
    by (rule Branch.IH(1)) (use k st Branch.prems ab in auto)
  then obtain out1 j1 where e1: "B + nleaves l - 1 \<le> j1" "j1 \<le> L + nleaves l"
    "out1 @ leafSeg S j1 (L + nleaves l) = leafSeg S j L @ exportOf l"
    "exportLoop S (of_nat B) (of_nat j) (j - B) =
      map_option ((@) out1) (exportLoop S (of_nat (B + nleaves l - 1)) (of_nat j1) (j1 - (B + nleaves l - 1)))"
    "j \<le> j1"
    unfolding exports_def by blast
  let ?B1 = "B + nleaves l - 1" and ?L1 = "L + nleaves l"
  have "exports S r ?L1 ?B1 j1"
    by (rule Branch.IH(2)) (use k st Branch.prems ab e1 lvl in auto)
  then obtain out2 j2 where e2: "?B1 + nleaves r - 1 \<le> j2" "j2 \<le> ?L1 + nleaves r"
    "out2 @ leafSeg S j2 (?L1 + nleaves r) = leafSeg S j1 ?L1 @ exportOf r"
    "exportLoop S (of_nat ?B1) (of_nat j1) (j1 - ?B1) =
      map_option ((@) out2) (exportLoop S (of_nat (?B1 + nleaves r - 1)) (of_nat j2) (j2 - (?B1 + nleaves r - 1)))"
    "j1 \<le> j2"
    unfolding exports_def by blast
  let ?i = "B + nleaves l + nleaves r - 2" and ?c = "L + nleaves ?n - j2"
  have i: "?B1 + nleaves r - 1 = ?i" "Suc ?i = B + nleaves ?n - 1" "j2 + ?c = L + nleaves ?n"
    "j2 - ?i + ?c = L - B + 2" "(L + nleaves ?n) - Suc ?i = L - B + 1"
    using ab e2(1,2) Branch.prems(4,5) by auto
  have key: "LeafKey S (of_nat (L + nleaves l)) = Some (nkey m)"
    using stored_leaf_nth [OF k(3) st(2,4), of 0] ordered_min [OF k(4)] by (simp add: hd_conv_nth)
  have nd: "NodesNode (snodes S) (of_nat ?i) = Some (branchRecord (nversion m) (ucast s) h (of_nat (L - B))
      (of_nat (L + nleaves l)) (merkle ?n))"
    using Branch.prems(2) by (simp only: stored.simps)
  have ex: "toExport ?n = \<lparr>eKey = nkey m, eValue = None, eVersion = nversion m, eHeight = h\<rparr>"
    using k(4) by (simp add: toExport_def Key_def Value_def Version_def)
  have b: "L - B < 256" "?i < nodesLen S" using Branch.prems(6,7) ab by auto
  have lv: "\<forall>x. j2 \<le> x \<and> x < j2 + ?c \<longrightarrow> leafExport S (of_nat x) \<noteq> None" using lvr e1(5) e2(5) i(3) by simp
  note loop = exportLoop_branch [OF nd length_merkle key b(1) i(4) b(2) Branch.prems(8) lv, folded ex, unfolded i(3)]
  have out: "out1 @ out2 @ leafSeg S j2 (L + nleaves ?n) = leafSeg S j L @ exportOf l @ exportOf r"
    using e1(3) e2(3) by (simp add: add.assoc)
  have eq: "exportLoop S (of_nat B) (of_nat j) (j - B) =
      map_option ((@) (out1 @ out2 @ leafSeg S j2 (L + nleaves ?n) @ [toExport ?n]))
        (exportLoop S (of_nat (B + nleaves ?n - 1)) (of_nat (L + nleaves ?n)) (L + nleaves ?n - (B + nleaves ?n - 1)))"
    unfolding e1(4) e2(4) i(1) loop i(2) [symmetric] i(5) by simp
  have le: "B + nleaves ?n - 1 \<le> L + nleaves ?n" "j \<le> L + nleaves ?n" using Branch.prems(4,5) by auto
  have "(out1 @ out2 @ leafSeg S j2 (L + nleaves ?n) @ [toExport ?n]) @ leafSeg S (L + nleaves ?n) (L + nleaves ?n) =
      leafSeg S j L @ exportOf ?n"
    using out by (simp add: leafSeg_def [of S "_ + _"])
  then show ?case unfolding exports_def using eq le by blast
qed

text \<open>The files of \<open>S\<close> hold the tree and nothing else.\<close>

definition snapOf :: "snapshot \<Rightarrow> node \<Rightarrow> bool" where
  "snapOf S n \<longleftrightarrow> stored S n 0 0 \<and> leavesLen S = nleaves n \<and> nodesLen S = nleaves n - 1"

lemma snapExport_snapOf:
  assumes "nodeWf n" "smallKV n" "nleaves n < 2 ^ 32" "snapOf S n"
  shows "snapExport S = Some (exportOf n)"
proof (cases n)
  case (Leaf m)
  have st: "stored S (Leaf m) 0 0" "smallKV (Leaf m)" using assms(2,4) Leaf by (auto simp: snapOf_def simp del: stored.simps)
  have "valueBytes (Leaf m) = the (nvalue m)" "nvalue m \<noteq> None"
    using assms(1) Leaf by (auto simp: valueBytes_def Value_def nodeWf_def)
  then show ?thesis
    using stored_Leaf_reads [OF st] assms(4) Leaf
    by (auto simp: snapExport_def snapOf_def pKey_def pValue_def snapLeaf_def toExport_def Key_def Value_def Version_def
        simp del: stored.simps)
next
  case (Branch h s m l r)
  obtain a b where ab: "nleaves l = Suc a" "nleaves r = Suc b" by (metis nleaves_Suc)
  have "ht n < 124" using assms(1,3) wf_ht_bound [of n] by simp
  then have "exports S n 0 0 0"
    using assms by (intro exports_stored) (auto simp: snapOf_def)
  moreover have "exportLoop S (of_nat (nleaves n - 1)) j p = Some []" for j p
    using assms(4) by (subst exportLoop.simps) (simp add: snapOf_def)
  ultimately have "exportLoop S 0 0 0 = Some (exportOf n)"
    using Branch ab by (auto simp: exports_def leafSeg_def simp del: of_nat_diff)
  then show ?thesis using assms(4) Branch ab by (simp add: snapExport_def snapOf_def)
qed

lemma exportOf_persist [simp]: "exportOf (persist n) = exportOf n"
  by (induction n) (simp_all add: toExport_def Key_def Value_def Version_def)

section \<open>Properties\<close>

text \<open>C13: the two export algorithms agree. Reading the leaf and branch files of a snapshot front to back,
  driven only by the \<open>preTrees\<close> counters, emits exactly the nodes of the post-order scan of the tree
  in memory, in the same order and with the same height, version, key and value, and never reads outside
  the files; the scan over an explicit stack visits the tree in recursive post-order.\<close>

theorem snapshot_export_agrees:
  assumes "nodeWf n" "smallKV n" "nleaves n < 2 ^ 32" "snapOf S n"
  shows "snapExport S = Some (map toExport (ScanPostOrder (Some n))) \<and> ScanPostOrder (Some n) = postOrder n"
  using snapExport_snapOf [OF assms] ScanPostOrder_postOrder [of "Some n"] assms(1) by simp

theorem snapshot_export_agrees_witness:
  "\<exists>S. snapOf S sampleTree \<and> snapExport S = Some (map toExport (ScanPostOrder (Some sampleTree)))"
proof -
  have sz: "nleaves sampleTree < 2 ^ 32" "kvsSize (leaves sampleTree) < 2 ^ 64" by (simp_all add: sampleTree_leaves)
  then obtain S where S: "snapOf S sampleTree"
    using writeSnapshot_open [OF sampleTree_wf sampleTree_hashOK sampleTree_small sz, of "\<lambda>_. False" 7 "\<lambda>_. None"]
    by (auto simp: snapOf_def)
  then show ?thesis using snapshot_export_agrees [OF sampleTree_wf sampleTree_small sz(1) S] by blast
qed

text \<open>What a multi tree exporter has still to deliver.\<close>

definition treeItems :: "string \<times> 'c tree \<Rightarrow> exportItem list" where
  "treeItems nt = ItemName (fst nt) # map ItemNode (the (treeExport (snd nt)))"

definition mtePending :: "'c multiTreeExporter \<Rightarrow> exportItem list" where
  "mtePending mte =
     map ItemNode (case mteExporter mte of None \<Rightarrow> [] | Some ex \<Rightarrow> ex) @
     concat (map treeItems (drop (iTree mte) (mteTrees mte)))"

lemma nextTree_pending:
  assumes "\<forall>nt \<in> set (mteTrees mte). treeExport (snd nt) \<noteq> None"
  shows "case concat (map treeItems (drop (iTree mte) (mteTrees mte))) of
      [] \<Rightarrow> nextTree mte = Inl ErrorExportDone
    | x # xs \<Rightarrow> \<exists>mte'. nextTree mte = Inr (x, mte') \<and> mtePending mte' = xs \<and> mteTrees mte' = mteTrees mte"
proof (cases "iTree mte < length (mteTrees mte)")
  case True
  obtain name t where nt: "mteTrees mte ! iTree mte = (name, t)" by fastforce
  then have "(name, t) \<in> set (mteTrees mte)" using True nth_mem by metis
  then obtain ex where ex: "treeExport t = Some ex" using assms by fastforce
  have "drop (iTree mte) (mteTrees mte) = (name, t) # drop (Suc (iTree mte)) (mteTrees mte)"
    using True nt by (metis Cons_nth_drop_Suc)
  then show ?thesis using True nt ex by (simp add: nextTree_def treeItems_def mtePending_def)
next
  case False
  then show ?thesis by (simp add: nextTree_def)
qed

text \<open>C14: the exporter of a multi tree delivers, call by call, for every tree in order its name
  followed by its exported nodes, then \<open>ErrorExportDone\<close>; no tree and no node is skipped, repeated or attributed to
  another tree, empty trees included.\<close>

theorem multiTreeExporter_stream:
  assumes "\<forall>nt \<in> set (mteTrees mte). treeExport (snd nt) \<noteq> None"
  shows "case mtePending mte of
      [] \<Rightarrow> mteNext mte = Inl ErrorExportDone
    | x # xs \<Rightarrow> \<exists>mte'. mteNext mte = Inr (x, mte') \<and> mtePending mte' = xs \<and> mteTrees mte' = mteTrees mte"
proof (cases "mteExporter mte")
  case None
  then have "mteNext mte = nextTree mte" "mtePending mte = concat (map treeItems (drop (iTree mte) (mteTrees mte)))"
    by (simp_all add: mteNext_def mtePending_def)
  then show ?thesis using nextTree_pending [OF assms] by (simp cong: list.case_cong)
next
  case (Some ex)
  show ?thesis
  proof (cases ex)
    case Nil
    then have "mteNext mte = nextTree (mte\<lparr>mteExporter := None\<rparr>)"
      "mtePending mte = concat (map treeItems (drop (iTree mte) (mteTrees mte)))"
      using Some by (simp_all add: mteNext_def mtePending_def)
    then show ?thesis using nextTree_pending [of "mte\<lparr>mteExporter := None\<rparr>"] assms by (simp cong: list.case_cong)
  next
    case (Cons e es)
    then show ?thesis using Some by (simp add: mteNext_def mtePending_def)
  qed
qed

theorem multiTreeExporter_stream_witness:
  "\<exists>mte'. mteNext \<lparr>mteTrees = [(''bank'', NewTree fifoOps 0), (''gov'', NewTree fifoOps 0)], iTree = 0, mteExporter = Some []\<rparr> =
     Inr (ItemName ''bank'', mte') \<and> mtePending mte' = [ItemName ''gov'']"
  using multiTreeExporter_stream
    [of "\<lparr>mteTrees = [(''bank'', NewTree fifoOps 0), (''gov'', NewTree fifoOps 0)], iTree = 0, mteExporter = Some []\<rparr>"]
  by (auto simp: mtePending_def treeItems_def treeExport_def NewTree_def NewEmptyTree_def ScanPostOrder_def)

end
