(* ===== verification/TreeImport.thy ===== *)
theory TreeImport
  imports Export
begin

text \<open>
  Import of one tree from a stream of nodes: \<open>doImport\<close> and the \<open>importer\<close> of \<open>memiavl/import.go\<close>. The channel
  that feeds the importing goroutine is the list of nodes sent before it is closed. The source
  drops the children of a node once its hash is stored; the model keeps them, and the stored
  hash makes that invisible. A malformed stream can make \<open>Add\<close> index an empty stack, which is
  \<open>ImportPanic\<close>.
\<close>

section \<open>Importer\<close>

record importer =
  iw :: snapshotWriter
  leavesStack :: "u32 list"
  nodeStack :: "node list"

datatype importError = NegativeVersion | InvalidStructure | ImportPanic | ImportWrite writeError

abbreviation background :: "u32 \<Rightarrow> bool" where
  "background \<equiv> \<lambda>_. False"

definition importLeaf :: "exportNode \<Rightarrow> importer \<Rightarrow> importError + importer" where
  "importLeaf e i =
     (let (hash, nd) = Hash (newLeafNode (eKey e) (eValue e) (eVersion e)) in
      case writeLeaf background (eVersion e) (eKey e) (valueBytes nd) hash (iw i) of
        Inl x \<Rightarrow> Inl (ImportWrite x)
      | Inr w \<Rightarrow> Inr \<lparr>iw = w, leavesStack = leafCounter w # leavesStack i, nodeStack = nd # nodeStack i\<rparr>)"

definition importBranch :: "exportNode \<Rightarrow> importer \<Rightarrow> importError + importer" where
  "importBranch e i =
     (case (leavesStack i, nodeStack i) of
        (_ # keyLeaf # ls, rightNode # leftNode # ns) \<Rightarrow>
          (let (hash, nd) = Hash (Branch (eHeight e) (Size leftNode + Size rightNode)
                 \<lparr>nversion = eVersion e, nkey = eKey e, nvalue = None, nhash = None, persisted = False\<rparr>
                 leftNode rightNode);
               preTrees = of_nat (length (nodeStack i) - 2);
               w = writeBranch (eVersion e) (ucast (Size nd)) (eHeight e) preTrees keyLeaf hash (iw i)
           in Inr \<lparr>iw = w, leavesStack = leafCounter w # ls, nodeStack = nd # ns\<rparr>)
      | _ \<Rightarrow> Inl ImportPanic)"

definition importAdd :: "exportNode \<Rightarrow> importer \<Rightarrow> importError + importer" where
  "importAdd e i =
     (if sint (eVersion e) < 0 then Inl NegativeVersion
      else if eHeight e = 0 then importLeaf e i else importBranch e i)"

fun importAll :: "exportNode list \<Rightarrow> importer \<Rightarrow> importError + importer" where
  "importAll [] i = Inr i"
| "importAll (e # es) i = andThen (importAdd e i) (importAll es)"

definition doImport :: "int \<Rightarrow> exportNode list \<Rightarrow> dir \<Rightarrow> importError + dir" where
  "doImport version nodes d =
     (if version < 0 then Inl NegativeVersion
      else andThen
        (writeSnapshot (of_int version)
           (\<lambda>w. andThen (importAll nodes \<lparr>iw = w, leavesStack = [], nodeStack = []\<rparr>)
             (\<lambda>i. case leavesStack i of
                [] \<Rightarrow> Inr (iw i, 0, ())
              | [c] \<Rightarrow> Inr (iw i, leafCounter (iw i), ())
              | _ \<Rightarrow> Inl InvalidStructure)) d)
        (\<lambda>(d', _). Inr d'))"

section \<open>Importing an exported subtree\<close>

lemma importAll_append [simp]: "importAll (xs @ ys) i = andThen (importAll xs i) (importAll ys)"
  by (induction xs arbitrary: i) (auto simp: andThen_def split: sum.splits)

fun signedVersions :: "node \<Rightarrow> bool" where
  "signedVersions (Leaf m) = (0 \<le> sint (nversion m))"
| "signedVersions (Branch h s m l r) = (0 \<le> sint (nversion m) \<and> signedVersions l \<and> signedVersions r)"

lemma writeRecursive_Leaf:
  assumes "hashOK (Leaf m)" "writeRecursive ctx (Leaf m) w = Inr (w', n')"
  shows "writeLeaf ctx (nversion m) (nkey m) (valueBytes (Leaf m)) (merkle (Leaf m)) w = Inr w'"
  using assms Hash_merkle [of "Leaf m"]
  by (cases "Hash (Leaf m)") (auto simp: writeAsLeaf_def andThen_Inr Version_def Key_def simp del: merkle.simps)

lemma writeRecursive_Branch:
  assumes "nodeWf (Branch h s m l r)" "hashOK (Branch h s m l r)" "wInv w L B"
    and "writeRecursive ctx (Branch h s m l r) w = Inr (w3, n')"
  obtains w1 l' w2 r' where "writeRecursive ctx l w = Inr (w1, l')" "writeRecursive ctx r w1 = Inr (w2, r')"
    "wInv w1 (L + nleaves l) (B + nleaves l - 1)"
    "wInv w2 (L + nleaves l + nleaves r) (B + nleaves l - 1 + nleaves r - 1)"
    "w3 = writeBranch (nversion m) (ucast s) h (of_nat (L - B)) (leafCounter w1) (merkle (Branch h s m l r)) w2"
proof -
  let ?n = "Branch h s m l r"
  have nl: "\<not> IsLeaf ?n" and k: "nodeWf l" "nodeWf r" "hashOK l" "hashOK r" "balanced ?n"
    using assms(1,2) by (auto simp: nodeWf_def)
  obtain w1 l' w2 r' x where e: "writeRecursive ctx l w = Inr (w1, l')" "writeRecursive ctx r w1 = Inr (w2, r')"
    "Hash (Branch h s m l' r') = (x, n')"
    "w3 = writeBranch (nversion m) (ucast s) h (ucast (leafCounter w - branchCounter w)) (leafCounter w1) x w2"
    using assms(4) nl by (auto simp: Let_def andThen_Inr case_prod_beta prod_eq_iff simp del: IsLeaf.simps)
  have wl: "wrote l w L B (w1, l')" by (rule writeRecursive_wrote [OF k(1,3) e(1) assms(3)])
  then have i1: "wInv w1 (L + nleaves l) (B + nleaves l - 1)" by (simp add: wrote_def)
  have wr: "wrote r w1 (L + nleaves l) (B + nleaves l - 1) (w2, r')" by (rule writeRecursive_wrote [OF k(2,4) e(2) i1])
  have same: "sameNode l l'" "sameNode r r'" "hashOK l'" "hashOK r'" using wl wr by (auto simp: wrote_def)
  then have s1: "sameNode ?n (Branch h s m l' r')" by simp
  have f: "merkle (Branch h s m l' r') = merkle ?n" "balanced (Branch h s m l' r')"
    using sameNode_facts [OF s1] k(5) by auto
  have "hashOK (Branch h s m l' r')" using same assms(2) f(1) by (simp del: merkle.simps)
  then have x: "x = merkle ?n" using Hash_merkle [OF _ f(2)] e(3) f(1) by (metis fst_conv)
  have "ucast (leafCounter w - branchCounter w) = (of_nat (L - B) :: u8)"
    using assms(3) by (simp add: wInv_def ucast_of_nat_8 flip: of_nat_diff)
  then show ?thesis using that e i1 wr x by (simp add: wrote_def del: merkle.simps)
qed

lemma Hash_imported:
  assumes "nhash (meta l) = Some (merkle l0)" "nhash (meta r) = Some (merkle r0)" "h \<noteq> 0"
  shows "Hash (Branch h s \<lparr>nversion = nversion m, nkey = k, nvalue = None, nhash = None, persisted = False\<rparr> l r) =
    (merkle (Branch h s m l0 r0), Branch h s \<lparr>nversion = nversion m, nkey = k, nvalue = None,
       nhash = Some (merkle (Branch h s m l0 r0)), persisted = False\<rparr> l r)"
proof -
  have "Hash l = (merkle l0, l)" "Hash r = (merkle r0, r)" using assms by (simp_all add: Hash.simps)
  then show ?thesis
    using assms(3) by (subst Hash.simps) (simp add: branchHashBytes_def hash_defs Let_def)
qed

lemma Hash_newLeaf:
  assumes "nvalue m \<noteq> None"
  shows "Hash (newLeafNode (nkey m) (nvalue m) (nversion m)) =
    (merkle (Leaf m), Leaf \<lparr>nversion = nversion m, nkey = nkey m, nvalue = nvalue m,
       nhash = Some (merkle (Leaf m)), persisted = False\<rparr>)"
  by (simp add: Hash.simps newLeafNode_def leafHashBytes_def hash_defs Let_def)

text \<open>What adding the nodes of a subtree does to an importer: it writes what \<open>writeRecursive\<close> writes and leaves one pending node.\<close>

definition imported :: "node \<Rightarrow> importer \<Rightarrow> snapshotWriter \<Rightarrow> bool" where
  "imported n i w \<longleftrightarrow>
     (\<exists>nd. importAll (exportOf n) i =
         Inr \<lparr>iw = w, leavesStack = leafCounter w # leavesStack i, nodeStack = nd # nodeStack i\<rparr> \<and>
       Size nd = Size n \<and> nhash (meta nd) = Some (merkle n))"

lemma importAll_tree:
  assumes "nodeWf n" "hashOK n" "signedVersions n" "writeRecursive background n (iw i) = Inr (w', n')"
    and "wInv (iw i) L B" "length (nodeStack i) = L - B"
  shows "imported n i w'"
  using assms
proof (induction n arbitrary: i w' n' L B)
  case (Leaf m)
  have v: "nvalue m \<noteq> None" using Leaf.prems(1) by (simp add: nodeWf_def)
  have "valueBytes (Leaf \<lparr>nversion = nversion m, nkey = nkey m, nvalue = nvalue m,
       nhash = Some (merkle (Leaf m)), persisted = False\<rparr>) = valueBytes (Leaf m)"
    by (simp add: valueBytes_def Value_def)
  then show ?case
    using writeRecursive_Leaf [OF Leaf.prems(2,4)] Leaf.prems(3) Hash_newLeaf [OF v]
    by (simp add: imported_def importAdd_def importLeaf_def toExport_def Key_def Value_def Version_def del: merkle.simps)
next
  case (Branch h s m l r)
  let ?n = "Branch h s m l r"
  have k: "nodeWf l" "nodeWf r" "hashOK l" "hashOK r" "signedVersions l" "signedVersions r"
    "h \<noteq> 0" "s = Size l + Size r" "0 \<le> sint (nversion m)"
    using Branch.prems(1-3) Size_nleaves by (auto simp: nodeWf_def)
  obtain w1 l' w2 r' where w: "writeRecursive background l (iw i) = Inr (w1, l')" "writeRecursive background r w1 = Inr (w2, r')"
    "wInv w1 (L + nleaves l) (B + nleaves l - 1)" "wInv w2 (L + nleaves l + nleaves r) (B + nleaves l - 1 + nleaves r - 1)"
    "w' = writeBranch (nversion m) (ucast s) h (of_nat (L - B)) (leafCounter w1) (merkle ?n) w2"
    using writeRecursive_Branch [OF Branch.prems(1,2,5,4)] by blast
  obtain ln where ln: "importAll (exportOf l) i =
      Inr \<lparr>iw = w1, leavesStack = leafCounter w1 # leavesStack i, nodeStack = ln # nodeStack i\<rparr>"
    "Size ln = Size l" "nhash (meta ln) = Some (merkle l)"
    using Branch.IH(1) [OF k(1,3,5) w(1) Branch.prems(5,6)] by (auto simp: imported_def)
  let ?i1 = "\<lparr>iw = w1, leavesStack = leafCounter w1 # leavesStack i, nodeStack = ln # nodeStack i\<rparr>"
  obtain a where a: "nleaves l = Suc a" by (metis nleaves_Suc)
  have "length (nodeStack ?i1) = L + nleaves l - (B + nleaves l - 1)"
    using Branch.prems(5,6) a by (simp add: wInv_def Suc_diff_le)
  then obtain rn where rn: "importAll (exportOf r) ?i1 =
      Inr \<lparr>iw = w2, leavesStack = leafCounter w2 # leavesStack ?i1, nodeStack = rn # nodeStack ?i1\<rparr>"
    "Size rn = Size r" "nhash (meta rn) = Some (merkle r)"
    using Branch.IH(2) [OF k(2,4,6), of ?i1 w2 r'] w(2,3) by (auto simp: imported_def)
  have "importAdd (toExport ?n) \<lparr>iw = w2, leavesStack = leafCounter w2 # leavesStack ?i1, nodeStack = rn # nodeStack ?i1\<rparr> =
      Inr \<lparr>iw = w', leavesStack = leafCounter w' # leavesStack i,
        nodeStack = Branch h s \<lparr>nversion = nversion m, nkey = nkey m, nvalue = None,
          nhash = Some (merkle ?n), persisted = False\<rparr> ln rn # nodeStack i\<rparr>"
    using Hash_imported [OF ln(3) rn(3) k(7), of s m "nkey m"] k(8,9) k(7) Branch.prems(6) w(5) ln(2) rn(2)
    by (simp add: importAdd_def importBranch_def toExport_def Key_def Version_def Let_def del: merkle.simps)
  then show ?case using ln(1) rn(1) by (simp add: imported_def del: merkle.simps)
qed

lemma doImport_export:
  assumes "nodeWf n" "hashOK n" "signedVersions n" "0 \<le> v"
    and "writeSnapshot (of_int v) (writeRoot background (Some n)) d = Inr (d', rt)"
  shows "doImport v (exportOf n) d = Inr d'"
proof -
  obtain w' n' where w: "writeRecursive background n newSnapshotWriter = Inr (w', n')"
    using writeRecursive_total [of background] by force
  let ?i = "\<lparr>iw = newSnapshotWriter, leavesStack = [], nodeStack = []\<rparr>"
  have "imported n ?i w'"
    by (rule importAll_tree [OF assms(1-3), of ?i w' n' 0 0]) (use w in \<open>simp_all add: wInv_def newSnapshotWriter_def\<close>)
  then show ?thesis
    using assms(4,5) w by (auto simp: doImport_def imported_def writeSnapshot_def writeRoot_def Let_def)
qed

section \<open>Properties\<close>

text \<open>C15: state sync reproduces the snapshot. Importing the exported nodes of a tree writes the very
  files that writing the tree itself does, byte for byte, although the importer sees only the stream and
  rebuilds sizes, hashes and file offsets from it; the result opens, stores the tree, and exports
  the same stream again.\<close>

theorem import_export_roundtrip:
  assumes "nodeWf n" "hashOK n" "signedVersions n" "storable (Some n)" "0 \<le> v"
  shows "\<exists>d' n' S. doImport v (map toExport (ScanPostOrder (Some n))) d = Inr d' \<and>
    writeSnapshot (of_int v) (writeRoot background (Some n)) d = Inr (d', Some n') \<and>
    OpenSnapshot d' = Inr S \<and> sversion S = of_int v \<and> sroot S = Some (pnodeFor n 0 0) \<and> stored S n 0 0 \<and>
    snapExport S = Some (map toExport (ScanPostOrder (Some n)))"
proof -
  have st: "smallKV n" "nleaves n < 2 ^ 32" "kvsSize (leaves n) < 2 ^ 64" using assms(4) by (auto simp: storable_def)
  have sc: "ScanPostOrder (Some n) = postOrder n" using ScanPostOrder_postOrder [of "Some n"] assms(1) by simp
  obtain d' n' S where w: "writeSnapshot (of_int v) (writeRoot background (Some n)) d = Inr (d', Some n')"
    "OpenSnapshot d' = Inr S" "sversion S = of_int v" "sroot S = Some (pnodeFor n 0 0)" "stored S n 0 0" "snapOf S n"
    using writeSnapshot_open [OF assms(1,2) st, of background "of_int v" d] by (auto simp: snapOf_def)
  show ?thesis
    unfolding sc using w doImport_export [OF assms(1-3,5) w(1)] snapExport_snapOf [OF assms(1) st(1,2) w(6)] by blast
qed

lemma sampleTree_signed: "signedVersions sampleTree"
  by (simp add: sampleTree_def) code_simp

theorem import_export_roundtrip_witness:
  "\<exists>d' S. doImport 5 (map toExport (ScanPostOrder (Some sampleTree))) (\<lambda>_. None) = Inr d' \<and>
     OpenSnapshot d' = Inr S \<and> sversion S = 5"
  using import_export_roundtrip [OF sampleTree_wf sampleTree_hashOK sampleTree_signed, of 5 "\<lambda>_. None"]
    sampleMemTree_OK(2) by (force simp: sampleMemTree_def)

end
