(* ===== verification/TreeSim.thy ===== *)
theory TreeSim
  imports MemTree
begin

text \<open>
  Replicas of a tree. Two trees are the same replica when they differ only in what a node does not
  commit to: memoized hashes, whether a node lives in memory or in a snapshot file, the
  copy-on-write version and the cache. Every operation of \<open>memiavl/tree.go\<close> takes equal replicas to equal
  replicas, so a tree restored from disk follows the tree it was saved from.
\<close>

section \<open>Nodes\<close>

lemma strip_fields [simp]:
  "Height (strip n) = Height n" "Size (strip n) = Size n" "Key (strip n) = Key n" "Value (strip n) = Value n"
  "Version (strip n) = Version n" "ht (strip n) = ht n"
  by (induction n) (simp_all add: Key_def Value_def Version_def)

lemma strip_wf [simp]:
  "balanced (strip n) = balanced n" "sized (strip n) = sized n" "ordered (strip n) = ordered n"
  by (induction n) (simp_all add: keys_def)

lemma IsLeaf_strip: "balanced n \<Longrightarrow> IsLeaf (strip n) = IsLeaf n"
  using IsLeaf_ht [of n] IsLeaf_ht [of "strip n"] by (cases n) auto

lemma strip_strip [simp]: "strip (strip n) = strip n"
  by (induction n) simp_all

lemma strip_ops [simp]:
  "strip (Mutate n v c) = Mutate (strip n) v c" "strip (updateHeightSize n) = updateHeightSize (strip n)"
  "calcBalance (strip n) = calcBalance n" "strip (setValue n x) = setValue (strip n) x"
  "strip (setKey n k) = setKey (strip n) k" "strip (setLeft n y) = setLeft (strip n) (strip y)"
  "strip (setRight n y) = setRight (strip n) (strip y)"
  by (cases n; simp add: mutateMeta_def)+

lemma strip_rotate [simp]:
  "strip (rotateRight n v c) = rotateRight (strip n) v c" "strip (rotateLeft n v c) = rotateLeft (strip n) v c"
proof -
  show "strip (rotateRight n v c) = rotateRight (strip n) v c"
    by (induction n v c rule: rotateRight.induct) (simp_all add: Let_def mutateMeta_def)
  show "strip (rotateLeft n v c) = rotateLeft (strip n) v c"
    by (induction n v c rule: rotateLeft.induct) (simp_all add: Let_def mutateMeta_def)
qed

lemma strip_reBalance [simp]: "strip (reBalance n v c) = reBalance (strip n) v c"
proof (cases n)
  case (Branch h s m l r)
  then show ?thesis by (simp add: Let_def reBalance.simps)
qed simp

lemma strip_setNode:
  "balanced n \<Longrightarrow> setNode (strip n) k v ver cow = (strip (fst (setNode n k v ver cow)), snd (setNode n k v ver cow))"
proof (induction n)
  case (Leaf m)
  then show ?case
    by (simp add: setAtLeaf_def newBranch_def newLeafNode_def Key_def mutateMeta_def)
next
  case (Branch h s m l r)
  have nl: "\<not> IsLeaf (Branch h s m l r)" "\<not> IsLeaf (Branch h s (m\<lparr>nhash := None, persisted := False\<rparr>) (strip l) (strip r))"
    using Branch.prems by auto
  then show ?case
    using Branch by (simp add: case_prod_beta Let_def mutateMeta_def del: IsLeaf.simps)
qed

lemma key_update_commutes:
  "m\<lparr>nversion := v, nhash := x, persisted := p, nkey := k\<rparr> = m\<lparr>nversion := v, nkey := k, nhash := x, persisted := p\<rparr>"
  for m :: nodeMeta
  by (cases m) simp

lemma strip_removeNode:
  "balanced n \<Longrightarrow> removeNode (strip n) k ver cow =
     (case removeNode n k ver cow of (v, n', nk) \<Rightarrow> (v, map_option strip n', nk))"
proof (induction n)
  case (Leaf m)
  then show ?case by (simp add: removeAtLeaf_def Key_def Value_def)
next
  case (Branch h s m l r)
  have nl: "\<not> IsLeaf (Branch h s m l r)" "\<not> IsLeaf (Branch h s (m\<lparr>nhash := None, persisted := False\<rparr>) (strip l) (strip r))"
    using Branch.prems by auto
  obtain vl l' kl where L: "removeNode l k ver cow = (vl, l', kl)" by (cases "removeNode l k ver cow") auto
  obtain vr r' kr where R: "removeNode r k ver cow = (vr, r', kr)" by (cases "removeNode r k ver cow") auto
  have "removeNode (strip l) k ver cow = (vl, map_option strip l', kl)"
    "removeNode (strip r) k ver cow = (vr, map_option strip r', kr)"
    using Branch L R by auto
  then show ?case
    using nl L R by (cases l'; cases r'; cases kr) (simp_all add: Let_def mutateMeta_def key_update_commutes del: IsLeaf.simps)
qed

lemma Mutate_cow: "Mutate n v c = Mutate n v c'"
  by (cases n) simp_all

lemma rotate_cow: "rotateRight n v c = rotateRight n v c'" "rotateLeft n v c = rotateLeft n v c'"
proof -
  show "rotateRight n v c = rotateRight n v c'"
    by (induction n v c rule: rotateRight.induct) (simp_all add: Let_def)
  show "rotateLeft n v c = rotateLeft n v c'"
    by (induction n v c rule: rotateLeft.induct) (simp_all add: Let_def)
qed

lemma reBalance_cow: "reBalance n v c = reBalance n v c'"
  by (cases n)
    (simp_all add: Let_def reBalance.simps rotate_cow [of _ v c c'] Mutate_cow [of _ v c c'])

lemma setNode_cow: "setNode n k x v c = setNode n k x v c'"
  by (induction n)
    (simp_all add: setAtLeaf_def Mutate_cow [of _ v c c'] reBalance_cow [of _ v c c'] Let_def case_prod_beta del: Mutate.simps)

lemma removeNode_cow: "removeNode n k v c = removeNode n k v c'"
  by (induction n)
    (simp_all add: Mutate_cow [of _ v c c'] reBalance_cow [of _ v c c'] Let_def case_prod_beta del: Mutate.simps cong: option.case_cong)

section \<open>Trees\<close>

definition treeSim :: "'c tree \<Rightarrow> 'd tree \<Rightarrow> bool" where
  "treeSim t t' \<longleftrightarrow> tversion t = tversion t' \<and> map_option strip (troot t) = map_option strip (troot t')"

lemma rootLeaves_strip [simp]: "rootLeaves (map_option strip rt) = rootLeaves rt"
  by (cases rt) simp_all

lemma rootMerkle_strip [simp]: "rootMerkle (map_option strip rt) = rootMerkle rt"
  by (cases rt) (simp_all add: merkle_strip del: merkle.simps)

lemma treeSim_facts:
  assumes "treeSim t t'"
  shows "tversion t' = tversion t" "rootLeaves (troot t') = rootLeaves (troot t)"
    "rootMerkle (troot t') = rootMerkle (troot t)"
  using assms rootLeaves_strip [of "troot t"] rootMerkle_strip [of "troot t"] by (auto simp: treeSim_def)

lemma setRecursive_strip:
  assumes "rootWf a"
  shows "strip (fst (setRecursive a k v ver c)) = fst (setRecursive (map_option strip a) k v ver 0)"
  using assms strip_setNode [of _ k v ver c] setNode_cow [of _ k v ver c 0]
  by (cases a) (simp_all add: setRecursive_def newLeafNode_def nodeWf_def)

lemma removeRecursive_strip:
  assumes "rootWf a"
  shows "map_option strip (fst (snd (removeRecursive a k ver c))) =
    fst (snd (removeRecursive (map_option strip a) k ver 0))"
  using assms strip_removeNode [of _ k ver c] removeNode_cow [of _ k ver c 0]
  by (cases a) (simp_all add: removeRecursive_def nodeWf_def case_prod_beta)

lemma treeSim_applyPair:
  assumes "rootWf (troot t)" "rootWf (troot t')" "treeSim t t'"
  shows "treeSim (applyPair ops p t) (applyPair ops' p t')"
  using assms setRecursive_strip [OF assms(1), of "kvKey p" _ "tversion t + 1" "cowVersion t"]
    setRecursive_strip [OF assms(2), of "kvKey p" _ "tversion t + 1" "cowVersion t'"]
    removeRecursive_strip [OF assms(1), of "kvKey p" "tversion t + 1" "cowVersion t"]
    removeRecursive_strip [OF assms(2), of "kvKey p" "tversion t + 1" "cowVersion t'"]
  by (simp add: treeSim_def applyPair_def treeSet_def treeRemove_def Let_def)

lemma treeSim_ApplyChangeSet:
  assumes "cacheLaws ops view" "cacheLaws ops' view'" "treeOK view t" "treeOK view' t'" "treeSim t t'"
    and "length (rootLeaves (troot t)) + length cs \<le> 2 ^ 62"
  shows "treeSim (ApplyChangeSet ops cs t) (ApplyChangeSet ops' cs t')"
  using assms(3-6)
proof (induction cs arbitrary: t t')
  case (Cons p cs)
  have eq: "rootLeaves (troot t') = rootLeaves (troot t)" using treeSim_facts Cons.prems(3) by blast
  have sz: "length (rootLeaves (troot t)) + length [p] \<le> 2 ^ 62" using Cons.prems(4) by simp
  have sim: "treeSim (applyPair ops p t) (applyPair ops' p t')"
    using treeSim_applyPair Cons.prems(1-3) by (auto simp: treeOK_def)
  note a = ApplyChangeSet_OK [OF assms(1) Cons.prems(1) sz] and
    b = ApplyChangeSet_OK [OF assms(2) Cons.prems(2), of "[p]", unfolded eq, OF sz]
  have ok: "treeOK view (applyPair ops p t)" "treeOK view' (applyPair ops' p t')"
    using a(1) b(1) by (simp_all add: ApplyChangeSet_def)
  have "length (rootLeaves (troot (applyPair ops p t))) + length cs \<le> 2 ^ 62"
    using a(3) Cons.prems(4) by (simp add: ApplyChangeSet_def)
  from Cons.IH [OF ok sim this] show ?case by (simp add: ApplyChangeSet_def)
qed (simp add: ApplyChangeSet_def)

lemma treeSim_RootHash:
  assumes "treeOK view t" "treeOK view' t'" "treeSim t t'"
  shows "fst (treeRootHash t) = fst (treeRootHash t')"
  using treeRootHash_spec(1) [OF assms(1)] treeRootHash_spec(1) [OF assms(2)] treeSim_facts(3) [OF assms(3)] by simp

lemma treeSim_sym: "treeSim t t' \<Longrightarrow> treeSim t' t"
  by (simp add: treeSim_def)

lemma treeSim_trans: "treeSim t t' \<Longrightarrow> treeSim t' t'' \<Longrightarrow> treeSim t t''"
  by (simp add: treeSim_def)

lemma treeSim_hashed:
  assumes "treeOK view t"
  shows "treeSim t (snd (treeRootHash t))"
proof (cases "troot t")
  case (Some n)
  then have h: "hashOK n" "balanced n" using assms by (auto simp: treeOK_def nodeWf_def)
  then show ?thesis
    using Some strip_sameNode [of n "snd (Hash n)"] Hash_merkle [OF h]
    by (auto simp: treeSim_def treeRootHash_def split_beta)
qed (simp add: treeSim_def treeRootHash_def)

text \<open>Saving a version keeps replicas in step, whether or not they compute the hash.\<close>

lemma treeSaveVersion_sim:
  assumes "treeOK view t" "tversion t + 1 \<le> MaxInt64"
  shows "\<exists>h u. treeSaveVersion b t = Inr ((h, tversion t + 1), u) \<and> treeSim (t\<lparr>tversion := tversion t + 1\<rparr>) u \<and>
    treeOK view u \<and> rootLeaves (troot u) = rootLeaves (troot t) \<and>
    (b \<longrightarrow> h = Some (rootMerkle (troot t)))"
proof -
  obtain h x where r: "treeRootHash t = (h, x)" by fastforce
  note s = treeRootHash_spec [OF assms(1), unfolded r] treeSim_hashed [OF assms(1), unfolded r]
  have ok: "treeOK view (y\<lparr>tversion := w\<rparr>) = treeOK view y" for w y
    by (simp add: treeOK_def cacheOK_def)
  show ?thesis
    using s assms by (cases b) (simp_all add: treeSaveVersion_def Let_def r ok not_less treeSim_def)
qed

lemma treeSaveVersion_fails: "MaxInt64 < tversion t + 1 \<Longrightarrow> treeSaveVersion b t = Inl VersionOverflow"
  by (simp add: treeSaveVersion_def)

end
