(* ===== verification/MultiTree.thy ===== *)
theory MultiTree
  imports TreeSim
begin

text \<open>
  Several named trees that advance together: \<open>memiavl/multitree.go\<close>. Signed 64-bit versions are
  their bit patterns, so the casts between \<open>int64\<close> and \<open>uint64\<close> are the identity and \<open>+\<close> wraps as in the
  source. The protobuf codecs of the metadata and of a log entry are generated code, and the log is
  the package \<open>tidwall/wal\<close>: all three are parameters. The worker pool writes the trees of a snapshot into
  disjoint directories, so the order of the jobs does not matter and the model takes them in turn.
\<close>

section \<open>Version arithmetic\<close>

definition nextVersion :: "u64 \<Rightarrow> u64 \<Rightarrow> u64" where
  "nextVersion v initialVersion = (if v = 0 \<and> 1 < initialVersion then initialVersion else v + 1)"

definition walIndex :: "u64 \<Rightarrow> u64 \<Rightarrow> u64" where
  "walIndex v initialVersion = (if 1 < initialVersion then v - initialVersion + 1 else v)"

definition walVersion :: "u64 \<Rightarrow> u64 \<Rightarrow> u64" where
  "walVersion index initialVersion = (if 1 < initialVersion then index + initialVersion - 1 else index)"

section \<open>State\<close>

record commitID =
  cidVersion :: u64
  cidHash :: bytes

record storeInfo =
  siName :: string
  siCommitId :: commitID

record commitInfo =
  ciVersion :: u64
  storeInfos :: "storeInfo list"

record mtMetadata =
  mdCommitInfo :: commitInfo
  mdInitialVersion :: u64

record 'c multiTree =
  mInitialVersion :: u64
  mZeroCopy :: bool
  mCacheSize :: int
  mtrees :: "(string \<times> 'c tree) list"
  treesByName :: "string \<rightharpoonup> nat"
  lastCommitInfo :: commitInfo
  mmetadata :: mtMetadata

record treeNameUpgrade =
  upName :: string
  upRenameFrom :: string
  upDelete :: bool

record walEntry =
  weChangesets :: "(string \<times> changeSet) list"
  weUpgrades :: "treeNameUpgrade list"

datatype mtError = UnknownTree string | NameConflict string | NegativeInitial | MultiTreeNotEmpty
  | TreeNotEmpty string | TreeFailed treeError | Panic | WalReadFailed | WalUnmarshalFailed
  | TargetPruned u64 | MetadataMissing | MetadataInvalid | NegativeCommitVersion | SnapFailed snapError
  | WriteFailed writeError

definition emptyCommitInfo :: commitInfo where
  "emptyCommitInfo = \<lparr>ciVersion = 0, storeInfos = []\<rparr>"

definition emptyMetadata :: mtMetadata where
  "emptyMetadata = \<lparr>mdCommitInfo = emptyCommitInfo, mdInitialVersion = 0\<rparr>"

definition NewEmptyMultiTree :: "u64 \<Rightarrow> int \<Rightarrow> 'c multiTree" where
  "NewEmptyMultiTree initialVersion cacheSize =
     \<lparr>mInitialVersion = initialVersion, mZeroCopy = True, mCacheSize = cacheSize, mtrees = [],
      treesByName = Map.empty, lastCommitInfo = emptyCommitInfo, mmetadata = emptyMetadata\<rparr>"

section \<open>Accessors and settings\<close>

definition TreeByName :: "string \<Rightarrow> 'c multiTree \<Rightarrow> 'c tree option" where
  "TreeByName name mt =
     (case treesByName mt name of
        None \<Rightarrow> None
      | Some i \<Rightarrow> if i < length (mtrees mt) then Some (snd (mtrees mt ! i)) else None)"

definition mtVersion :: "'c multiTree \<Rightarrow> u64" where
  "mtVersion mt = ciVersion (lastCommitInfo mt)"

definition SnapshotVersion :: "'c multiTree \<Rightarrow> u64" where
  "SnapshotVersion mt = ciVersion (mdCommitInfo (mmetadata mt))"

definition mapTrees :: "('c tree \<Rightarrow> 'c tree) \<Rightarrow> 'c multiTree \<Rightarrow> 'c multiTree" where
  "mapTrees f mt = mt\<lparr>mtrees := map (\<lambda>(name, t). (name, f t)) (mtrees mt)\<rparr>"

definition mtSetInitial :: "u64 \<Rightarrow> 'c multiTree \<Rightarrow> 'c multiTree" where
  "mtSetInitial initialVersion mt =
     (let mt1 = mt\<lparr>mInitialVersion := initialVersion\<rparr>
      in if 1 < initialVersion then mapTrees (setInitialVersion initialVersion) mt1 else mt1)"

definition mtSetInitialVersion :: "u64 \<Rightarrow> ('c multiTree, mtError, unit) action" where
  "mtSetInitialVersion initialVersion mt =
     (if sint initialVersion < 0 then (Inl NegativeInitial, mt)
      else if mtVersion mt \<noteq> 0 then (Inl MultiTreeNotEmpty, mt)
      else case find (\<lambda>(name, t). \<not> treeIsEmpty t) (mtrees mt) of
             Some (name, _) \<Rightarrow> (Inl (TreeNotEmpty name), mt)
           | None \<Rightarrow> (Inr (), mtSetInitial initialVersion mt))"

definition mtSetZeroCopy :: "bool \<Rightarrow> 'c multiTree \<Rightarrow> 'c multiTree" where
  "mtSetZeroCopy zc mt = mapTrees (SetZeroCopy zc) (mt\<lparr>mZeroCopy := zc\<rparr>)"

fun indexFrom :: "nat \<Rightarrow> (string \<times> 'c tree) list \<Rightarrow> (string \<rightharpoonup> nat) \<Rightarrow> string option \<times> (string \<rightharpoonup> nat)" where
  "indexFrom i [] m = (None, m)"
| "indexFrom i ((name, t) # ts) m =
     (if m name \<noteq> None then (Some name, m) else indexFrom (i + 1) ts (m(name \<mapsto> i)))"

text \<open>\<open>Copy\<close> marks every tree as shared, so it changes the original as well as returning the clone.\<close>

definition mtCopy :: "'c cacheOps \<Rightarrow> int \<Rightarrow> 'c multiTree \<Rightarrow> 'c multiTree \<times> 'c multiTree" where
  "mtCopy ops cacheSize mt =
     (let copies = map (\<lambda>(name, t). (name, treeCopy ops cacheSize t)) (mtrees mt);
          mt1 = mt\<lparr>mtrees := map (\<lambda>(name, (t, _)). (name, t)) copies\<rparr>;
          trees = map (\<lambda>(name, (_, t)). (name, t)) copies
      in (mt1, mt1\<lparr>mtrees := trees, treesByName := map_of (zip (map fst trees) [0..<length trees])\<rparr>))"

definition mtClose :: "'c multiTree \<Rightarrow> 'c multiTree" where
  "mtClose mt = mt\<lparr>mtrees := [], treesByName := Map.empty, lastCommitInfo := emptyCommitInfo\<rparr>"

section \<open>Upgrades\<close>

fun indexOfName :: "string \<Rightarrow> (string \<times> 'a) list \<Rightarrow> nat option" where
  "indexOfName name [] = None"
| "indexOfName name (p # ps) = (if fst p = name then Some 0 else map_option Suc (indexOfName name ps))"

definition swapDelete :: "nat \<Rightarrow> 'a list \<Rightarrow> 'a list" where
  "swapDelete i xs = butlast ((xs[i := last xs])[length xs - 1 := xs ! i])"

definition applyUpgrade :: "'c cacheOps \<Rightarrow> treeNameUpgrade \<Rightarrow> ('c multiTree, mtError, unit) action" where
  "applyUpgrade ops up mt =
     (if upDelete up then
        (case indexOfName (upName up) (mtrees mt) of
           None \<Rightarrow> (Inl (UnknownTree (upName up)), mt)
         | Some i \<Rightarrow> (Inr (), mt\<lparr>mtrees := swapDelete i (mtrees mt)\<rparr>))
      else if upRenameFrom up \<noteq> [] then
        (case indexOfName (upRenameFrom up) (mtrees mt) of
           None \<Rightarrow> (Inl (UnknownTree (upRenameFrom up)), mt)
         | Some i \<Rightarrow> (Inr (), mt\<lparr>mtrees := (mtrees mt)[i := (upName up, snd (mtrees mt ! i))]\<rparr>))
      else
        (let t = NewWithInitialVersion ops (nextVersion (mtVersion mt) (mInitialVersion mt)) (mCacheSize mt)
         in (Inr (), mt\<lparr>mtrees := mtrees mt @ [(upName up, t)]\<rparr>)))"

definition reindex :: "('c multiTree, mtError, unit) action" where
  "reindex mt =
     (let ts = sort_key fst (mtrees mt) in
      case indexFrom 0 ts Map.empty of
        (None, m) \<Rightarrow> (Inr (), mt\<lparr>mtrees := ts, treesByName := m\<rparr>)
      | (Some name, m) \<Rightarrow> (Inl (NameConflict name), mt\<lparr>mtrees := ts, treesByName := m\<rparr>))"

definition ApplyUpgrades :: "'c cacheOps \<Rightarrow> treeNameUpgrade list \<Rightarrow> ('c multiTree, mtError, unit) action" where
  "ApplyUpgrades ops upgrades mt =
     (if upgrades = [] then (Inr (), mt)
      else thenDo (forEach (applyUpgrade ops) upgrades) (\<lambda>_. reindex) (mt\<lparr>treesByName := Map.empty\<rparr>))"

section \<open>Changes and versions\<close>

definition mtApplyChangeSet :: "'c cacheOps \<Rightarrow> string \<times> changeSet \<Rightarrow> ('c multiTree, mtError, unit) action" where
  "mtApplyChangeSet ops ncs mt =
     (case ncs of (name, cs) \<Rightarrow>
        (case treesByName mt name of
           None \<Rightarrow> (Inl (UnknownTree name), mt)
         | Some i \<Rightarrow>
             if i < length (mtrees mt) then
               (Inr (), mt\<lparr>mtrees := (mtrees mt)[i := (fst (mtrees mt ! i), ApplyChangeSet ops cs (snd (mtrees mt ! i)))]\<rparr>)
             else (Inl Panic, mt)))"

definition mtApplyChangeSets :: "'c cacheOps \<Rightarrow> (string \<times> changeSet) list \<Rightarrow> ('c multiTree, mtError, unit) action" where
  "mtApplyChangeSets ops = forEach (mtApplyChangeSet ops)"

definition applyWALEntry :: "'c cacheOps \<Rightarrow> walEntry \<Rightarrow> ('c multiTree, mtError, unit) action" where
  "applyWALEntry ops entry = thenDo (ApplyUpgrades ops (weUpgrades entry)) (\<lambda>_. mtApplyChangeSets ops (weChangesets entry))"

text \<open>\<open>Version\<close> of a tree panics outside the signed range; \<open>RootHash\<close> memoizes hashes in the tree.\<close>

fun storeInfosOf :: "(string \<times> 'c tree) list \<Rightarrow> (mtError + storeInfo list) \<times> (string \<times> 'c tree) list" where
  "storeInfosOf [] = (Inr [], [])"
| "storeInfosOf ((name, t) # ts) =
     (case treeVersion t of
        Inl e \<Rightarrow> (Inl Panic, (name, t) # ts)
      | Inr v \<Rightarrow>
          (let (h, t') = treeRootHash t; (r, ts') = storeInfosOf ts in
           (case r of
              Inl e \<Rightarrow> (Inl e, (name, t') # ts')
            | Inr infos \<Rightarrow>
                (Inr (\<lparr>siName = name, siCommitId = \<lparr>cidVersion = v, cidHash = h\<rparr>\<rparr> # infos), (name, t') # ts'))))"

definition buildCommitInfo :: "u64 \<Rightarrow> ('c multiTree, mtError, commitInfo) action" where
  "buildCommitInfo version mt =
     (case storeInfosOf (mtrees mt) of
        (Inl e, ts) \<Rightarrow> (Inl e, mt\<lparr>mtrees := ts\<rparr>)
      | (Inr infos, ts) \<Rightarrow> (Inr \<lparr>ciVersion = version, storeInfos = infos\<rparr>, mt\<lparr>mtrees := ts\<rparr>))"

definition WorkingCommitInfo :: "('c multiTree, mtError, commitInfo) action" where
  "WorkingCommitInfo mt = buildCommitInfo (nextVersion (mtVersion mt) (mInitialVersion mt)) mt"

definition UpdateCommitInfo :: "('c multiTree, mtError, unit) action" where
  "UpdateCommitInfo mt =
     thenDo (buildCommitInfo (mtVersion mt)) (\<lambda>ci mt1. (Inr (), mt1\<lparr>lastCommitInfo := ci\<rparr>)) mt"

fun saveTrees :: "bool \<Rightarrow> (string \<times> 'c tree) list \<Rightarrow> treeError option \<times> (string \<times> 'c tree) list" where
  "saveTrees upd [] = (None, [])"
| "saveTrees upd ((name, t) # ts) =
     (case treeSaveVersion upd t of
        Inl e \<Rightarrow> (Some e, (name, t) # ts)
      | Inr (_, t') \<Rightarrow> (let (e, ts') = saveTrees upd ts in (e, (name, t') # ts')))"

definition mtSaveVersion :: "bool \<Rightarrow> ('c multiTree, mtError, u64) action" where
  "mtSaveVersion updateCommitInfo mt =
     (let version = nextVersion (mtVersion mt) (mInitialVersion mt);
          mt1 = mt\<lparr>lastCommitInfo := (lastCommitInfo mt)\<lparr>ciVersion := version\<rparr>\<rparr>
      in case saveTrees updateCommitInfo (mtrees mt1) of
           (Some e, ts) \<Rightarrow> (Inl (TreeFailed e), mt1\<lparr>mtrees := ts\<rparr>)
         | (None, ts) \<Rightarrow>
             (let mt2 = mt1\<lparr>mtrees := ts\<rparr> in
              if updateCommitInfo
              then thenDo UpdateCommitInfo (\<lambda>_ mt3. (Inr (mtVersion mt3), mt3)) mt2
              else (Inr version, mt2\<lparr>lastCommitInfo := (lastCommitInfo mt2)\<lparr>storeInfos := []\<rparr>\<rparr>)))"

section \<open>Replay of the log\<close>

text \<open>
  What \<open>CatchupWAL\<close> uses of the log: its last index (\<open>None\<close> is an error) and the entry at an
  index. The loop runs over the indices from first to last; it never wraps, as the last index of
  a log is smaller than \<open>2 ^ 64 - 1\<close>.
\<close>

record walReader =
  wrLast :: "u64 option"
  wrRead :: "u64 \<Rightarrow> bytes option"

definition replayIndex ::
  "'c cacheOps \<Rightarrow> (bytes \<Rightarrow> walEntry option) \<Rightarrow> walReader \<Rightarrow> u64 \<Rightarrow> ('c multiTree, mtError, unit) action" where
  "replayIndex ops unmarshal log i mt =
     (case wrRead log i of
        None \<Rightarrow> (Inl WalReadFailed, mt)
      | Some bz \<Rightarrow>
          (case unmarshal bz of
             None \<Rightarrow> (Inl WalUnmarshalFailed, mt)
           | Some entry \<Rightarrow>
               thenDo (applyWALEntry ops entry) (\<lambda>_. thenDo (mtSaveVersion False) (\<lambda>_ mt1. (Inr (), mt1))) mt))"

definition CatchupWAL ::
  "'c cacheOps \<Rightarrow> (bytes \<Rightarrow> walEntry option) \<Rightarrow> walReader \<Rightarrow> u64 \<Rightarrow> ('c multiTree, mtError, unit) action" where
  "CatchupWAL ops unmarshal log endVersion mt =
     (case wrLast log of
        None \<Rightarrow> (Inl WalReadFailed, mt)
      | Some lastIndex \<Rightarrow>
          (let firstIndex = walIndex (nextVersion (mtVersion mt) (mInitialVersion mt)) (mInitialVersion mt) in
           if lastIndex < firstIndex then (Inr (), mt)
           else
             (let endIndex = (if endVersion = 0 then lastIndex else walIndex endVersion (mInitialVersion mt)) in
              if endIndex < firstIndex then (Inl (TargetPruned endIndex), mt)
              else
                (let stop = min endIndex lastIndex in
                 thenDo (forEach (\<lambda>i. replayIndex ops unmarshal log (of_nat i)) [unat firstIndex ..< Suc (unat stop)])
                   (\<lambda>_. UpdateCommitInfo) mt))))"

section \<open>Snapshots\<close>

record snapDir =
  metaFile :: "bytes option"
  subDirs :: "(string \<times> dir) list"

definition emptySnapDir :: snapDir where
  "emptySnapDir = \<lparr>metaFile = None, subDirs = []\<rparr>"

definition readMetadata :: "(bytes \<Rightarrow> mtMetadata option) \<Rightarrow> snapDir \<Rightarrow> mtError + mtMetadata" where
  "readMetadata unmarshal sd =
     (case metaFile sd of
        None \<Rightarrow> Inl MetadataMissing
      | Some bz \<Rightarrow>
          (case unmarshal bz of
             None \<Rightarrow> Inl MetadataInvalid
           | Some md \<Rightarrow>
               if sint (ciVersion (mdCommitInfo md)) < 0 then Inl NegativeCommitVersion
               else if sint (mdInitialVersion md) < 0 then Inl NegativeInitial
               else Inr md))"

fun openTrees :: "'c cacheOps \<Rightarrow> bool \<Rightarrow> int \<Rightarrow> (string \<times> dir) list \<Rightarrow> mtError + (string \<times> 'c tree) list" where
  "openTrees ops zc cacheSize [] = Inr []"
| "openTrees ops zc cacheSize ((name, d) # ds) =
     (case OpenSnapshot d of
        Inl e \<Rightarrow> Inl (SnapFailed e)
      | Inr S \<Rightarrow> andThen (openTrees ops zc cacheSize ds)
          (\<lambda>ts. Inr ((name, NewFromSnapshot ops S zc cacheSize) # ts)))"

definition LoadMultiTree ::
  "'c cacheOps \<Rightarrow> (bytes \<Rightarrow> mtMetadata option) \<Rightarrow> snapDir \<Rightarrow> bool \<Rightarrow> int \<Rightarrow> mtError + 'c multiTree" where
  "LoadMultiTree ops unmarshal sd zc cacheSize =
     andThen (readMetadata unmarshal sd) (\<lambda>md.
     andThen (openTrees ops zc cacheSize (subDirs sd)) (\<lambda>ts0.
       let ts = sort_key fst ts0;
           mt = \<lparr>mInitialVersion = 0, mZeroCopy = zc, mCacheSize = cacheSize, mtrees = ts,
             treesByName = map_of (zip (map fst ts) [0..<length ts]),
             lastCommitInfo = mdCommitInfo md, mmetadata = md\<rparr>
       in Inr (mtSetInitial (mdInitialVersion md) mt)))"

fun writeTrees ::
  "(string \<Rightarrow> u32 \<Rightarrow> bool) \<Rightarrow> (string \<times> 'c tree) list \<Rightarrow> mtError + (string \<times> dir) list \<times> (string \<times> 'c tree) list" where
  "writeTrees ctx [] = Inr ([], [])"
| "writeTrees ctx ((name, t) # ts) =
     (case WriteSnapshot (ctx name) Map.empty t of
        Inl e \<Rightarrow> Inl (WriteFailed e)
      | Inr (d, t') \<Rightarrow> andThen (writeTrees ctx ts) (\<lambda>(ds, ts'). Inr ((name, d) # ds, (name, t') # ts')))"

text \<open>The files of a snapshot, in a directory of their own; the callers say what becomes of files that were there.\<close>

definition mtWriteSnapshot ::
  "(mtMetadata \<Rightarrow> bytes) \<Rightarrow> (string \<Rightarrow> u32 \<Rightarrow> bool) \<Rightarrow> 'c multiTree \<Rightarrow> mtError + snapDir \<times> 'c multiTree" where
  "mtWriteSnapshot marshal ctx mt =
     andThen (writeTrees ctx (mtrees mt)) (\<lambda>(ds, ts).
       Inr (\<lparr>metaFile = Some (marshal \<lparr>mdCommitInfo = lastCommitInfo mt, mdInitialVersion = mInitialVersion mt\<rparr>),
             subDirs = ds\<rparr>,
            mt\<lparr>mtrees := ts\<rparr>))"

end
