(* ===== verification/SnapDirs.thy ===== *)
theory SnapDirs
  imports MultiTree
begin

text \<open>
  The snapshot directories of a database directory (\<open>memiavl/db.go\<close>, from \<open>snapshotName\<close> on): their names, the
  traversal in either order, and the operations that link, remove and prune them. A database
  directory is the target of its \<open>current\<close> link, that of a left-over \<open>current-tmp\<close> link, and its
  snapshot directories in the order in which \<open>os.ReadDir\<close> lists them, by name. Signed 64-bit versions are
  integers here; \<open>ParseInt\<close> rejects what does not fit.
\<close>

section \<open>Names\<close>

definition SnapshotPrefix :: string where "SnapshotPrefix = ''snapshot-''"

definition SnapshotDirLen :: nat where "SnapshotDirLen = length SnapshotPrefix + 20"

definition TmpSuffix :: string where "TmpSuffix = ''-tmp''"

definition digitChar :: "nat \<Rightarrow> char" where
  "digitChar n = char_of (48 + n)"

definition charDigit :: "char \<Rightarrow> nat option" where
  "charDigit c = (if 48 \<le> (of_char c :: nat) \<and> (of_char c :: nat) \<le> 57 then Some (of_char c - 48) else None)"

text \<open>The verb \<open>%0wd\<close> of \<open>fmt\<close>: decimal digits, padded with zeros; a sign counts for the width.\<close>

fun decDigits :: "nat \<Rightarrow> string" where
  "decDigits n = (if n < 10 then [digitChar n] else decDigits (n div 10) @ [digitChar (n mod 10)])"

declare decDigits.simps [simp del]

definition padZero :: "nat \<Rightarrow> string \<Rightarrow> string" where
  "padZero w s = replicate (w - length s) (digitChar 0) @ s"

definition formatInt :: "nat \<Rightarrow> int \<Rightarrow> string" where
  "formatInt w v = (if v < 0 then CHR ''-'' # padZero (w - 1) (decDigits (nat (- v))) else padZero w (decDigits (nat v)))"

definition snapshotName :: "int \<Rightarrow> string" where
  "snapshotName version = SnapshotPrefix @ formatInt 20 version"

definition hasPrefix :: "string \<Rightarrow> string \<Rightarrow> bool" where
  "hasPrefix s p \<longleftrightarrow> take (length p) s = p"

definition hasSuffix :: "string \<Rightarrow> string \<Rightarrow> bool" where
  "hasSuffix s p \<longleftrightarrow> length p \<le> length s \<and> drop (length s - length p) s = p"

definition isSnapshotName :: "string \<Rightarrow> bool" where
  "isSnapshotName name \<longleftrightarrow> hasPrefix name SnapshotPrefix \<and> length name = SnapshotDirLen"

text \<open>\<open>strconv.ParseInt(s, 10, 64)\<close>.\<close>

fun parseDigits :: "nat \<Rightarrow> string \<Rightarrow> nat option" where
  "parseDigits acc [] = Some acc"
| "parseDigits acc (c # cs) = (case charDigit c of None \<Rightarrow> None | Some d \<Rightarrow> parseDigits (10 * acc + d) cs)"

definition parseInt :: "string \<Rightarrow> int option" where
  "parseInt s =
     (let neg = (s \<noteq> [] \<and> hd s = CHR ''-'');
          ds = (if s \<noteq> [] \<and> (hd s = CHR ''-'' \<or> hd s = CHR ''+'') then tl s else s)
      in if ds = [] then None
         else case parseDigits 0 ds of
                None \<Rightarrow> None
              | Some n \<Rightarrow>
                  if neg then (if n \<le> 2 ^ 63 then Some (- int n) else None)
                  else (if n < 2 ^ 63 then Some (int n) else None))"

definition parseVersion :: "string \<Rightarrow> int option" where
  "parseVersion name = (if isSnapshotName name then parseInt (drop (length SnapshotPrefix) name) else None)"

section \<open>The database directory\<close>

record dbDir =
  current :: "string option"
  currentTmp :: "string option"
  snaps :: "(string \<times> snapDir) list"

datatype dirError = LinkExists | NoLink | BadSnapshotName string | NoSuchDir string | DirExists string
  | TargetOverflow | TargetIsPruned | EmptyDB

definition snapNames :: "dbDir \<Rightarrow> string list" where
  "snapNames d = map fst (snaps d)"

definition lookupSnap :: "string \<Rightarrow> dbDir \<Rightarrow> snapDir option" where
  "lookupSnap name d = map_of (snaps d) name"

text \<open>A directory appears in the listing at the place of its name.\<close>

definition putSnap :: "string \<Rightarrow> snapDir \<Rightarrow> dbDir \<Rightarrow> dbDir" where
  "putSnap name sd d = d\<lparr>snaps := insort_key fst (name, sd) (filter (\<lambda>p. fst p \<noteq> name) (snaps d))\<rparr>"

definition dropSnap :: "string \<Rightarrow> dbDir \<Rightarrow> dbDir" where
  "dropSnap name d = d\<lparr>snaps := filter (\<lambda>p. fst p \<noteq> name) (snaps d)\<rparr>"

text \<open>\<open>os.Rename\<close> of a directory fails when the target is a directory with content.\<close>

definition renameSnap :: "string \<Rightarrow> string \<Rightarrow> (dbDir, dirError, unit) action" where
  "renameSnap old new d =
     (case lookupSnap old d of
        None \<Rightarrow> (Inl (NoSuchDir old), d)
      | Some sd \<Rightarrow> if lookupSnap new d \<noteq> None then (Inl (DirExists new), d)
                  else (Inr (), putSnap new sd (dropSnap old d)))"

definition updateCurrentSymlink :: "string \<Rightarrow> (dbDir, dirError, unit) action" where
  "updateCurrentSymlink snapshot d =
     (if currentTmp d \<noteq> None then (Inl LinkExists, d) else (Inr (), d\<lparr>current := Some snapshot\<rparr>))"

definition currentVersion :: "dbDir \<Rightarrow> dirError + int" where
  "currentVersion d =
     (case current d of
        None \<Rightarrow> Inl NoLink
      | Some name \<Rightarrow> (case parseVersion name of None \<Rightarrow> Inl (BadSnapshotName name) | Some v \<Rightarrow> Inr v))"

definition atomicRemoveDir :: "string \<Rightarrow> (dbDir, dirError, unit) action" where
  "atomicRemoveDir name =
     thenDo (renameSnap name (name @ TmpSuffix)) (\<lambda>_ d. (Inr (), dropSnap (name @ TmpSuffix) d))"

definition removeTmpDirs :: "dbDir \<Rightarrow> dbDir" where
  "removeTmpDirs d = d\<lparr>currentTmp := None, snaps := filter (\<lambda>p. \<not> hasSuffix (fst p) TmpSuffix) (snaps d)\<rparr>"

section \<open>Traversal\<close>

fun processNames :: "(int \<Rightarrow> ('s, dirError, bool) action) \<Rightarrow> string list \<Rightarrow> ('s, dirError, unit) action" where
  "processNames callback [] s = (Inr (), s)"
| "processNames callback (name # names) s =
     (if \<not> isSnapshotName name then processNames callback names s
      else case parseVersion name of
             None \<Rightarrow> (Inl (BadSnapshotName name), s)
           | Some version \<Rightarrow>
               (case callback version s of
                  (Inl e, s') \<Rightarrow> (Inl e, s')
                | (Inr stop, s') \<Rightarrow> if stop then (Inr (), s') else processNames callback names s'))"

definition traverseSnapshots :: "dbDir \<Rightarrow> bool \<Rightarrow> (int \<Rightarrow> ('s, dirError, bool) action) \<Rightarrow> ('s, dirError, unit) action" where
  "traverseSnapshots d ascending callback =
     processNames callback (if ascending then snapNames d else rev (snapNames d))"

definition seekSnapshot :: "dbDir \<Rightarrow> u64 \<Rightarrow> dirError + int" where
  "seekSnapshot d targetVersion =
     (if MaxInt64 < targetVersion then Inl TargetOverflow
      else
        (case traverseSnapshots d False
            (\<lambda>version found. if version \<le> uint targetVersion then (Inr True, Some version) else (Inr False, found)) None of
           (Inl e, _) \<Rightarrow> Inl e
         | (Inr _, None) \<Rightarrow> Inl TargetIsPruned
         | (Inr _, Some version) \<Rightarrow> Inr version))"

definition firstSnapshotVersion :: "dbDir \<Rightarrow> dirError + int" where
  "firstSnapshotVersion d =
     (case traverseSnapshots d True (\<lambda>version found. (Inr True, Some version)) None of
        (Inl e, _) \<Rightarrow> Inl e
      | (Inr _, None) \<Rightarrow> Inl EmptyDB
      | (Inr _, Some version) \<Rightarrow> Inr version)"

definition ClearSnapshotsBefore :: "u64 \<Rightarrow> (dbDir, dirError, unit) action" where
  "ClearSnapshotsBefore height d =
     traverseSnapshots d True
       (\<lambda>version s. if version < sint height
          then thenDo (atomicRemoveDir (snapshotName version)) (\<lambda>_ s'. (Inr False, s')) s
          else (Inr True, s)) d"

section \<open>Pruning\<close>

text \<open>
  The body of the goroutine of \<open>pruneSnapshots\<close>: \<open>counter\<close> old snapshots are kept, a snapshot that is being
  exported (\<open>locked\<close>) is left alone, and \<open>earliestVersion\<close> is the smallest version kept, 0 for none.
\<close>

record pruneState =
  prDir :: dbDir
  prCounter :: u32
  prEarliest :: int

definition keepVersion :: "int \<Rightarrow> pruneState \<Rightarrow> pruneState" where
  "keepVersion version s =
     (if prEarliest s = 0 \<or> version < prEarliest s then s\<lparr>prEarliest := version\<rparr> else s)"

definition pruneOne :: "(int \<Rightarrow> bool) \<Rightarrow> int \<Rightarrow> int \<Rightarrow> (pruneState, dirError, bool) action" where
  "pruneOne locked curVersion version s =
     (if curVersion \<le> version then (Inr False, keepVersion version s)
      else if 0 < prCounter s then (Inr False, keepVersion version (s\<lparr>prCounter := prCounter s - 1\<rparr>))
      else if locked version then (Inr False, s)
      else (Inr False, s\<lparr>prDir := snd (atomicRemoveDir (snapshotName version) (prDir s))\<rparr>))"

text \<open>
  The result is the directory and, when nothing failed, the earliest version up to which the log can
  be cut. A failing removal is logged and ignored, other failures end the pruning.
\<close>

definition pruneSnapshots :: "(int \<Rightarrow> bool) \<Rightarrow> u32 \<Rightarrow> (dbDir, dirError, int) action" where
  "pruneSnapshots locked keepRecent d =
     (case currentVersion d of
        Inl e \<Rightarrow> (Inl e, d)
      | Inr curVersion \<Rightarrow>
          (case traverseSnapshots d False (pruneOne locked curVersion)
              \<lparr>prDir = d, prCounter = keepRecent, prEarliest = 0\<rparr> of
             (Inl e, s) \<Rightarrow> (Inl e, prDir s)
           | (Inr _, s) \<Rightarrow>
               if prEarliest s = 0
               then (case firstSnapshotVersion (prDir s) of Inl e \<Rightarrow> (Inl e, prDir s) | Inr v \<Rightarrow> (Inr v, prDir s))
               else (Inr (prEarliest s), prDir s)))"

section \<open>Decimal names\<close>

lemma charDigit_digitChar [simp]: "n < 10 \<Longrightarrow> charDigit (digitChar n) = Some n"
  by (simp add: charDigit_def digitChar_def)

lemma digitChar_less: "m < n \<Longrightarrow> n < 10 \<Longrightarrow> digitChar m < digitChar n"
  by (simp add: digitChar_def less_char_def)

lemma digitChar_signs [simp]: "n < 10 \<Longrightarrow> digitChar n \<noteq> CHR ''-''" "n < 10 \<Longrightarrow> digitChar n \<noteq> CHR ''+''"
proof -
  have "charDigit (CHR ''-'') = None" "charDigit (CHR ''+'') = None" by (simp_all add: charDigit_def)
  then show "n < 10 \<Longrightarrow> digitChar n \<noteq> CHR ''-''" "n < 10 \<Longrightarrow> digitChar n \<noteq> CHR ''+''"
    using charDigit_digitChar [of n] by force+
qed

text \<open>The digits of a number below \<open>10 ^ w\<close>, padded to \<open>w\<close> places: most significant digit first.\<close>

primrec fixedDigits :: "nat \<Rightarrow> nat \<Rightarrow> string" where
  "fixedDigits 0 n = []"
| "fixedDigits (Suc w) n = fixedDigits w (n div 10) @ [digitChar (n mod 10)]"

lemma length_fixedDigits [simp]: "length (fixedDigits w n) = w"
  by (induction w arbitrary: n) simp_all

lemma fixedDigits_zero: "fixedDigits w 0 = replicate w (digitChar 0)"
  by (induction w) (simp_all add: replicate_append_same)

lemma length_decDigits: "n < 10 ^ Suc w \<Longrightarrow> length (decDigits n) \<le> Suc w"
proof (induction w arbitrary: n)
  case (Suc w)
  then show ?case by (subst decDigits.simps) auto
qed (subst decDigits.simps, simp)

lemma padZero_decDigits: "n < 10 ^ Suc w \<Longrightarrow> padZero (Suc w) (decDigits n) = fixedDigits (Suc w) n"
proof (induction w arbitrary: n)
  case 0
  then show ?case by (subst decDigits.simps) (simp add: padZero_def)
next
  case (Suc w)
  show ?case
  proof (cases "n < 10")
    case True
    then show ?thesis by (subst decDigits.simps) (simp add: padZero_def fixedDigits_zero replicate_append_same)
  next
    case False
    have "n div 10 < 10 ^ Suc w" using Suc.prems by auto
    then have IH: "padZero (Suc w) (decDigits (n div 10)) = fixedDigits (Suc w) (n div 10)" by (rule Suc.IH)
    have "padZero (Suc (Suc w)) (decDigits n) = padZero (Suc w) (decDigits (n div 10)) @ [digitChar (n mod 10)]"
      using False by (subst decDigits.simps) (simp add: padZero_def)
    then show ?thesis using IH by simp
  qed
qed

lemma parseDigits_append: "parseDigits a (xs @ ys) = (case parseDigits a xs of None \<Rightarrow> None | Some b \<Rightarrow> parseDigits b ys)"
  by (induction xs arbitrary: a) (auto split: option.splits)

lemma parseDigits_fixed: "n < 10 ^ w \<Longrightarrow> parseDigits a (fixedDigits w n) = Some (a * 10 ^ w + n)"
proof (induction w arbitrary: n)
  case (Suc w)
  have "parseDigits a (fixedDigits w (n div 10)) = Some (a * 10 ^ w + n div 10)" using Suc by auto
  then show ?case by (simp add: parseDigits_append algebra_simps)
qed simp

lemma snapshotName_digits:
  assumes "0 \<le> v" "v < 2 ^ 63"
  shows "snapshotName v = SnapshotPrefix @ fixedDigits 20 (nat v)"
proof -
  have n: "nat v < 10 ^ Suc 19" "Suc 19 = 20" using assms by simp_all
  from padZero_decDigits [OF n(1)] have "padZero 20 (decDigits (nat v)) = fixedDigits 20 (nat v)" unfolding n(2) .
  then show ?thesis using assms(1) by (simp add: snapshotName_def formatInt_def del: fixedDigits.simps)
qed

lemma fixedDigits_nonempty: "0 < w \<Longrightarrow> \<exists>d ds. d < 10 \<and> fixedDigits w n = digitChar d # ds"
proof (induction w arbitrary: n)
  case (Suc w)
  show ?case
  proof (cases w)
    case 0
    then show ?thesis by (intro exI [of _ "n mod 10"] exI [of _ "[]"]) simp
  next
    case (Suc u)
    then obtain d ds where "d < 10" "fixedDigits w (n div 10) = digitChar d # ds" using Suc.IH [of "n div 10"] by auto
    then show ?thesis by (intro exI [of _ d] exI [of _ "ds @ [digitChar (n mod 10)]"]) simp
  qed
qed simp

lemma isSnapshotName_snapshotName [simp]: "0 \<le> v \<Longrightarrow> v < 2 ^ 63 \<Longrightarrow> isSnapshotName (snapshotName v)"
  by (simp add: snapshotName_digits isSnapshotName_def hasPrefix_def SnapshotDirLen_def)

lemma parseVersion_snapshotName [simp]:
  assumes "0 \<le> v" "v < 2 ^ 63"
  shows "parseVersion (snapshotName v) = Some v"
proof -
  obtain d ds where d: "d < 10" "fixedDigits 20 (nat v) = digitChar d # ds" using fixedDigits_nonempty [of 20 "nat v"] by (auto simp del: fixedDigits.simps)
  have b: "nat v < 2 ^ 63" "nat v < 10 ^ 20" using assms by auto
  have "parseDigits 0 (digitChar d # ds) = Some (nat v)" using parseDigits_fixed [OF b(2), of 0] d(2) by simp
  then have "parseInt (fixedDigits 20 (nat v)) = Some v"
    unfolding d(2) using d(1) b assms by (simp add: parseInt_def Let_def)
  then show ?thesis
    using assms by (simp add: parseVersion_def) (simp add: snapshotName_digits)
qed

lemma less_append_same: "(xs @ ys < xs @ zs) = (ys < (zs :: string))"
  by (induction xs) simp_all

lemma append_less: "length xs = length ys \<Longrightarrow> (xs @ us < ys @ vs) = (xs < ys \<or> xs = ys \<and> us < (vs :: string))"
  by (induction xs ys rule: list_induct2) auto

lemma fixedDigits_less: "m < n \<Longrightarrow> n < 10 ^ w \<Longrightarrow> fixedDigits w m < fixedDigits w n"
proof (induction w arbitrary: m n)
  case (Suc w)
  show ?case
  proof (cases "m div 10 = n div 10")
    case True
    then have "m mod 10 < n mod 10" using Suc.prems(1) by (metis div_mult_mod_eq nat_add_left_cancel_less)
    then show ?thesis using True by (simp add: less_append_same digitChar_less)
  next
    case False
    then have "m div 10 < n div 10" using Suc.prems(1) by (metis div_le_mono le_less less_imp_le_nat)
    moreover have "n div 10 < 10 ^ w" using Suc.prems(2) by auto
    ultimately show ?thesis using Suc.IH by (simp add: append_less)
  qed
qed simp

lemma snapshotName_less:
  assumes "0 \<le> v" "v < w" "w < 2 ^ 63"
  shows "snapshotName v < snapshotName w"
proof -
  have "nat v < nat w" "nat w < 10 ^ 20" using assms by auto
  then show ?thesis using assms fixedDigits_less by (simp add: snapshotName_digits less_append_same)
qed

lemma snapshotName_inject [simp]:
  "0 \<le> v \<Longrightarrow> v < 2 ^ 63 \<Longrightarrow> 0 \<le> w \<Longrightarrow> w < 2 ^ 63 \<Longrightarrow> snapshotName v = snapshotName w \<longleftrightarrow> v = w"
  by (metis option.inject parseVersion_snapshotName)

lemma length_snapshotName: "0 \<le> v \<Longrightarrow> v < 2 ^ 63 \<Longrightarrow> length (snapshotName v) = SnapshotDirLen"
  using isSnapshotName_snapshotName by (simp add: isSnapshotName_def)

lemma snapshotName_tmp [simp]:
  "0 \<le> v \<Longrightarrow> v < 2 ^ 63 \<Longrightarrow> \<not> isSnapshotName (snapshotName v @ TmpSuffix)"
  by (simp add: isSnapshotName_def length_snapshotName TmpSuffix_def)

section \<open>Well-formed directories\<close>

definition versions :: "dbDir \<Rightarrow> int list" where
  "versions d = map (\<lambda>n. the (parseVersion n)) (filter isSnapshotName (snapNames d))"

text \<open>
  The listing is by name, what is named like a snapshot is the snapshot of a version, and no snapshot
  has a half-removed namesake.
\<close>

definition dirOK :: "dbDir \<Rightarrow> bool" where
  "dirOK d \<longleftrightarrow> sorted_wrt (<) (snapNames d) \<and>
     (\<forall>n \<in> set (snapNames d). isSnapshotName n \<longrightarrow> (\<exists>v. 0 \<le> v \<and> v < 2 ^ 63 \<and> n = snapshotName v)) \<and>
     (\<forall>v \<in> set (versions d). snapshotName v @ TmpSuffix \<notin> set (snapNames d))"

fun visit :: "(int \<Rightarrow> ('s, dirError, bool) action) \<Rightarrow> int list \<Rightarrow> ('s, dirError, unit) action" where
  "visit callback [] s = (Inr (), s)"
| "visit callback (v # vs) s =
     (case callback v s of
        (Inl e, s') \<Rightarrow> (Inl e, s')
      | (Inr stop, s') \<Rightarrow> if stop then (Inr (), s') else visit callback vs s')"

lemma processNames_visit:
  "\<forall>n \<in> set names. isSnapshotName n \<longrightarrow> parseVersion n \<noteq> None \<Longrightarrow>
   processNames cb names s = visit cb (map (\<lambda>n. the (parseVersion n)) (filter isSnapshotName names)) s"
  by (induction names arbitrary: s) (auto split: prod.splits sum.splits)

lemma traverse_visit:
  assumes "dirOK d"
  shows "traverseSnapshots d ascending cb s = visit cb (if ascending then versions d else rev (versions d)) s"
proof -
  have "\<forall>n \<in> set (snapNames d). isSnapshotName n \<longrightarrow> parseVersion n \<noteq> None" using assms by (fastforce simp: dirOK_def)
  then show ?thesis by (auto simp: traverseSnapshots_def processNames_visit versions_def rev_map rev_filter)
qed

lemma versions_range:
  assumes "dirOK d" "v \<in> set (versions d)"
  shows "0 \<le> v" "v < 2 ^ 63" "snapshotName v \<in> set (snapNames d)"
  using assms by (fastforce simp: dirOK_def versions_def)+

lemma version_listed: "0 \<le> v \<Longrightarrow> v < 2 ^ 63 \<Longrightarrow> snapshotName v \<in> set (snapNames d) \<Longrightarrow> v \<in> set (versions d)"
  by (force simp: versions_def)

lemma versions_sorted:
  assumes "dirOK d"
  shows "sorted_wrt (<) (versions d)"
proof -
  let ?f = "\<lambda>n. the (parseVersion n)"
  have "sorted_wrt (<) (filter isSnapshotName (snapNames d))" using assms by (simp add: dirOK_def sorted_wrt_filter)
  moreover have "?f a < ?f b" if in2: "a \<in> set (filter isSnapshotName (snapNames d))" "b \<in> set (filter isSnapshotName (snapNames d))"
    and lt: "a < b" for a b
  proof -
    obtain v where v: "0 \<le> v" "v < 2 ^ 63" "a = snapshotName v" using assms in2(1) by (auto simp: dirOK_def)
    obtain w where w: "0 \<le> w" "w < 2 ^ 63" "b = snapshotName w" using assms in2(2) by (auto simp: dirOK_def)
    note vw = v w
    then have "\<not> w < v" "w \<noteq> v" using lt snapshotName_less [of w v] by auto
    then show ?thesis using vw by simp
  qed
  ultimately have "sorted_wrt (\<lambda>a b. ?f a < ?f b) (filter isSnapshotName (snapNames d))"
    by (metis (no_types, lifting) sorted_wrt_mono_rel)
  then show ?thesis by (simp add: versions_def sorted_wrt_map)
qed

lemma versions_distinct: "dirOK d \<Longrightarrow> distinct (versions d)"
  using versions_sorted strict_sorted_iff by blast

section \<open>Seeking\<close>

lemma visit_seek:
  "sorted_wrt (>) vs \<Longrightarrow>
   visit (\<lambda>version found. if version \<le> t then (Inr True, Some version) else (Inr False, found)) vs None =
   (Inr (), if \<exists>v \<in> set vs. v \<le> t then Some (Max {v \<in> set vs. v \<le> t}) else None)"
proof (induction vs)
  case (Cons v vs)
  show ?case
  proof (cases "v \<le> t")
    case True
    have "Max {u \<in> set (v # vs). u \<le> t} = v"
      using True Cons.prems by (intro Max_eqI) auto
    then show ?thesis using True by auto
  next
    case False
    then have "{u \<in> set (v # vs). u \<le> t} = {u \<in> set vs. u \<le> t}" by auto
    then show ?thesis using False Cons by auto
  qed
qed simp

lemma seekSnapshot_spec:
  assumes "dirOK d"
  shows "seekSnapshot d t =
    (if MaxInt64 < t then Inl TargetOverflow
     else if \<exists>v \<in> set (versions d). v \<le> uint t then Inr (Max {v \<in> set (versions d). v \<le> uint t}) else Inl TargetIsPruned)"
proof -
  have "sorted_wrt (>) (rev (versions d))" using versions_sorted [OF assms] by (simp add: sorted_wrt_rev)
  from visit_seek [OF this, of "uint t"] show ?thesis
    by (auto simp: seekSnapshot_def traverse_visit [OF assms])
qed

lemma firstSnapshotVersion_spec:
  assumes "dirOK d"
  shows "firstSnapshotVersion d = (if versions d = [] then Inl EmptyDB else Inr (Min (set (versions d))))"
proof (cases "versions d")
  case (Cons v vs)
  have "Min (set (v # vs)) = v" using versions_sorted [OF assms] Cons by (intro Min_eqI) auto
  then show ?thesis using Cons by (simp add: firstSnapshotVersion_def traverse_visit [OF assms])
qed (simp add: firstSnapshotVersion_def traverse_visit [OF assms])

section \<open>Removal\<close>

lemma versions_dropSnap:
  assumes "dirOK d" "0 \<le> v" "v < 2 ^ 63"
  shows "versions (dropSnap (snapshotName v) d) = filter (\<lambda>w. w \<noteq> v) (versions d)"
proof -
  have "(n \<noteq> snapshotName v) = (the (parseVersion n) \<noteq> v)" if "n \<in> set (snapNames d)" "isSnapshotName n" for n
    using assms that by (fastforce simp: dirOK_def)
  moreover have "snapNames (dropSnap (snapshotName v) d) = filter (\<lambda>n. n \<noteq> snapshotName v) (snapNames d)"
    by (simp add: snapNames_def dropSnap_def filter_map comp_def)
  ultimately show ?thesis
    by (auto simp: versions_def filter_map comp_def intro!: arg_cong [where f = "map _"] filter_cong)
qed

lemma dirOK_dropSnap:
  assumes "dirOK d" "0 \<le> v" "v < 2 ^ 63"
  shows "dirOK (dropSnap (snapshotName v) d)"
proof -
  have "snapNames (dropSnap (snapshotName v) d) = filter (\<lambda>n. n \<noteq> snapshotName v) (snapNames d)"
    by (simp add: snapNames_def dropSnap_def filter_map comp_def)
  then show ?thesis
    using assms versions_dropSnap [OF assms] by (auto simp: dirOK_def sorted_wrt_filter)
qed

lemma dropSnap_frame [simp]: "current (dropSnap n d) = current d" "currentTmp (dropSnap n d) = currentTmp d"
  by (simp_all add: dropSnap_def)

lemma atomicRemoveDir_version:
  assumes "dirOK d" "v \<in> set (versions d)"
  shows "atomicRemoveDir (snapshotName v) d = (Inr (), dropSnap (snapshotName v) d)"
proof -
  let ?o = "snapshotName v" and ?n = "snapshotName v @ TmpSuffix"
  have "?o \<in> fst ` set (snaps d)" using versions_range [OF assms] by (simp add: snapNames_def)
  then obtain sd where sd: "lookupSnap ?o d = Some sd"
    unfolding lookupSnap_def by (metis map_of_eq_None_iff not_None_eq)
  have n: "?n \<notin> fst ` set (snaps d)" using assms by (simp add: dirOK_def snapNames_def)
  then have "lookupSnap ?n d = None" by (simp add: lookupSnap_def map_of_eq_None_iff)
  moreover have "filter (\<lambda>p. fst p \<noteq> ?n) (filter (\<lambda>p. fst p \<noteq> ?o) (snaps d)) = filter (\<lambda>p. fst p \<noteq> ?o) (snaps d)"
    using n by (intro filter_True ballI) (force simp: image_iff)
  ultimately show ?thesis
    using sd by (simp add: atomicRemoveDir_def thenDo_def renameSnap_def putSnap_def dropSnap_def filter_insort_triv)
qed

section \<open>What pruning keeps\<close>

fun keptList :: "int \<Rightarrow> nat \<Rightarrow> int list \<Rightarrow> int list" where
  "keptList cur c [] = []"
| "keptList cur c (v # vs) =
     (if cur \<le> v then v # keptList cur c vs else if 0 < c then v # keptList cur (c - 1) vs else keptList cur 0 vs)"

definition prunedList :: "(int \<Rightarrow> bool) \<Rightarrow> int \<Rightarrow> nat \<Rightarrow> int list \<Rightarrow> int list" where
  "prunedList locked cur c vs = filter (\<lambda>v. \<not> locked v) (drop c (filter (\<lambda>v. v < cur) vs))"

definition dropVersions :: "int list \<Rightarrow> dbDir \<Rightarrow> dbDir" where
  "dropVersions vs = fold (\<lambda>v. dropSnap (snapshotName v)) vs"

lemma set_keptList: "set (keptList cur c vs) = {v \<in> set vs. cur \<le> v} \<union> set (take c (filter (\<lambda>v. v < cur) vs))"
  by (induction cur c vs rule: keptList.induct) (auto simp: take_Cons')

lemma keptList_sorted: "sorted_wrt (>) vs \<Longrightarrow> sorted_wrt (>) (keptList cur c vs)"
proof (induction cur c vs rule: keptList.induct)
  case (2 cur c v vs)
  have "set (keptList cur c' vs) \<subseteq> set vs" for c' by (auto simp: set_keptList dest: in_set_takeD)
  then show ?case using 2 by auto
qed simp

lemma visit_prune:
  assumes "dirOK (prDir s)" "set vs \<subseteq> set (versions (prDir s))" "sorted_wrt (>) vs"
    "prEarliest s = 0 \<or> (\<forall>v \<in> set vs. v < prEarliest s)"
  shows "\<exists>c. visit (pruneOne locked cur) vs s =
    (Inr (), \<lparr>prDir = dropVersions (prunedList locked cur (unat (prCounter s)) vs) (prDir s), prCounter = c,
      prEarliest = (let ks = keptList cur (unat (prCounter s)) vs in if ks = [] then prEarliest s else last ks)\<rparr>)"
  using assms
proof (induction vs arbitrary: s)
  case Nil
  then show ?case by (intro exI [of _ "prCounter s"]) (simp add: prunedList_def dropVersions_def)
next
  case (Cons v vs)
  note p = Cons.prems
  have keep: "prEarliest (keepVersion v s') = v" "prDir (keepVersion v s') = prDir s'" "prCounter (keepVersion v s') = prCounter s'"
    if "prEarliest s' = prEarliest s" for s' using p(4) that by (auto simp: keepVersion_def)
  have tail: "set vs \<subseteq> set (versions (prDir s))" "sorted_wrt (>) vs" "\<forall>w \<in> set vs. w < v" "v \<in> set (versions (prDir s))"
    using p by auto
  show ?case
  proof (cases "cur \<le> v")
    case True
    then show ?thesis
      using Cons.IH [of "keepVersion v s"] p(1) tail keep [of s]
      by (auto simp: pruneOne_def prunedList_def Let_def)
  next
    case old: False
    show ?thesis
    proof (cases "0 < prCounter s")
      case True
      let ?s = "s\<lparr>prCounter := prCounter s - 1\<rparr>"
      have u: "unat (prCounter s - 1) = unat (prCounter s) - 1" "0 < unat (prCounter s)"
        using True by (simp_all add: unat_minus_one word_gt_0 unat_gt_0)
      then have d: "drop (unat (prCounter s)) (v # xs) = drop (unat (prCounter s - 1)) xs" for xs :: "int list"
        by (cases "unat (prCounter s)") auto
      show ?thesis
        using Cons.IH [of "keepVersion v ?s"] p(1) tail keep [of ?s] old True u
        by (auto simp: pruneOne_def prunedList_def Let_def d)
    next
      case False
      then have c: "prCounter s = 0" by (simp add: word_gt_0)
      have rest: "prEarliest s = 0 \<or> (\<forall>w \<in> set vs. w < prEarliest s)" using p(4) by auto
      show ?thesis
      proof (cases "locked v")
        case True
        then show ?thesis
          using Cons.IH [OF p(1) tail(1,2) rest] old c by (simp add: pruneOne_def prunedList_def)
      next
        case False
        note rm = atomicRemoveDir_version [OF p(1) tail(4)]
        note vr = versions_range [OF p(1) tail(4)]
        let ?s = "s\<lparr>prDir := dropSnap (snapshotName v) (prDir s)\<rparr>"
        have ok: "dirOK (prDir ?s)" using dirOK_dropSnap [OF p(1) vr(1,2)] by simp
        have sub: "set vs \<subseteq> set (versions (prDir ?s))"
          using tail versions_dropSnap [OF p(1) vr(1,2)] by auto
        show ?thesis
          using Cons.IH [OF ok sub tail(2)] rest old c False rm
          by (simp add: pruneOne_def prunedList_def dropVersions_def Let_def cong: if_cong)
      qed
    qed
  qed
qed

lemma map_of_filter_ne: "map_of (filter (\<lambda>p. fst p \<noteq> m) xs) n = (if n = m then None else map_of xs n)"
  by (induction xs) auto

lemma dropVersions_spec:
  "dirOK d \<Longrightarrow> \<forall>v \<in> set vs. 0 \<le> v \<and> v < 2 ^ 63 \<Longrightarrow>
   dirOK (dropVersions vs d) \<and> versions (dropVersions vs d) = filter (\<lambda>v. v \<notin> set vs) (versions d) \<and>
   current (dropVersions vs d) = current d \<and> (\<forall>n. n \<notin> snapshotName ` set vs \<longrightarrow> lookupSnap n (dropVersions vs d) = lookupSnap n d)"
proof (induction vs arbitrary: d)
  case (Cons v vs)
  have "lookupSnap n (dropSnap m d) = (if n = m then None else lookupSnap n d)" for n m
    by (simp add: lookupSnap_def dropSnap_def map_of_filter_ne)
  then show ?case
    using Cons.IH [of "dropSnap (snapshotName v) d"] Cons.prems
    by (auto simp: dropVersions_def dirOK_dropSnap versions_dropSnap intro: filter_cong)
qed (simp add: dropVersions_def)

lemma last_is_Min:
  assumes "sorted_wrt (>) (xs :: int list)" "xs \<noteq> []"
  shows "last xs \<in> set xs" "\<forall>x \<in> set xs. last xs \<le> x"
proof -
  show "last xs \<in> set xs" using assms(2) by simp
  have "sorted_wrt (>) (butlast xs @ [last xs])" using assms by simp
  then have "\<forall>x \<in> set (butlast xs). last xs < x" by (simp only: sorted_wrt_append) simp
  moreover have "set xs = insert (last xs) (set (butlast xs))"
    using assms(2) by (metis append_butlast_last_id list.simps(15) rotate1.simps(2) set_rotate1)
  ultimately show "\<forall>x \<in> set xs. last xs \<le> x" by auto
qed

definition recentVersions :: "int \<Rightarrow> nat \<Rightarrow> int list \<Rightarrow> int list" where
  "recentVersions cur n vs = take n (rev (filter (\<lambda>v. v < cur) vs))"

lemma pruneSnapshots_spec:
  assumes ok: "dirOK d" and cur: "current d = Some (snapshotName cur)" "cur \<in> set (versions d)"
  shows "\<exists>d' e. pruneSnapshots locked keep d = (Inr e, d') \<and> dirOK d' \<and> current d' = current d \<and>
    set (versions d') = {v \<in> set (versions d). cur \<le> v \<or> v \<in> set (recentVersions cur (unat keep) (versions d)) \<or> locked v} \<and>
    e \<in> set (versions d') \<and> e \<le> cur \<and> (\<forall>v \<in> set (versions d'). e \<le> v \<or> locked v) \<and>
    (\<forall>v \<in> set (versions d'). lookupSnap (snapshotName v) d' = lookupSnap (snapshotName v) d)"
proof -
  let ?vs = "rev (versions d)" and ?k = "unat keep"
  let ?ks = "keptList cur ?k ?vs" and ?ps = "prunedList locked cur ?k ?vs"
  define d' where "d' = dropVersions ?ps d"
  have vr: "parseVersion (snapshotName cur) = Some cur" using versions_range [OF ok cur(2)] by simp
  have desc: "sorted_wrt (>) ?vs" using versions_sorted [OF ok] by (simp add: sorted_wrt_rev)
  have kset: "set ?ks = {v \<in> set (versions d). cur \<le> v} \<union> set (recentVersions cur ?k (versions d))"
    by (simp add: set_keptList recentVersions_def rev_filter)
  have ck: "cur \<in> set ?ks" using cur(2) unfolding kset by simp
  then have kne: "?ks \<noteq> []" by auto
  note lst = last_is_Min [OF keptList_sorted [OF desc] kne]
  have psub: "set ?ps \<subseteq> set (versions d)" by (auto simp: prunedList_def dest: in_set_dropD)
  then have "\<forall>v \<in> set ?ps. 0 \<le> v \<and> v < 2 ^ 63" using versions_range [OF ok] by blast
  from dropVersions_spec [OF ok this]
  have dv: "dirOK d'" "versions d' = filter (\<lambda>v. v \<notin> set ?ps) (versions d)" "current d' = current d"
    "\<forall>n. n \<notin> snapshotName ` set ?ps \<longrightarrow> lookupSnap n d' = lookupSnap n d" by (auto simp: d'_def)
  have dst: "distinct (filter (\<lambda>v. v < cur) ?vs)" using versions_distinct [OF ok] by simp
  have split: "set (take ?k (filter (\<lambda>v. v < cur) ?vs)) \<inter> set (drop ?k (filter (\<lambda>v. v < cur) ?vs)) = {}"
    "set (filter (\<lambda>v. v < cur) ?vs) = set (take ?k (filter (\<lambda>v. v < cur) ?vs)) \<union> set (drop ?k (filter (\<lambda>v. v < cur) ?vs))"
    using dst by (metis append_take_drop_id distinct_append, metis append_take_drop_id set_append)
  have rest: "v \<notin> set ?ps \<longleftrightarrow> cur \<le> v \<or> v \<in> set (recentVersions cur ?k (versions d)) \<or> locked v" if "v \<in> set (versions d)" for v
  proof (cases "v < cur")
    case True
    then have "v \<in> set (take ?k (filter (\<lambda>v. v < cur) ?vs)) \<or> v \<in> set (drop ?k (filter (\<lambda>v. v < cur) ?vs))"
      using split(2) that by auto
    then show ?thesis using split(1) True by (auto simp: prunedList_def recentVersions_def rev_filter)
  qed (auto simp: prunedList_def dest: in_set_dropD)
  then have vset: "set (versions d') = {v \<in> set (versions d). cur \<le> v \<or> v \<in> set (recentVersions cur ?k (versions d)) \<or> locked v}"
    using dv(2) by auto
  have kin: "set ?ks \<subseteq> set (versions d')" using kset vset by (auto simp: recentVersions_def dest: in_set_takeD)
  have low: "\<forall>v \<in> set (versions d'). last ?ks \<le> v \<or> locked v" using lst(2) kset vset by auto
  obtain c where run: "traverseSnapshots d False (pruneOne locked cur) \<lparr>prDir = d, prCounter = keep, prEarliest = 0\<rparr> =
      (Inr (), \<lparr>prDir = d', prCounter = c, prEarliest = last ?ks\<rparr>)"
    using visit_prune [of "\<lparr>prDir = d, prCounter = keep, prEarliest = 0\<rparr>" ?vs locked cur] ok desc kne
    by (auto simp: traverse_visit [OF ok] d'_def Let_def)
  have zero: "firstSnapshotVersion d' = Inr (last ?ks)" if z: "last ?ks = 0"
  proof -
    have "Min (set (versions d')) = 0"
      using lst(1) kin z versions_range(1) [OF dv(1)] by (intro Min_eqI) auto
    then show ?thesis using z lst(1) kin firstSnapshotVersion_spec [OF dv(1)] by auto
  qed
  have "pruneSnapshots locked keep d = (Inr (last ?ks), d')"
    using cur(1) vr run zero by (simp add: pruneSnapshots_def currentVersion_def)
  moreover have "last ?ks \<in> set (versions d')" "last ?ks \<le> cur" using lst kin ck by auto
  moreover have "lookupSnap (snapshotName v) d' = lookupSnap (snapshotName v) d" if "v \<in> set (versions d')" for v
  proof -
    have "snapshotName v \<notin> snapshotName ` set ?ps"
      using that dv(2) psub versions_range [OF ok] by (fastforce simp: snapshotName_inject)
    then show ?thesis using dv(4) by blast
  qed
  ultimately show ?thesis using dv(1,3) vset low by blast
qed

section \<open>Properties\<close>

text \<open>C23: names of snapshot directories. The name of a version parses back to it, is recognised as a snapshot's and is
  not taken for one with the suffix of a temporary directory, and names sort like versions; so the listing of a directory, which is by
  name, is in the order of versions.\<close>

theorem snapshotName_roundtrip:
  assumes "0 \<le> v" "v < w" "w < 2 ^ 63"
  shows "parseVersion (snapshotName v) = Some v \<and> isSnapshotName (snapshotName v) \<and>
    \<not> isSnapshotName (snapshotName v @ TmpSuffix) \<and> snapshotName v < snapshotName w"
  using assms snapshotName_less by simp

theorem snapshotName_roundtrip_witness:
  "parseVersion (snapshotName 9) = Some 9 \<and> snapshotName 9 < snapshotName 10"
  using snapshotName_roundtrip [of 9 10] by simp

text \<open>C22: seeking a snapshot. In a well-formed directory \<open>seekSnapshot\<close> returns the greatest snapshot version that is at most the
  target, reports a target above the signed range, and otherwise reports that the target is pruned exactly when there is none; it never
  answers with a version that has no directory.\<close>

theorem seekSnapshot_greatest:
  assumes "dirOK d"
  shows "(seekSnapshot d t = Inr v \<longleftrightarrow>
      t \<le> MaxInt64 \<and> v \<in> set (versions d) \<and> v \<le> uint t \<and> (\<forall>w \<in> set (versions d). w \<le> uint t \<longrightarrow> w \<le> v)) \<and>
    (seekSnapshot d t = Inl TargetIsPruned \<longleftrightarrow> t \<le> MaxInt64 \<and> (\<forall>w \<in> set (versions d). uint t < w))"
proof -
  let ?S = "{v \<in> set (versions d). v \<le> uint t}"
  have m: "Max ?S = v \<longleftrightarrow> v \<in> ?S \<and> (\<forall>w \<in> ?S. w \<le> v)" if "?S \<noteq> {}"
    by (rule Max_eq_iff) (use that in simp_all)
  show ?thesis
  proof (cases "MaxInt64 < t \<or> ?S = {}")
    case True
    then show ?thesis unfolding seekSnapshot_spec [OF assms] by (auto simp: not_le)
  next
    case False
    then have "seekSnapshot d t = Inr (Max ?S)" "\<not> (\<forall>w \<in> set (versions d). uint t < w)" "t \<le> MaxInt64"
      unfolding seekSnapshot_spec [OF assms] by (auto simp: not_less)
    then show ?thesis using m False by auto
  qed
qed

definition sampleDbDir :: dbDir where
  "sampleDbDir = \<lparr>current = Some (snapshotName 20), currentTmp = None,
     snaps = [(snapshotName 0, emptySnapDir), (snapshotName 10, emptySnapDir), (snapshotName 20, emptySnapDir)]\<rparr>"

lemma sampleDbDir_OK: "dirOK sampleDbDir" "versions sampleDbDir = [0, 10, 20]"
proof -
  have n: "snapNames sampleDbDir = [snapshotName 0, snapshotName 10, snapshotName 20]" by (simp add: snapNames_def sampleDbDir_def)
  show v: "versions sampleDbDir = [0, 10, 20]" unfolding versions_def n by simp
  have t: "snapshotName v @ TmpSuffix \<notin> set (snapNames sampleDbDir)" if v: "0 \<le> v" "v < 2 ^ 63" for v
  proof
    assume "snapshotName v @ TmpSuffix \<in> set (snapNames sampleDbDir)"
    then have "isSnapshotName (snapshotName v @ TmpSuffix)" unfolding n by fastforce
    then show False using snapshotName_tmp [OF v] by simp
  qed
  have "\<forall>v \<in> set (versions sampleDbDir). snapshotName v @ TmpSuffix \<notin> set (snapNames sampleDbDir)"
    unfolding v by (simp only: list.set ball_simps) (simp add: t del: set_simps)
  moreover have "sorted_wrt (<) (snapNames sampleDbDir)" unfolding n using snapshotName_less by simp
  moreover have "\<exists>v. 0 \<le> v \<and> v < 2 ^ 63 \<and> m = snapshotName v" if "m \<in> set (snapNames sampleDbDir)" for m
  proof -
    have "m \<in> snapshotName ` {0, 10, 20}" using that unfolding n by auto
    then obtain v where "m = snapshotName v" "v \<in> {0, 10, 20}" by blast
    then show ?thesis by (intro exI [of _ v]) auto
  qed
  ultimately show "dirOK sampleDbDir" unfolding dirOK_def by blast
qed

theorem seekSnapshot_greatest_witness: "seekSnapshot sampleDbDir 15 = Inr 10"
  using seekSnapshot_greatest [OF sampleDbDir_OK(1), of 15 10] by (simp add: sampleDbDir_OK(2) MaxInt64_def)

text \<open>C21: pruning of snapshots. \<open>pruneSnapshots\<close> leaves the current snapshot, all newer ones, the \<open>keepRecent\<close> newest older ones and those that
  are being exported, unchanged, and removes the others; it asks to cut the log after a version that is itself a remaining snapshot,
  not newer than the current one, and no remaining snapshot is older except one that is being exported.\<close>

theorem pruneSnapshots_safe:
  assumes "dirOK d" "current d = Some (snapshotName cur)" "cur \<in> set (versions d)"
  shows "\<exists>d' e. pruneSnapshots locked keep d = (Inr e, d') \<and> dirOK d' \<and> current d' = current d \<and>
    set (versions d') = {v \<in> set (versions d). cur \<le> v \<or> v \<in> set (recentVersions cur (unat keep) (versions d)) \<or> locked v} \<and>
    e \<in> set (versions d') \<and> e \<le> cur \<and> (\<forall>v \<in> set (versions d'). e \<le> v \<or> locked v) \<and>
    (\<forall>v \<in> set (versions d'). lookupSnap (snapshotName v) d' = lookupSnap (snapshotName v) d)"
  using pruneSnapshots_spec [OF assms] .

theorem pruneSnapshots_safe_witness:
  "\<exists>d' e. pruneSnapshots (\<lambda>_. False) 1 sampleDbDir = (Inr e, d') \<and> set (versions d') = {10, 20} \<and> e = 10"
proof -
  have cur: "current sampleDbDir = Some (snapshotName 20)" "20 \<in> set (versions sampleDbDir)"
    by (simp add: sampleDbDir_def) (simp add: sampleDbDir_OK(2))
  have r: "recentVersions 20 (unat (1 :: u32)) [0, 10, 20] = [10]" by (simp add: recentVersions_def)
  note p0 = pruneSnapshots_safe [OF sampleDbDir_OK(1) cur, of "\<lambda>_. False" 1, unfolded sampleDbDir_OK(2) r]
  obtain d' e where p: "pruneSnapshots (\<lambda>_. False) 1 sampleDbDir = (Inr e, d')" "e \<in> set (versions d')"
    "\<forall>v \<in> set (versions d'). e \<le> v \<or> False"
    "set (versions d') = {v \<in> set [0, 10, 20]. 20 \<le> v \<or> v \<in> set [10] \<or> False}"
    using p0 by blast
  have v: "set (versions d') = {10, 20}" using p(4) by auto
  have "e = 10" using p(2,3) unfolding v by auto
  then show ?thesis using p(1) v by blast
qed

end
