(* ===== verification/WalFile.thy ===== *)
theory WalFile
  imports NodeHash
begin

text \<open>
  Opening the write-ahead log and repairing a torn segment file: \<open>memiavl/wal.go\<close>. A segment in the binary format
  is a sequence of length-prefixed entries. Opening a log is the package \<open>tidwall/wal\<close>'s and the
  JSON query is \<open>tidwall/gjson\<close>'s: both are parameters. The repair loop is modelled as a partial function, so that it
  returns is a theorem.
\<close>

section \<open>Entries\<close>

datatype walError = ErrCorrupt | WalFailed string

text \<open>\<open>binary.Uvarint\<close>: the value and the number of bytes read, which is 0 or negative on failure.\<close>

fun uvarintLoop :: "nat \<Rightarrow> u64 \<Rightarrow> nat \<Rightarrow> bytes \<Rightarrow> u64 \<times> int" where
  "uvarintLoop i x s [] = (0, 0)"
| "uvarintLoop i x s (b # bs) =
     (if i = 10 then (0, - (int i + 1))
      else if b < 0x80 then
        (if i = 9 \<and> 1 < b then (0, - (int i + 1)) else (x OR push_bit s (ucast b), int i + 1))
      else uvarintLoop (Suc i) (x OR push_bit s (ucast (b AND 0x7f))) (s + 7) bs)"

definition uvarint :: "bytes \<Rightarrow> u64 \<times> int" where
  "uvarint buf = uvarintLoop 0 0 0 buf"

definition loadNextBinaryEntry :: "bytes \<Rightarrow> walError + nat" where
  "loadNextBinaryEntry data =
     (case uvarint data of
        (dataSize, n) \<Rightarrow>
          if n \<le> 0 then Inl ErrCorrupt
          else if of_nat (length data - nat n) < dataSize then Inl ErrCorrupt
          else Inr (nat n + unat dataSize))"

fun indexByte :: "byte \<Rightarrow> bytes \<Rightarrow> nat option" where
  "indexByte c [] = None"
| "indexByte c (b # bs) = (if b = c then Some 0 else map_option Suc (indexByte c bs))"

definition loadNextJSONEntry :: "(bytes \<Rightarrow> bool) \<Rightarrow> bytes \<Rightarrow> walError + nat" where
  "loadNextJSONEntry dataIsString data =
     (case indexByte 10 data of
        None \<Rightarrow> Inl ErrCorrupt
      | Some idx \<Rightarrow> if \<not> dataIsString (take idx data) then Inl ErrCorrupt else Inr (idx + 1))"

section \<open>Repair\<close>

partial_function (option) scanEntries :: "(bytes \<Rightarrow> walError + nat) \<Rightarrow> bytes \<Rightarrow> nat \<Rightarrow> (walError + nat \<times> bytes) option" where
  "scanEntries load data pos =
     (if data = [] then Some (Inr (pos, data))
      else case load data of
             Inr n \<Rightarrow> scanEntries load (drop n data) (pos + n)
           | Inl e \<Rightarrow> if e = ErrCorrupt then Some (Inr (pos, data)) else Some (Inl e))"

text \<open>The test compares the position with the length of what is left, as the source does.\<close>

definition truncateCorruptedTail :: "(bytes \<Rightarrow> walError + nat) \<Rightarrow> bytes \<Rightarrow> (walError + bytes) option" where
  "truncateCorruptedTail load file =
     (case scanEntries load file 0 of
        None \<Rightarrow> None
      | Some (Inl e) \<Rightarrow> Some (Inl e)
      | Some (Inr (pos, data)) \<Rightarrow> Some (Inr (if pos \<noteq> length data then take pos file else file)))"

text \<open>
  \<open>OpenWAL\<close> on the files of the directory, in the order of \<open>os.ReadDir\<close>; the result is the log, nil when no segment is found
  after a corruption (the error has been overwritten by then), and the files.
\<close>

definition OpenWAL ::
  "((string \<times> bytes) list \<Rightarrow> walError + 'w) \<Rightarrow> (bytes \<Rightarrow> walError + nat) \<Rightarrow> (string \<times> bytes) list \<Rightarrow>
   ((walError + 'w option) \<times> (string \<times> bytes) list) option" where
  "OpenWAL walOpen load files =
     (case walOpen files of
        Inr log \<Rightarrow> Some (Inr (Some log), files)
      | Inl e \<Rightarrow>
          if e \<noteq> ErrCorrupt then Some (Inl e, files)
          else
            (let segs = filter (\<lambda>f. 20 \<le> length (fst f)) files in
             if segs = [] then Some (Inr None, files)
             else
               (case truncateCorruptedTail load (snd (last segs)) of
                  None \<Rightarrow> None
                | Some (Inl err) \<Rightarrow> Some (Inl err, files)
                | Some (Inr bz) \<Rightarrow>
                    (let files' = map (\<lambda>f. if fst f = fst (last segs) then (fst f, bz) else f) files
                     in Some (map_sum id Some (walOpen files'), files')))))"

section \<open>The loop\<close>

lemma scanEntries_total:
  assumes "\<And>data n. load data = Inr n \<Longrightarrow> 0 < n"
  shows "\<exists>r. scanEntries load data pos = Some r"
proof (induction "length data" arbitrary: data pos rule: less_induct)
  case less
  show ?case
  proof (cases "data = []")
    case False
    show ?thesis
    proof (cases "load data")
      case (Inr n)
      have "length (drop n data) < length data" using assms [OF Inr] False by simp
      then show ?thesis using less Inr False by (subst scanEntries.simps) simp
    qed (use False in \<open>subst scanEntries.simps, simp\<close>)
  qed (subst scanEntries.simps, simp)
qed

lemma loadNextBinaryEntry_pos: "loadNextBinaryEntry data = Inr n \<Longrightarrow> 0 < n"
  by (auto simp: loadNextBinaryEntry_def split: prod.splits if_splits)

lemma loadNextJSONEntry_pos: "loadNextJSONEntry q data = Inr n \<Longrightarrow> 0 < n"
  by (auto simp: loadNextJSONEntry_def split: option.splits if_splits)

lemma uvarintLoop_read:
  "readUvarintLoop i x s bs = Inr (y, rest) \<Longrightarrow>
   uvarintLoop i x s bs = (y, int i + int (length bs - length rest)) \<and> length rest < length bs"
proof (induction i x s bs rule: readUvarintLoop.induct)
  case (2 i x s b bs)
  then show ?case by (auto split: if_splits)
qed (simp split: if_splits)

lemma loadNext_entry:
  assumes "length (EncodeBytes e @ rest) < 2 ^ 64"
  shows "loadNextBinaryEntry (EncodeBytes e @ rest) = Inr (length (EncodeBytes e))"
proof -
  let ?h = "putUvarint (of_nat (length e))"
  have "readUvarintLoop 0 0 0 (?h @ e @ rest) = Inr (of_nat (length e), e @ rest)"
    using readUvarint_put [of "of_nat (length e)" "e @ rest"] by (simp add: readUvarint_def)
  from uvarintLoop_read [OF this] have u: "uvarint (?h @ e @ rest) = (of_nat (length e), int (length ?h))" "0 < length ?h"
    by (simp_all add: uvarint_def)
  have len: "length e < 2 ^ 64" "length (e @ rest) < 2 ^ 64" using assms by (simp_all add: EncodeBytes_def)
  have "unat (of_nat (length e) :: u64) = length e" "unat (of_nat (length (e @ rest)) :: u64) = length (e @ rest)"
    using len unat_of_nat_64 by blast+
  moreover have "length (?h @ e @ rest) - nat (int (length ?h)) = length (e @ rest)" by simp
  ultimately show ?thesis
    using u unfolding EncodeBytes_def loadNextBinaryEntry_def append_assoc
    by (simp add: word_less_nat_alt del: length_append of_nat_add) simp
qed

lemma scan_valid:
  assumes "tail = [] \<or> loadNextBinaryEntry tail = Inl ErrCorrupt"
  shows "length (concat (map EncodeBytes es) @ tail) < 2 ^ 64 \<Longrightarrow>
    scanEntries loadNextBinaryEntry (concat (map EncodeBytes es) @ tail) pos =
    Some (Inr (pos + length (concat (map EncodeBytes es)), tail))"
proof (induction es arbitrary: pos)
  case Nil
  then show ?case using assms by (subst scanEntries.simps) auto
next
  case (Cons e es)
  let ?r = "concat (map EncodeBytes es) @ tail"
  have b: "length (EncodeBytes e @ ?r) < 2 ^ 64" "length ?r < 2 ^ 64" using Cons.prems by simp_all
  have "scanEntries loadNextBinaryEntry (EncodeBytes e @ ?r) pos = scanEntries loadNextBinaryEntry ?r (pos + length (EncodeBytes e))"
    by (subst scanEntries.simps) (use loadNext_entry [OF b(1)] in \<open>auto simp: EncodeBytes_def\<close>)
  then show ?case using Cons.IH [OF b(2)] by (simp add: add.assoc)
qed

section \<open>Properties\<close>

text \<open>C24: the repair of a segment ends. For either format of the log and whatever the file contains, the scan of
  \<open>truncateCorruptedTail\<close> stops, since an entry has at least one byte.\<close>

theorem truncateCorruptedTail_terminates:
  "\<exists>r r'. truncateCorruptedTail loadNextBinaryEntry file = Some r \<and> truncateCorruptedTail (loadNextJSONEntry query) file = Some r'"
proof -
  have "\<exists>r. scanEntries loadNextBinaryEntry file 0 = Some r" by (rule scanEntries_total) (rule loadNextBinaryEntry_pos)
  moreover have "\<exists>r. scanEntries (loadNextJSONEntry query) file 0 = Some r" by (rule scanEntries_total) (rule loadNextJSONEntry_pos)
  ultimately obtain r r' where "scanEntries loadNextBinaryEntry file 0 = Some r" "scanEntries (loadNextJSONEntry query) file 0 = Some r'"
    by blast
  then show ?thesis unfolding truncateCorruptedTail_def by (cases r; cases r') (simp_all add: case_prod_beta)
qed

text \<open>C25: what the repair leaves of a segment in the binary format. A file of whole entries followed by a corrupted
  tail is cut back to the whole entries, unless the tail is exactly as long as they are: the source compares the position with the
  length of the tail, and then leaves the corruption in place.\<close>

theorem truncateCorruptedTail_result:
  assumes "file = concat (map EncodeBytes es) @ tail" "tail = [] \<or> loadNextBinaryEntry tail = Inl ErrCorrupt" "length file < 2 ^ 64"
  shows "truncateCorruptedTail loadNextBinaryEntry file =
    Some (Inr (if length tail = length (concat (map EncodeBytes es)) then file else concat (map EncodeBytes es)))"
  using scan_valid [OF assms(2), of es 0] assms(1,3) by (auto simp: truncateCorruptedTail_def)

theorem truncateCorruptedTail_result_witness:
  "truncateCorruptedTail loadNextBinaryEntry (EncodeBytes [7, 8] @ [9]) = Some (Inr (EncodeBytes [7, 8])) \<and>
   truncateCorruptedTail loadNextBinaryEntry (EncodeBytes [7, 8] @ [9, 1, 2]) = Some (Inr (EncodeBytes [7, 8] @ [9, 1, 2]))"
proof -
  have e: "EncodeBytes [7, 8] = [2, 7, 8]" by (simp add: EncodeBytes_def, subst putUvarint.simps, simp)
  have c: "loadNextBinaryEntry [9] = Inl ErrCorrupt" "loadNextBinaryEntry [9, 1, 2] = Inl ErrCorrupt"
    by (simp_all add: loadNextBinaryEntry_def uvarint_def)
  show ?thesis
    using truncateCorruptedTail_result [of "EncodeBytes [7, 8] @ [9]" "[[7, 8]]" "[9]"]
      truncateCorruptedTail_result [of "EncodeBytes [7, 8] @ [9, 1, 2]" "[[7, 8]]" "[9, 1, 2]"] c
    by (simp add: e)
qed

end
