(* ===== verification/MultiTreeSim.thy ===== *)
theory MultiTreeSim
  imports MultiTree
begin

text \<open>
  Replicas of a multi tree: \<open>twin\<close> relates two multi trees whose trees are pairwise equal replicas
  under equal names. Every operation of \<open>memiavl/multitree.go\<close> keeps twins in step and gives them the same
  result; with both sides equal this is the preservation of the tree invariant.
\<close>

section \<open>Twins\<close>

definition namedTwin :: "('c \<Rightarrow> bytes \<rightharpoonup> bytes) \<Rightarrow> ('d \<Rightarrow> bytes \<rightharpoonup> bytes) \<Rightarrow> nat \<Rightarrow> string \<times> 'c tree \<Rightarrow> string \<times> 'd tree \<Rightarrow> bool" where
  "namedTwin view view' k a b \<longleftrightarrow> fst a = fst b \<and> treeSim (snd a) (snd b) \<and> treeOK view (snd a) \<and> treeOK view' (snd b) \<and>
     length (rootLeaves (troot (snd a))) + k \<le> 2 ^ 62"

definition twin :: "('c \<Rightarrow> bytes \<rightharpoonup> bytes) \<Rightarrow> ('d \<Rightarrow> bytes \<rightharpoonup> bytes) \<Rightarrow> nat \<Rightarrow> 'c multiTree \<Rightarrow> 'd multiTree \<Rightarrow> bool" where
  "twin view view' k mt mt' \<longleftrightarrow>
     list_all2 (namedTwin view view' k) (mtrees mt) (mtrees mt') \<and> treesByName mt = treesByName mt' \<and>
     mtVersion mt = mtVersion mt' \<and> mInitialVersion mt = mInitialVersion mt'"

text \<open>Two runs agree: the same result, and states related by \<open>R\<close>.\<close>

definition agree :: "('s \<Rightarrow> 't \<Rightarrow> bool) \<Rightarrow> ('e + 'a) \<times> 's \<Rightarrow> ('e + 'a) \<times> 't \<Rightarrow> bool" where
  "agree R a b \<longleftrightarrow> fst a = fst b \<and> R (snd a) (snd b)"

lemma agree_thenDo:
  assumes "agree R (f s) (f' s')" "\<And>x u u'. R u u' \<Longrightarrow> agree Q (g x u) (g' x u')" "\<And>u u'. R u u' \<Longrightarrow> Q u u'"
  shows "agree Q (thenDo f g s) (thenDo f' g' s')"
  using assms by (auto simp: agree_def thenDo_def split: prod.splits sum.splits)

lemma agree_forEach:
  assumes "\<And>x u u'. R u u' \<Longrightarrow> agree R (f x u) (f' x u')" "R s s'"
  shows "agree R (forEach f xs s) (forEach f' xs s')"
  using assms(2)
proof (induction xs arbitrary: s s')
  case (Cons x xs)
  show ?case
    unfolding forEach.simps
    by (rule agree_thenDo [where R = R and f = "f x" and f' = "f' x"]) (use assms(1) Cons in auto)
qed (simp add: agree_def)

lemma namedTwin_weaken: "namedTwin v v' k a b \<Longrightarrow> j \<le> k \<Longrightarrow> namedTwin v v' j a b"
  by (auto simp: namedTwin_def)

lemma twin_weaken: "twin v v' k a b \<Longrightarrow> j \<le> k \<Longrightarrow> twin v v' j a b"
  by (auto simp: twin_def elim!: list.rel_mono_strong intro: namedTwin_weaken)

lemma twin_drop: "twin v v' (j + k) a b \<Longrightarrow> twin v v' k a b"
  by (erule twin_weaken) simp

section \<open>Upgrades\<close>

lemma indexOfName_twin:
  "list_all2 (namedTwin v v' k) ts ts' \<Longrightarrow> indexOfName name ts = indexOfName name ts'"
  by (induction rule: list_all2_induct) (auto simp: namedTwin_def)

lemma indexOfName_less: "indexOfName name ts = Some i \<Longrightarrow> i < length ts \<and> fst (ts ! i) = name"
  by (induction ts arbitrary: i) (auto split: if_splits)

lemma swapDelete_mset: "i < length xs \<Longrightarrow> mset (swapDelete i xs) = mset xs - {#xs ! i#}"
proof -
  assume i: "i < length xs"
  let ?ys = "(xs[i := last xs])[length xs - 1 := xs ! i]"
  have l: "last xs = xs ! (length xs - 1)" using i by (intro last_conv_nth) auto
  have "mset ?ys = mset xs"
    using i mset_swap [of "length xs - 1" xs i] by (simp add: l)
  moreover have ne: "xs \<noteq> []" using i by auto
  then have "?ys \<noteq> []" "last ?ys = xs ! i" by (simp_all add: last_list_update)
  ultimately have "mset xs = mset (butlast ?ys @ [xs ! i])" using append_butlast_last_id [of ?ys] by simp
  then show ?thesis unfolding swapDelete_def by simp
qed

lemma list_all2_butlast: "list_all2 P xs ys \<Longrightarrow> list_all2 P (butlast xs) (butlast ys)"
  by (simp add: list_all2_conv_all_nth nth_butlast)

lemma twin_swapDelete:
  assumes "list_all2 P ts ts'" "i < length ts"
  shows "list_all2 P (swapDelete i ts) (swapDelete i ts')"
proof -
  have len: "length ts' = length ts" using assms(1) by (simp add: list_all2_lengthD)
  have ne: "ts \<noteq> []" "ts' \<noteq> []" using assms(2) len by auto
  then have "P (last ts) (last ts')" "P (ts ! i) (ts' ! i)"
    using assms len by (simp_all add: last_conv_nth list_all2_nthD)
  then have "list_all2 P ((ts[i := last ts])[length ts - 1 := ts ! i]) ((ts'[i := last ts'])[length ts' - 1 := ts' ! i])"
    using assms(1) len by (simp add: list_all2_update_cong)
  then show ?thesis unfolding swapDelete_def by (rule list_all2_butlast)
qed

lemma twin_new:
  assumes "cacheLaws ops view" "cacheLaws ops' view'" "k \<le> 2 ^ 62"
  shows "namedTwin view view' k (name, NewWithInitialVersion ops v n) (name, NewWithInitialVersion ops' v n')"
  using treeOK_new [OF assms(1)] treeOK_new [OF assms(2)] assms(3)
  by (auto simp: namedTwin_def NewWithInitialVersion_def NewTree_def treeSim_def) (simp_all add: NewEmptyTree_def)

lemma twin_applyUpgrade:
  assumes laws: "cacheLaws ops view" "cacheLaws ops' view'" "k \<le> 2 ^ 62" and tw: "twin view view' k mt mt'"
  shows "agree (twin view view' k) (applyUpgrade ops up mt) (applyUpgrade ops' up mt')"
proof -
  have l: "list_all2 (namedTwin view view' k) (mtrees mt) (mtrees mt')" and v: "mtVersion mt' = mtVersion mt" "mInitialVersion mt' = mInitialVersion mt"
    using tw by (auto simp: twin_def)
  note ix = indexOfName_twin [OF l]
  have new: "namedTwin view view' k (name, NewWithInitialVersion ops w n) (name, NewWithInitialVersion ops' w n')" for name w n n'
    by (rule twin_new [OF laws])
  have up: "twin view view' k (mt\<lparr>mtrees := ts\<rparr>) (mt'\<lparr>mtrees := ts'\<rparr>)" if "list_all2 (namedTwin view view' k) ts ts'" for ts ts'
    using that tw by (simp add: twin_def mtVersion_def)
  have ren: "list_all2 (namedTwin view view' k) ((mtrees mt)[i := (name, snd (mtrees mt ! i))]) ((mtrees mt')[i := (name, snd (mtrees mt' ! i))])"
    if "i < length (mtrees mt)" for i name
    using l list_all2_nthD [OF l that] by (intro list_all2_update_cong) (auto simp: namedTwin_def)
  show ?thesis
    using tw ix [symmetric] v new up twin_swapDelete [OF l] ren l
    by (auto simp: agree_def applyUpgrade_def Let_def list_all2_appendI dest: indexOfName_less split: option.splits)
qed

lemma list_all2_insort:
  assumes "\<And>a b. P a b \<Longrightarrow> fst a = fst b" "P x y" "list_all2 P xs ys"
  shows "list_all2 P (insort_key fst x xs) (insort_key fst y ys)"
  using assms(3,2) assms(1) by (induction rule: list_all2_induct) auto

lemma list_all2_sort:
  assumes "\<And>a b. P a b \<Longrightarrow> fst a = fst b" "list_all2 P xs ys"
  shows "list_all2 P (sort_key fst xs) (sort_key fst ys)"
  using assms(2) by (induction rule: list_all2_induct) (auto simp: list_all2_insort [OF assms(1)])

lemma indexFrom_twin:
  "list_all2 (namedTwin v v' k) ts ts' \<Longrightarrow> indexFrom i ts m = indexFrom i ts' m"
proof (induction arbitrary: i m rule: list_all2_induct)
  case (Cons x xs y ys)
  then show ?case by (cases x; cases y) (simp add: namedTwin_def)
qed simp

lemma twin_reindex:
  assumes "twin view view' k mt mt'"
  shows "agree (twin view view' k) (reindex mt) (reindex mt')"
proof -
  have "list_all2 (namedTwin view view' k) (sort_key fst (mtrees mt)) (sort_key fst (mtrees mt'))"
    using assms by (intro list_all2_sort) (auto simp: twin_def namedTwin_def)
  then show ?thesis
    using assms indexFrom_twin [of view view' k "sort_key fst (mtrees mt)"]
    by (auto simp: agree_def reindex_def Let_def twin_def mtVersion_def split: prod.splits option.splits)
qed

lemma twin_ApplyUpgrades:
  assumes "cacheLaws ops view" "cacheLaws ops' view'" "k \<le> 2 ^ 62" "twin view view' k mt mt'"
  shows "agree (twin view view' k) (ApplyUpgrades ops ups mt) (ApplyUpgrades ops' ups mt')"
proof (cases "ups = []")
  case False
  have "twin view view' k (mt\<lparr>treesByName := Map.empty\<rparr>) (mt'\<lparr>treesByName := Map.empty\<rparr>)"
    using assms(4) by (simp add: twin_def mtVersion_def)
  then have "agree (twin view view' k) (forEach (applyUpgrade ops) ups (mt\<lparr>treesByName := Map.empty\<rparr>))
      (forEach (applyUpgrade ops') ups (mt'\<lparr>treesByName := Map.empty\<rparr>))"
    using twin_applyUpgrade [OF assms(1-3)] by (intro agree_forEach)
  then show ?thesis
    using False twin_reindex agree_thenDo by (simp add: ApplyUpgrades_def) (rule agree_thenDo, auto)
qed (use assms in \<open>simp add: ApplyUpgrades_def agree_def\<close>)

section \<open>Changes\<close>

definition changesSize :: "(string \<times> changeSet) list \<Rightarrow> nat" where
  "changesSize ncss = sum_list (map (\<lambda>ncs. length (snd ncs)) ncss)"

lemma changesSize_simps [simp]:
  "changesSize [] = 0" "changesSize (x # xs) = length (snd x) + changesSize xs"
  by (simp_all add: changesSize_def)

lemma namedTwin_change:
  assumes "cacheLaws ops view" "cacheLaws ops' view'" "namedTwin view view' (length cs + k) a b"
  shows "namedTwin view view' k (name, ApplyChangeSet ops cs (snd a)) (name, ApplyChangeSet ops' cs (snd b))"
proof -
  have a: "treeSim (snd a) (snd b)" "treeOK view (snd a)" "treeOK view' (snd b)"
    "length (rootLeaves (troot (snd a))) + (length cs + k) \<le> 2 ^ 62"
    using assms(3) by (auto simp: namedTwin_def)
  then have r: "length (rootLeaves (troot (snd a))) + length cs \<le> 2 ^ 62" by simp
  have r': "length (rootLeaves (troot (snd b))) + length cs \<le> 2 ^ 62" using r treeSim_facts(2) [OF a(1)] by simp
  show ?thesis
    using treeSim_ApplyChangeSet [OF assms(1,2) a(2,3,1) r] ApplyChangeSet_OK [OF assms(1) a(2) r]
      ApplyChangeSet_OK(1) [OF assms(2) a(3) r'] a(4) by (simp add: namedTwin_def)
qed

lemma twin_ApplyChangeSet:
  assumes laws: "cacheLaws ops view" "cacheLaws ops' view'" and tw: "twin view view' (length (snd ncs) + k) mt mt'"
  shows "agree (twin view view' k) (mtApplyChangeSet ops ncs mt) (mtApplyChangeSet ops' ncs mt')"
proof -
  obtain name cs where ncs: "ncs = (name, cs)" by fastforce
  have l: "list_all2 (namedTwin view view' (length cs + k)) (mtrees mt) (mtrees mt')"
    and t: "treesByName mt' = treesByName mt" using tw ncs by (auto simp: twin_def)
  have len: "length (mtrees mt') = length (mtrees mt)" using list_all2_lengthD [OF l] by simp
  have weak: "twin view view' k mt mt'" by (rule twin_weaken [OF tw]) simp
  have lk: "list_all2 (namedTwin view view' k) (mtrees mt) (mtrees mt')" using weak by (simp add: twin_def)
  show ?thesis
  proof (cases "treesByName mt name")
    case None
    then show ?thesis using t ncs weak by (simp add: agree_def mtApplyChangeSet_def)
  next
    case (Some i)
    show ?thesis
    proof (cases "i < length (mtrees mt)")
      case True
      have n: "fst (mtrees mt ! i) = fst (mtrees mt' ! i)"
        using list_all2_nthD [OF l True] by (simp add: namedTwin_def)
      have "list_all2 (namedTwin view view' k)
          ((mtrees mt)[i := (fst (mtrees mt ! i), ApplyChangeSet ops cs (snd (mtrees mt ! i)))])
          ((mtrees mt')[i := (fst (mtrees mt' ! i), ApplyChangeSet ops' cs (snd (mtrees mt' ! i)))])"
        unfolding n using lk namedTwin_change [OF laws list_all2_nthD [OF l True]] by (intro list_all2_update_cong)
      then show ?thesis
        using Some True t ncs len tw by (simp add: agree_def mtApplyChangeSet_def twin_def mtVersion_def)
    next
      case False
      then show ?thesis using Some t ncs len weak by (simp add: agree_def mtApplyChangeSet_def)
    qed
  qed
qed

lemma twin_ApplyChangeSets:
  assumes laws: "cacheLaws ops view" "cacheLaws ops' view'"
  shows "twin view view' (changesSize ncss + k) mt mt' \<Longrightarrow>
    agree (twin view view' k) (mtApplyChangeSets ops ncss mt) (mtApplyChangeSets ops' ncss mt')"
  unfolding mtApplyChangeSets_def
proof (induction ncss arbitrary: mt mt')
  case (Cons x xs)
  have "twin view view' (length (snd x) + (changesSize xs + k)) mt mt'" using Cons.prems by (simp add: add.assoc)
  note a = twin_ApplyChangeSet [OF laws this]
  show ?case
    unfolding forEach.simps
    by (rule agree_thenDo [where R = "twin view view' (changesSize xs + k)" and f = "mtApplyChangeSet ops x" and f' = "mtApplyChangeSet ops' x"])
      (use a Cons.IH twin_drop in auto)
qed (simp add: agree_def)

abbreviation entrySize :: "walEntry \<Rightarrow> nat" where
  "entrySize e \<equiv> changesSize (weChangesets e)"

lemma twin_applyWALEntry:
  assumes "cacheLaws ops view" "cacheLaws ops' view'" "entrySize e + k \<le> 2 ^ 62" "twin view view' (entrySize e + k) mt mt'"
  shows "agree (twin view view' k) (applyWALEntry ops e mt) (applyWALEntry ops' e mt')"
  unfolding applyWALEntry_def
  by (rule agree_thenDo [where R = "twin view view' (entrySize e + k)" and f = "ApplyUpgrades ops (weUpgrades e)" and
        f' = "ApplyUpgrades ops' (weUpgrades e)"])
    (use twin_ApplyUpgrades [OF assms] twin_ApplyChangeSets [OF assms(1,2)] twin_drop in auto)

section \<open>Versions and commit infos\<close>

lemma twin_saveTrees:
  assumes "list_all2 (namedTwin view view' k) ts ts'"
  shows "fst (saveTrees b ts) = fst (saveTrees b' ts') \<and> list_all2 (namedTwin view view' k) (snd (saveTrees b ts)) (snd (saveTrees b' ts'))"
  using assms
proof (induction rule: list_all2_induct)
  case (Cons x xs y ys)
  obtain name t where x: "x = (name, t)" by fastforce
  obtain t' where y: "y = (name, t')" using Cons.hyps(1) x by (cases y) (auto simp: namedTwin_def)
  have n: "treeSim t t'" "treeOK view t" "treeOK view' t'" "length (rootLeaves (troot t)) + k \<le> 2 ^ 62"
    using Cons.hyps(1) x y by (auto simp: namedTwin_def)
  have v: "tversion t' = tversion t" using n(1) by (simp add: treeSim_def)
  show ?case
  proof (cases "MaxInt64 < tversion t + 1")
    case True
    then show ?thesis using treeSaveVersion_fails [of t b] treeSaveVersion_fails [of t' b'] v x y Cons.hyps by simp
  next
    case False
    then obtain h u where u: "treeSaveVersion b t = Inr ((h, tversion t + 1), u)" "treeSim (t\<lparr>tversion := tversion t + 1\<rparr>) u"
      "treeOK view u" "rootLeaves (troot u) = rootLeaves (troot t)"
      using treeSaveVersion_sim [OF n(2), of b] by (auto simp: not_less)
    obtain h' u' where u': "treeSaveVersion b' t' = Inr ((h', tversion t + 1), u')" "treeSim (t'\<lparr>tversion := tversion t + 1\<rparr>) u'"
      "treeOK view' u'"
      using treeSaveVersion_sim [OF n(3), of b'] False v by (auto simp: not_less)
    have "treeSim u u'" using u(2) u'(2) n(1) by (simp add: treeSim_def)
    then show ?thesis
      using u u' x y n(4) Cons.IH by (simp add: case_prod_beta namedTwin_def)
  qed
qed simp

lemma twin_storeInfos:
  assumes "list_all2 (namedTwin view view' k) ts ts'"
  shows "fst (storeInfosOf ts) = fst (storeInfosOf ts') \<and>
    list_all2 (namedTwin view view' k) (snd (storeInfosOf ts)) (snd (storeInfosOf ts'))"
  using assms
proof (induction rule: list_all2_induct)
  case (Cons x xs y ys)
  obtain name t where x: "x = (name, t)" by fastforce
  obtain t' where y: "y = (name, t')" using Cons.hyps(1) x by (cases y) (auto simp: namedTwin_def)
  have n: "treeSim t t'" "treeOK view t" "treeOK view' t'" "length (rootLeaves (troot t)) + k \<le> 2 ^ 62"
    using Cons.hyps(1) x y by (auto simp: namedTwin_def)
  have v: "treeVersion t' = treeVersion t" using n(1) by (simp add: treeSim_def treeVersion_def)
  have h: "fst (treeRootHash t) = fst (treeRootHash t')" by (rule treeSim_RootHash [OF n(2,3,1)])
  have "treeSim (snd (treeRootHash t)) (snd (treeRootHash t'))"
    by (rule treeSim_trans [OF treeSim_sym [OF treeSim_hashed [OF n(2)]] treeSim_trans [OF n(1) treeSim_hashed [OF n(3)]]])
  then have "namedTwin view view' k (name, snd (treeRootHash t)) (name, snd (treeRootHash t'))"
    using treeRootHash_spec [OF n(2)] treeRootHash_spec [OF n(3)] n(4) by (simp add: namedTwin_def)
  moreover obtain r us where us: "storeInfosOf xs = (r, us)" by fastforce
  moreover obtain us' where us': "storeInfosOf ys = (r, us')" "list_all2 (namedTwin view view' k) us us'"
    using Cons.IH us by (cases "storeInfosOf ys") auto
  ultimately show ?case
    using v h x y Cons.hyps by (cases "treeVersion t"; cases r) (simp_all add: case_prod_beta)
qed simp

text \<open>The commit info that the trees determine.\<close>

definition infoOf :: "string \<times> 'c tree \<Rightarrow> storeInfo" where
  "infoOf nt = \<lparr>siName = fst nt, siCommitId = \<lparr>cidVersion = tversion (snd nt), cidHash = rootMerkle (troot (snd nt))\<rparr>\<rparr>"

lemma storeInfosOf_spec:
  assumes "\<forall>nt \<in> set ts. treeOK view (snd nt) \<and> tversion (snd nt) \<le> MaxInt64"
  shows "\<exists>us. storeInfosOf ts = (Inr (map infoOf ts), us) \<and> map infoOf us = map infoOf ts"
  using assms
proof (induction ts)
  case (Cons x ts)
  obtain name t where x: "x = (name, t)" by fastforce
  obtain h t' where r: "treeRootHash t = (h, t')" by fastforce
  have n: "treeOK view t" "tversion t \<le> MaxInt64" using Cons.prems x by auto
  obtain us where us: "storeInfosOf ts = (Inr (map infoOf ts), us)" "map infoOf us = map infoOf ts"
    using Cons.IH Cons.prems by auto
  show ?case
    using us n treeRootHash_spec [OF n(1), unfolded r] x r by (simp add: treeVersion_def not_less infoOf_def [of "(name, t)"] infoOf_def [of "(name, t')"])
qed simp

lemma saveTrees_versions:
  "fst (saveTrees b ts) = None \<Longrightarrow> nt \<in> set (snd (saveTrees b ts)) \<Longrightarrow> tversion (snd nt) \<le> MaxInt64"
proof (induction ts)
  case (Cons x ts)
  obtain name t where x: "x = (name, t)" by fastforce
  have sv: "treeSaveVersion b t = Inr (q, u) \<Longrightarrow> tversion u \<le> MaxInt64" for q u
    by (cases "troot t")
      (auto simp: treeSaveVersion_def Let_def not_less treeRootHash_def case_prod_beta split: if_splits)
  show ?case using Cons x sv by (auto simp: case_prod_beta split: sum.splits)
qed simp

lemma saveTrees_OK:
  assumes "list_all2 (namedTwin view view k) ts ts"
  shows "list_all2 (namedTwin view view k) (snd (saveTrees b ts)) (snd (saveTrees b ts))"
  using twin_saveTrees [OF assms] by blast

lemma list_all2_namedTwin_left:
  "list_all2 (namedTwin v v' k) ts ts' \<Longrightarrow> nt \<in> set ts \<Longrightarrow> treeOK v (snd nt)"
  by (auto simp: namedTwin_def list_all2_conv_all_nth in_set_conv_nth)

lemma list_all2_namedTwin_right:
  "list_all2 (namedTwin v v' k) ts ts' \<Longrightarrow> nt \<in> set ts' \<Longrightarrow> treeOK v' (snd nt)"
  by (auto simp: namedTwin_def list_all2_conv_all_nth in_set_conv_nth)

lemma namedTwin_info: "list_all2 (namedTwin v v' k) ts ts' \<Longrightarrow> map infoOf ts = map infoOf ts'"
  by (induction rule: list_all2_induct) (auto simp: namedTwin_def infoOf_def treeSim_facts)

text \<open>\<open>SaveVersion\<close> as one step: the version moves on, the trees are saved, and nothing fails after that.\<close>

lemma mtSaveVersion_cases:
  assumes "list_all2 (namedTwin view view' k) (mtrees mt) us"
  shows "(\<exists>e. fst (saveTrees b (mtrees mt)) = Some e \<and> fst (mtSaveVersion b mt) = Inl (TreeFailed e) \<and>
      mtrees (snd (mtSaveVersion b mt)) = snd (saveTrees b (mtrees mt))) \<or>
    (fst (saveTrees b (mtrees mt)) = None \<and>
      fst (mtSaveVersion b mt) = Inr (nextVersion (mtVersion mt) (mInitialVersion mt)) \<and>
      mtrees (snd (mtSaveVersion b mt)) =
        (if b then snd (storeInfosOf (snd (saveTrees b (mtrees mt)))) else snd (saveTrees b (mtrees mt))) \<and>
      storeInfos (lastCommitInfo (snd (mtSaveVersion b mt))) =
        (if b then map infoOf (snd (saveTrees b (mtrees mt))) else []))"
proof -
  obtain e ts where s: "saveTrees b (mtrees mt) = (e, ts)" by fastforce
  have "list_all2 (namedTwin view view' k) ts (snd (saveTrees b us))" using twin_saveTrees [OF assms, of b b] s by simp
  then have ok: "\<forall>nt \<in> set ts. treeOK view (snd nt)" using list_all2_namedTwin_left by blast
  show ?thesis
  proof (cases e)
    case (Some x)
    then show ?thesis using s by (simp add: mtSaveVersion_def Let_def)
  next
    case None
    then have "\<forall>nt \<in> set ts. treeOK view (snd nt) \<and> tversion (snd nt) \<le> MaxInt64"
      using ok saveTrees_versions [of b "mtrees mt"] s by auto
    then obtain vs where "storeInfosOf ts = (Inr (map infoOf ts), vs)" using storeInfosOf_spec by blast
    then show ?thesis
      using s None
      by (cases b) (simp_all add: mtSaveVersion_def Let_def UpdateCommitInfo_def buildCommitInfo_def thenDo_def mtVersion_def)
  qed
qed

lemma mtSaveVersion_frame:
  "mInitialVersion (snd (mtSaveVersion b mt)) = mInitialVersion mt" "treesByName (snd (mtSaveVersion b mt)) = treesByName mt"
  "mtVersion (snd (mtSaveVersion b mt)) = nextVersion (mtVersion mt) (mInitialVersion mt)"
  by (auto simp: mtSaveVersion_def Let_def UpdateCommitInfo_def buildCommitInfo_def thenDo_def mtVersion_def
      split: prod.splits option.splits sum.splits)

lemma namedTwin_sym: "list_all2 (namedTwin v v' k) ts us \<Longrightarrow> list_all2 (namedTwin v' v k) us ts"
  by (auto simp: list_all2_conv_all_nth namedTwin_def treeSim_sym treeSim_facts(2))

lemma storeInfosOf_left:
  assumes "list_all2 (namedTwin v v' k) ts us"
  shows "list_all2 (namedTwin v v' k) (snd (storeInfosOf ts)) us"
  using assms
proof (induction rule: list_all2_induct)
  case (Cons x xs y ys)
  obtain name t where x: "x = (name, t)" by fastforce
  have n: "namedTwin v v' k (name, t) y" "treeOK v t" using Cons.hyps(1) x by (auto simp: namedTwin_def)
  have sim: "treeSim t (snd y)" using n(1) by (simp add: namedTwin_def)
  have "treeSim (snd (treeRootHash t)) (snd y)"
    by (rule treeSim_trans [OF treeSim_sym [OF treeSim_hashed [OF n(2)]] sim])
  then have "namedTwin v v' k (name, snd (treeRootHash t)) y"
    using n(1) treeRootHash_spec [OF n(2)] by (simp add: namedTwin_def)
  then show ?case
    using x Cons by (cases "treeVersion t"; cases "storeInfosOf xs"; cases "fst (storeInfosOf xs)") (simp_all add: case_prod_beta)
qed simp

lemma storeInfosOf_right:
  "list_all2 (namedTwin v v' k) ts us \<Longrightarrow> list_all2 (namedTwin v v' k) ts (snd (storeInfosOf us))"
  by (rule namedTwin_sym [OF storeInfosOf_left [OF namedTwin_sym]])

lemma twin_mtSaveVersion:
  assumes "twin view view' k mt mt'"
  shows "agree (twin view view' k) (mtSaveVersion b mt) (mtSaveVersion b' mt')"
proof -
  have l: "list_all2 (namedTwin view view' k) (mtrees mt) (mtrees mt')" using assms by (simp add: twin_def)
  note l' = namedTwin_sym [OF l]
  note st = twin_saveTrees [OF l, of b b'] and c = mtSaveVersion_cases [OF l, of b] and c' = mtSaveVersion_cases [OF l', of b']
  have hs: "list_all2 (namedTwin view view' k)
      (if b then snd (storeInfosOf (snd (saveTrees b (mtrees mt)))) else snd (saveTrees b (mtrees mt)))
      (if b' then snd (storeInfosOf (snd (saveTrees b' (mtrees mt')))) else snd (saveTrees b' (mtrees mt')))"
    using st by (cases b; cases b') (simp_all add: storeInfosOf_left storeInfosOf_right)
  show ?thesis
    using st c c' hs assms mtSaveVersion_frame [of b mt] mtSaveVersion_frame [of b' mt']
    by (auto simp: agree_def twin_def)
qed

end
