(* ===== verification/MultiTreeInv.thy ===== *)
theory MultiTreeInv
  imports MultiTreeSim
begin

text \<open>
  The invariant of a multi tree (\<open>memiavl/multitree.go\<close>): the trees are strictly ordered by name, the name
  index agrees with the list, every tree is well-formed, and all trees are about to save the same next
  version. Upgrades, change sets and \<open>SaveVersion\<close> keep it.
\<close>

section \<open>Invariant\<close>

definition indexMap :: "(string \<times> 'a) list \<Rightarrow> string \<rightharpoonup> nat" where
  "indexMap ts = map_of (zip (map fst ts) [0..<length ts])"

definition pendingVersion :: "'c multiTree \<Rightarrow> u64" where
  "pendingVersion mt = nextVersion (mtVersion mt) (mInitialVersion mt)"

definition treesOK :: "('c \<Rightarrow> bytes \<rightharpoonup> bytes) \<Rightarrow> u64 \<Rightarrow> (string \<times> 'c tree) list \<Rightarrow> bool" where
  "treesOK view next ts \<longleftrightarrow> (\<forall>nt \<in> set ts. treeOK view (snd nt) \<and> tversion (snd nt) + 1 = next)"

definition mtOK :: "('c \<Rightarrow> bytes \<rightharpoonup> bytes) \<Rightarrow> 'c multiTree \<Rightarrow> bool" where
  "mtOK view mt \<longleftrightarrow> sorted_wrt (<) (map fst (mtrees mt)) \<and> treesByName mt = indexMap (mtrees mt) \<and>
     treesOK view (pendingVersion mt) (mtrees mt)"

section \<open>The name index\<close>

lemma indexMap_nth:
  assumes "distinct (map fst ts)"
  shows "indexMap ts name = Some i \<longleftrightarrow> i < length ts \<and> fst (ts ! i) = name"
proof -
  have "distinct (map fst (zip (map fst ts) [0..<length ts]))" using assms by simp
  then have "indexMap ts name = Some i \<longleftrightarrow> (name, i) \<in> set (zip (map fst ts) [0..<length ts])"
    unfolding indexMap_def by (rule map_of_eq_Some_iff)
  also have "\<dots> \<longleftrightarrow> i < length ts \<and> fst (ts ! i) = name"
    unfolding in_set_zip by (intro iffI; elim exE conjE) (simp, rule exI [of _ i], simp)
  finally show ?thesis .
qed

lemma indexMap_None: "indexMap ts name = None \<longleftrightarrow> name \<notin> fst ` set ts"
  unfolding indexMap_def map_of_eq_None_iff by (simp flip: set_map)

lemma indexFrom_distinct:
  "distinct (map fst ts) \<Longrightarrow> dom m \<inter> fst ` set ts = {} \<Longrightarrow>
   indexFrom i ts m = (None, m ++ map_of (zip (map fst ts) [i..<i + length ts]))"
proof (induction ts arbitrary: i m)
  case (Cons x ts)
  obtain name t where x: "x = (name, t)" by fastforce
  have f: "map_of (zip (map fst ts) [Suc i..<Suc (i + length ts)]) name = None"
    using Cons.prems(1) x unfolding map_of_eq_None_iff by (simp del: upt_Suc flip: set_map)
  have "[i..<Suc (i + length ts)] = i # [Suc i..<Suc (i + length ts)]" by (simp add: upt_conv_Cons del: upt_Suc)
  moreover have "m name = None" "distinct (map fst ts)" "dom (m(name \<mapsto> i)) \<inter> fst ` set ts = {}"
    using Cons.prems x by auto
  moreover from this have "indexFrom (Suc i) ts (m(name \<mapsto> i)) =
      (None, m(name \<mapsto> i) ++ map_of (zip (map fst ts) [Suc i..<Suc i + length ts]))"
    by (intro Cons.IH)
  moreover have "m(name \<mapsto> i) ++ M = m ++ M(name \<mapsto> i)" if "M name = None" for M
    using that by (auto simp: map_add_def fun_eq_iff split: option.split)
  ultimately show ?case using x f by (simp del: upt_Suc fun_upd_apply)
qed simp

lemma indexFrom_conflict:
  "fst (indexFrom i ts m) = None \<Longrightarrow> distinct (map fst ts) \<and> dom m \<inter> fst ` set ts = {}"
proof (induction ts arbitrary: i m)
  case (Cons x ts)
  obtain name t where x: "x = (name, t)" by fastforce
  have p: "m name = None" "fst (indexFrom (i + 1) ts (m(name \<mapsto> i))) = None"
    using Cons.prems x by (simp_all split: if_splits)
  have D: "dom (m(name \<mapsto> i)) = insert name (dom m)" by simp
  show ?case using Cons.IH [OF p(2), unfolded D] p(1) x by auto
qed simp

lemma TreeByName_map_of:
  assumes "mtOK view mt"
  shows "TreeByName name mt = map_of (mtrees mt) name"
proof -
  have d: "distinct (map fst (mtrees mt))" and ix: "treesByName mt = indexMap (mtrees mt)"
    using assms strict_sorted_iff by (auto simp: mtOK_def)
  show ?thesis
  proof (cases "indexMap (mtrees mt) name")
    case None
    then have "map_of (mtrees mt) name = None" by (simp add: indexMap_None map_of_eq_None_iff)
    then show ?thesis using ix None by (simp add: TreeByName_def)
  next
    case (Some i)
    then have i: "i < length (mtrees mt)" "fst (mtrees mt ! i) = name" using indexMap_nth [OF d] by auto
    then have "(name, snd (mtrees mt ! i)) \<in> set (mtrees mt)" by (metis nth_mem prod.collapse)
    then have "map_of (mtrees mt) name = Some (snd (mtrees mt ! i))" using d by simp
    then show ?thesis using ix Some i by (simp add: TreeByName_def)
  qed
qed

section \<open>Upgrades\<close>

lemma treesOK_new:
  assumes "cacheLaws ops view" "v \<noteq> 0"
  shows "treeOK view (NewWithInitialVersion ops v n) \<and> tversion (NewWithInitialVersion ops v n) + 1 = v"
proof -
  have "v = 1" if "v \<le> 1"
  proof -
    have "unat v \<noteq> 0" "unat v \<le> 1" using assms(2) that by (simp_all add: unat_eq_0 word_le_nat_alt)
    then have "unat v = unat (1 :: u64)" by simp
    then show ?thesis by (simp only: word_unat_eq_iff)
  qed
  then show ?thesis
    using treeOK_new [OF assms(1)] by (auto simp: NewWithInitialVersion_def NewTree_def) (simp_all add: NewEmptyTree_def)
qed

lemma applyUpgrade_treesOK:
  assumes "cacheLaws ops view" "pendingVersion mt \<noteq> 0" "treesOK view (pendingVersion mt) (mtrees mt)"
  shows "treesOK view (pendingVersion mt) (mtrees (snd (applyUpgrade ops up mt)))"
    "pendingVersion (snd (applyUpgrade ops up mt)) = pendingVersion mt"
    "treesByName (snd (applyUpgrade ops up mt)) = treesByName mt"
proof -
  have del: "treesOK view (pendingVersion mt) (swapDelete i (mtrees mt))" if "i < length (mtrees mt)" for i
  proof -
    have "set (swapDelete i (mtrees mt)) \<subseteq> set (mtrees mt)"
      using swapDelete_mset [OF that] by (metis diff_subset_eq_self set_mset_mset set_mset_mono)
    then show ?thesis using assms(3) by (auto simp: treesOK_def)
  qed
  have ren: "treesOK view (pendingVersion mt) ((mtrees mt)[i := (name, snd (mtrees mt ! i))])" if "i < length (mtrees mt)" for i name
    using assms(3) that set_update_subset_insert [of "mtrees mt" i] by (fastforce simp: treesOK_def)
  have new: "treesOK view (pendingVersion mt)
      (mtrees mt @ [(name, NewWithInitialVersion ops (nextVersion (mtVersion mt) (mInitialVersion mt)) n)])" for name n
    using assms(3) treesOK_new [OF assms(1,2), of n] by (auto simp: treesOK_def pendingVersion_def)
  show "treesOK view (pendingVersion mt) (mtrees (snd (applyUpgrade ops up mt)))"
    using assms(3) del ren new by (auto simp: applyUpgrade_def Let_def dest!: indexOfName_less split: option.splits)
  show "pendingVersion (snd (applyUpgrade ops up mt)) = pendingVersion mt"
    "treesByName (snd (applyUpgrade ops up mt)) = treesByName mt"
    by (auto simp: applyUpgrade_def Let_def pendingVersion_def mtVersion_def split: option.splits)
qed

lemma forEach_inv:
  assumes "\<And>x s. I s \<Longrightarrow> I (snd (f x s))" "I s"
  shows "I (snd (forEach f xs s))"
  using assms(2)
proof (induction xs arbitrary: s)
  case (Cons x xs)
  then show ?case
    using assms(1) [of s x] by (auto simp: thenDo_def split: prod.splits sum.splits)
qed simp

lemma reindex_OK:
  assumes "reindex mt = (Inr (), mt')" "treesOK view (pendingVersion mt) (mtrees mt)"
  shows "mtOK view mt'" "pendingVersion mt' = pendingVersion mt" "mset (mtrees mt') = mset (mtrees mt)"
proof -
  let ?ts = "sort_key fst (mtrees mt)"
  obtain m where m: "indexFrom 0 ?ts Map.empty = (None, m)" "mt' = mt\<lparr>mtrees := ?ts, treesByName := m\<rparr>"
    using assms(1) by (auto simp: reindex_def Let_def split: prod.splits option.splits)
  have d: "distinct (map fst ?ts)" using indexFrom_conflict [of 0 ?ts Map.empty] m(1) by simp
  have ix: "m = indexMap ?ts" using indexFrom_distinct [OF d, of Map.empty 0] m(1) by (simp add: indexMap_def)
  have s: "sorted_wrt (<) (map fst ?ts)" using d by (simp add: strict_sorted_iff)
  have st: "set ?ts = set (mtrees mt)" by simp
  show "mtOK view mt'" "pendingVersion mt' = pendingVersion mt" "mset (mtrees mt') = mset (mtrees mt)"
    using m(2) s ix assms(2) st by (simp_all add: mtOK_def pendingVersion_def mtVersion_def treesOK_def)
qed

lemma ApplyUpgrades_OK:
  assumes laws: "cacheLaws ops view" and p: "pendingVersion mt \<noteq> 0" and ok: "mtOK view mt"
    and run: "ApplyUpgrades ops ups mt = (Inr (), mt')"
  shows "mtOK view mt'" "pendingVersion mt' = pendingVersion mt"
proof -
  let ?mt = "mt\<lparr>treesByName := Map.empty\<rparr>"
  define I where "I s \<longleftrightarrow> pendingVersion s = pendingVersion mt \<and> treesOK view (pendingVersion mt) (mtrees s)" for s
  have I0: "I ?mt" using ok by (simp add: I_def mtOK_def pendingVersion_def mtVersion_def)
  have "I (snd (applyUpgrade ops x s))" if "I s" for x s
  proof -
    have "pendingVersion s \<noteq> 0" "treesOK view (pendingVersion s) (mtrees s)" "pendingVersion s = pendingVersion mt"
      using that p by (simp_all add: I_def)
    then show ?thesis using applyUpgrade_treesOK(1,2) [OF laws, of s x] by (simp add: I_def)
  qed
  then have "I (snd (forEach (applyUpgrade ops) ups ?mt))" using I0 by (rule forEach_inv)
  then have r: "treesOK view (pendingVersion (snd (forEach (applyUpgrade ops) ups ?mt))) (mtrees (snd (forEach (applyUpgrade ops) ups ?mt)))"
    "pendingVersion (snd (forEach (applyUpgrade ops) ups ?mt)) = pendingVersion mt"
    by (simp_all add: I_def)
  have "ups \<noteq> [] \<Longrightarrow> reindex (snd (forEach (applyUpgrade ops) ups ?mt)) = (Inr (), mt')"
    using run by (auto simp: ApplyUpgrades_def thenDo_def split: prod.splits sum.splits)
  then have "ups \<noteq> [] \<Longrightarrow> mtOK view mt' \<and> pendingVersion mt' = pendingVersion mt"
    using reindex_OK(1,2) [OF _ r(1)] r(2) by auto
  then show "mtOK view mt'" "pendingVersion mt' = pendingVersion mt"
    using run ok by (cases "ups = []"; simp add: ApplyUpgrades_def)+
qed

section \<open>Changes\<close>

lemma forEach_append: "forEach f (xs @ ys) s = thenDo (forEach f xs) (\<lambda>_. forEach f ys) s"
  by (induction xs arbitrary: s) (auto simp: thenDo_def split: prod.splits sum.splits)

text \<open>There is room for \<open>k\<close> more entries in every tree.\<close>

definition mtRoom :: "nat \<Rightarrow> 'c multiTree \<Rightarrow> bool" where
  "mtRoom k mt \<longleftrightarrow> k \<le> 2 ^ 62 \<and> (\<forall>nt \<in> set (mtrees mt). length (rootLeaves (troot (snd nt))) + k \<le> 2 ^ 62)"

lemma twin_of_OK:
  assumes "mtOK view mt" "mtRoom k mt"
  shows "twin view view k mt mt"
  using assms by (simp add: twin_def mtOK_def mtRoom_def treesOK_def namedTwin_def treeSim_def list_all2_same)

definition contents :: "'c multiTree \<Rightarrow> string \<rightharpoonup> bytes \<rightharpoonup> bytes" where
  "contents mt name = map_option (\<lambda>t. map_of (rootLeaves (troot t))) (map_of (mtrees mt) name)"

definition specChange :: "string \<times> changeSet \<Rightarrow> (string \<rightharpoonup> bytes \<rightharpoonup> bytes) \<Rightarrow> string \<rightharpoonup> bytes \<rightharpoonup> bytes" where
  "specChange ncs m = m(fst ncs \<mapsto> fold specPair (snd ncs) (the (m (fst ncs))))"

lemma map_of_list_update:
  assumes "distinct (map fst ts)" "i < length ts"
  shows "map_of (ts[i := (fst (ts ! i), y)]) = (map_of ts)(fst (ts ! i) \<mapsto> y)"
  using assms
proof (induction ts arbitrary: i)
  case (Cons x ts)
  show ?case
  proof (cases i)
    case (Suc j)
    then have j: "j < length ts" "fst (ts ! j) \<in> fst ` set ts" using Cons.prems(2) by auto
    have "fst x \<notin> fst ` set ts" using Cons.prems(1) by simp
    then have "fst (ts ! j) \<noteq> fst x" using j(2) by metis
    then show ?thesis using Cons.IH [of j] Cons.prems Suc j by (cases x) (auto simp: fun_eq_iff)
  qed (cases x, simp add: fun_eq_iff)
qed simp

lemma map_fst_update: "i < length ts \<Longrightarrow> map fst (ts[i := (fst (ts ! i), y)]) = map fst ts"
  by (simp add: map_update) (metis list_update_id nth_map)

lemma mtApplyChangeSet_known:
  assumes laws: "cacheLaws ops view" and ok: "mtOK view mt" and room: "mtRoom (length cs + k) mt"
    and known: "map_of (mtrees mt) name = Some t"
  shows "\<exists>mt'. mtApplyChangeSet ops (name, cs) mt = (Inr (), mt') \<and> mtOK view mt' \<and> mtRoom k mt' \<and>
    contents mt' = specChange (name, cs) (contents mt) \<and> map fst (mtrees mt') = map fst (mtrees mt) \<and>
    pendingVersion mt' = pendingVersion mt"
proof -
  let ?ts = "mtrees mt"
  have d: "distinct (map fst ?ts)" using ok strict_sorted_iff by (auto simp: mtOK_def)
  obtain i where i: "i < length ?ts" "?ts ! i = (name, t)" using map_of_SomeD [OF known] by (auto simp: in_set_conv_nth)
  then have ix: "treesByName mt name = Some i" using ok indexMap_nth [OF d] by (simp add: mtOK_def)
  define t' where "t' = ApplyChangeSet ops cs t"
  define mt' where "mt' = mt\<lparr>mtrees := ?ts[i := (fst (?ts ! i), t')]\<rparr>"
  have mem: "(name, t) \<in> set ?ts" using i by (metis nth_mem)
  then have t: "treeOK view t" "tversion t + 1 = pendingVersion mt" "length (rootLeaves (troot t)) + (length cs + k) \<le> 2 ^ 62"
    using ok room by (auto simp: mtOK_def treesOK_def mtRoom_def)
  then have b: "length (rootLeaves (troot t)) + length cs \<le> 2 ^ 62" by simp
  note a = ApplyChangeSet_OK [OF laws t(1) b, folded t'_def]
  have run: "mtApplyChangeSet ops (name, cs) mt = (Inr (), mt')"
    using ix i by (simp add: mtApplyChangeSet_def mt'_def t'_def)
  have names: "map fst (mtrees mt') = map fst ?ts" using map_fst_update [OF i(1)] by (simp add: mt'_def)
  have sub: "set (mtrees mt') \<subseteq> insert (name, t') (set ?ts)"
    using set_update_subset_insert [of ?ts i "(name, t')"] i by (simp add: mt'_def)
  have new: "treeOK view t'" "tversion t' + 1 = pendingVersion mt" "length (rootLeaves (troot t')) + k \<le> 2 ^ 62"
    using a t by (auto simp: t'_def)
  have pv: "pendingVersion mt' = pendingVersion mt" by (simp add: mt'_def pendingVersion_def mtVersion_def)
  have len: "length (mtrees mt') = length ?ts" by (simp add: mt'_def)
  have "treesOK view (pendingVersion mt) (mtrees mt')" using ok sub new by (auto simp: mtOK_def treesOK_def)
  moreover have "treesByName mt' = indexMap (mtrees mt')"
    using ok unfolding indexMap_def names len by (simp add: mt'_def mtOK_def indexMap_def)
  ultimately have "mtOK view mt'" using ok names pv by (simp add: mtOK_def)
  moreover have "mtRoom k mt'" using room sub new(3) by (fastforce simp: mtRoom_def)
  moreover have "contents mt' = specChange (name, cs) (contents mt)"
    using a(2) i known map_of_list_update [OF d i(1), of t'] by (auto simp: fun_eq_iff contents_def specChange_def mt'_def)
  ultimately show ?thesis using run names pv by blast
qed

lemma mtApplyChangeSets_known:
  assumes laws: "cacheLaws ops view"
  shows "mtOK view mt \<Longrightarrow> mtRoom (changesSize ncss + k) mt \<Longrightarrow> fst ` set ncss \<subseteq> fst ` set (mtrees mt) \<Longrightarrow>
    \<exists>mt'. mtApplyChangeSets ops ncss mt = (Inr (), mt') \<and> mtOK view mt' \<and> mtRoom k mt' \<and>
      contents mt' = fold specChange ncss (contents mt) \<and> map fst (mtrees mt') = map fst (mtrees mt) \<and>
      pendingVersion mt' = pendingVersion mt"
  unfolding mtApplyChangeSets_def
proof (induction ncss arbitrary: mt)
  case (Cons x xs)
  obtain name cs where x: "x = (name, cs)" by fastforce
  obtain t where t: "map_of (mtrees mt) name = Some t"
    using Cons.prems(3) x by (metis (no_types, lifting) image_subset_iff list.set_intros(1) fst_conv map_of_eq_None_iff not_None_eq)
  have "mtRoom (length cs + (changesSize xs + k)) mt" using Cons.prems(2) x by (simp add: add.assoc)
  then obtain u where u: "mtApplyChangeSet ops x mt = (Inr (), u)" "mtOK view u" "mtRoom (changesSize xs + k) u"
    "contents u = specChange x (contents mt)" "map fst (mtrees u) = map fst (mtrees mt)" "pendingVersion u = pendingVersion mt"
    using mtApplyChangeSet_known [OF laws Cons.prems(1) _ t] x by blast
  have "fst ` set (mtrees u) = fst ` set (mtrees mt)" using u(5) by (metis image_set)
  then have "fst ` set xs \<subseteq> fst ` set (mtrees u)" using Cons.prems(3) by simp
  then obtain mt' where m: "forEach (mtApplyChangeSet ops) xs u = (Inr (), mt')" "mtOK view mt'" "mtRoom k mt'"
    "contents mt' = fold specChange xs (contents u)" "map fst (mtrees mt') = map fst (mtrees u)" "pendingVersion mt' = pendingVersion u"
    using Cons.IH [OF u(2,3)] by blast
  then show ?case using u by (simp add: thenDo_def)
qed simp

lemma mtApplyChangeSet_unknown:
  assumes "mtOK view mt" "name \<notin> fst ` set (mtrees mt)"
  shows "mtApplyChangeSet ops (name, cs) mt = (Inl (UnknownTree name), mt)"
  using assms by (simp add: mtApplyChangeSet_def mtOK_def indexMap_None [THEN iffD2])

section \<open>SaveVersion\<close>

lemma saveTrees_total:
  assumes "\<forall>nt \<in> set ts. treeOK view (snd nt) \<and> tversion (snd nt) + 1 \<le> MaxInt64"
  shows "fst (saveTrees b ts) = None \<and>
    list_all2 (\<lambda>x y. fst x = fst y \<and> treeOK view (snd y) \<and> tversion (snd y) = tversion (snd x) + 1 \<and>
      rootLeaves (troot (snd y)) = rootLeaves (troot (snd x))) ts (snd (saveTrees b ts))"
  using assms
proof (induction ts)
  case (Cons x ts)
  obtain name t where x: "x = (name, t)" by fastforce
  have n: "treeOK view t" "tversion t + 1 \<le> MaxInt64" using Cons.prems x by auto
  obtain h u where u: "treeSaveVersion b t = Inr ((h, tversion t + 1), u)" "treeSim (t\<lparr>tversion := tversion t + 1\<rparr>) u"
    "treeOK view u" "rootLeaves (troot u) = rootLeaves (troot t)"
    using treeSaveVersion_sim [OF n, of b] by blast
  moreover have "tversion u = tversion t + 1" using treeSim_facts(1) [OF u(2)] by simp
  ultimately show ?case using Cons x by (simp add: case_prod_beta)
qed simp

lemma pendingVersion_bounds:
  assumes "mtVersion mt < MaxInt64" "mInitialVersion mt \<le> MaxInt64"
  shows "pendingVersion mt \<noteq> 0" "pendingVersion mt \<le> MaxInt64"
proof -
  have "unat (mtVersion mt) < 2 ^ 63 - 1" using assms(1) by (simp add: word_less_nat_alt MaxInt64_def)
  then have "unat (mtVersion mt + 1) = unat (mtVersion mt) + 1" by (simp add: unat_word_ariths)
  then have "mtVersion mt + 1 \<noteq> 0" "mtVersion mt + 1 \<le> MaxInt64"
    using assms(1) by (auto simp: word_less_nat_alt word_le_nat_alt MaxInt64_def)
  then show "pendingVersion mt \<noteq> 0" "pendingVersion mt \<le> MaxInt64"
    using assms(2) by (auto simp: pendingVersion_def nextVersion_def)
qed

lemma list_all2_right: "list_all2 P xs ys \<Longrightarrow> y \<in> set ys \<Longrightarrow> \<exists>x \<in> set xs. P x y"
  by (induction rule: list_all2_induct) auto

lemma contents_alt: "contents mt = map_of (map (\<lambda>nt. (fst nt, map_of (rootLeaves (troot (snd nt))))) (mtrees mt))"
proof
  fix name
  have "map_option f (map_of ts name) = map_of (map (\<lambda>nt. (fst nt, f (snd nt))) ts) name" for f and ts :: "(string \<times> 'a tree) list"
    by (induction ts) auto
  then show "contents mt name = map_of (map (\<lambda>nt. (fst nt, map_of (rootLeaves (troot (snd nt))))) (mtrees mt)) name"
    by (simp add: contents_def)
qed

lemma mtSaveVersion_OK:
  assumes ok: "mtOK view mt" and room: "mtRoom k mt" and v: "mtVersion mt < MaxInt64" "mInitialVersion mt \<le> MaxInt64"
  shows "\<exists>mt'. mtSaveVersion b mt = (Inr (pendingVersion mt), mt') \<and> mtOK view mt' \<and> mtRoom k mt' \<and>
    mtVersion mt' = pendingVersion mt \<and> contents mt' = contents mt \<and> map fst (mtrees mt') = map fst (mtrees mt)"
proof -
  let ?ts = "mtrees mt" and ?us = "snd (saveTrees b (mtrees mt))"
  note pv = pendingVersion_bounds [OF v]
  obtain r mt' where run: "mtSaveVersion b mt = (r, mt')" by fastforce
  have tot: "fst (saveTrees b ?ts) = None"
    and st: "list_all2 (\<lambda>x y. fst x = fst y \<and> treeOK view (snd y) \<and> tversion (snd y) = tversion (snd x) + 1 \<and>
      rootLeaves (troot (snd y)) = rootLeaves (troot (snd x))) ?ts ?us"
    using saveTrees_total [of ?ts view b] ok pv(2) by (auto simp: mtOK_def treesOK_def)
  have l: "list_all2 (namedTwin view view k) ?ts ?ts" using twin_of_OK [OF ok room] by (simp add: twin_def)
  have us: "list_all2 (namedTwin view view k) ?us ?us" using saveTrees_OK [OF l] .
  have c: "r = Inr (pendingVersion mt)" "mtrees mt' = (if b then snd (storeInfosOf ?us) else ?us)"
    using mtSaveVersion_cases [OF l, of b] tot run by (auto simp: pendingVersion_def)
  have tw: "list_all2 (namedTwin view view k) (mtrees mt') ?us" using c(2) us storeInfosOf_left [OF us] by (cases b) simp_all
  have rel: "list_all2 (\<lambda>x y. fst x = fst y \<and> treeOK view (snd y) \<and> tversion (snd y) = tversion (snd x) + 1 \<and>
      rootLeaves (troot (snd y)) = rootLeaves (troot (snd x))) ?ts (mtrees mt')"
    by (rule list_all2_trans [OF _ st namedTwin_sym [OF tw]]) (auto simp: namedTwin_def dest: treeSim_facts(1,2))
  have frame: "treesByName mt' = treesByName mt" "mtVersion mt' = pendingVersion mt" "mInitialVersion mt' = mInitialVersion mt"
    using mtSaveVersion_frame [of b mt] run by (simp_all add: pendingVersion_def)
  have names: "map fst (mtrees mt') = map fst ?ts" "length (mtrees mt') = length ?ts"
    using rel by (induction rule: list_all2_induct) auto
  have nxt: "pendingVersion mt' = pendingVersion mt + 1" using frame pv(1) by (simp add: pendingVersion_def [of mt'] nextVersion_def)
  have all: "treesOK view (pendingVersion mt') (mtrees mt')" "mtRoom k mt'"
    using list_all2_right [OF rel] ok room unfolding nxt mtOK_def treesOK_def mtRoom_def by fastforce+
  have "map (\<lambda>nt. (fst nt, map_of (rootLeaves (troot (snd nt))))) (mtrees mt') = map (\<lambda>nt. (fst nt, map_of (rootLeaves (troot (snd nt))))) ?ts"
    using rel by (induction rule: list_all2_induct) auto
  then have "contents mt' = contents mt" unfolding contents_alt by simp
  then show ?thesis
    using run c(1) frame names all ok by (simp add: mtOK_def indexMap_def)
qed

section \<open>Properties\<close>

text \<open>A multi tree of a chain that starts at version 5, before its first block.\<close>

definition sampleMulti :: "(nat \<times> (bytes \<times> bytes) list) multiTree" where
  "sampleMulti =
     \<lparr>mInitialVersion = 5, mZeroCopy = True, mCacheSize = 2,
      mtrees = [(''acc'', NewWithInitialVersion fifoOps 5 2), (''bank'', NewWithInitialVersion fifoOps 5 2)],
      treesByName = [''bank'' \<mapsto> 1, ''acc'' \<mapsto> 0], lastCommitInfo = emptyCommitInfo, mmetadata = emptyMetadata\<rparr>"

lemma sampleMulti_OK: "mtOK fifoView sampleMulti" "k \<le> 2 ^ 62 \<Longrightarrow> mtRoom k sampleMulti"
  "mtVersion sampleMulti < MaxInt64" "mInitialVersion sampleMulti \<le> MaxInt64" "pendingVersion sampleMulti = 5"
proof -
  have new: "treeOK fifoView (NewWithInitialVersion fifoOps 5 2) \<and> tversion (NewWithInitialVersion fifoOps 5 2) + 1 = 5"
    by (rule treesOK_new [OF fifo_laws]) simp
  show pv: "pendingVersion sampleMulti = 5"
    by (simp add: pendingVersion_def sampleMulti_def nextVersion_def mtVersion_def emptyCommitInfo_def)
  have ix: "treesByName sampleMulti = indexMap (mtrees sampleMulti)"
    by (simp add: indexMap_def sampleMulti_def numeral_2_eq_2)
  have "sorted_wrt (<) (map fst (mtrees sampleMulti))" by (simp add: sampleMulti_def less_char_def)
  then show "mtOK fifoView sampleMulti"
    using new pv ix unfolding mtOK_def treesOK_def by (simp add: sampleMulti_def)
  show "mtRoom k sampleMulti" if "k \<le> 2 ^ 62"
    using that by (simp add: mtRoom_def sampleMulti_def NewWithInitialVersion_def NewTree_def NewEmptyTree_def)
  show "mtVersion sampleMulti < MaxInt64" "mInitialVersion sampleMulti \<le> MaxInt64"
    by (simp_all add: sampleMulti_def mtVersion_def emptyCommitInfo_def MaxInt64_def)
qed

text \<open>C16: the invariant of a multi tree. Successful upgrades leave the trees strictly ordered by name, the
  name index consistent and every tree, new ones included, ready for the same next version;
  \<open>TreeByName\<close> finds exactly the trees of the list; \<open>SaveVersion\<close> always succeeds within the signed range, moves
  every tree and the multi tree to that version and changes no entry.\<close>

theorem multiTree_invariant:
  assumes "cacheLaws ops view" "mtOK view mt" "mtRoom 0 mt" "mtVersion mt < MaxInt64" "mInitialVersion mt \<le> MaxInt64"
  shows "(\<forall>mt'. ApplyUpgrades ops ups mt = (Inr (), mt') \<longrightarrow> mtOK view mt' \<and> pendingVersion mt' = pendingVersion mt) \<and>
    (\<forall>name. TreeByName name mt = map_of (mtrees mt) name) \<and>
    (\<exists>mt'. mtSaveVersion upd mt = (Inr (pendingVersion mt), mt') \<and> mtOK view mt' \<and>
      mtVersion mt' = pendingVersion mt \<and> contents mt' = contents mt \<and> map fst (mtrees mt') = map fst (mtrees mt))"
proof (intro conjI)
  note p = pendingVersion_bounds(1) [OF assms(4,5)]
  show "\<forall>mt'. ApplyUpgrades ops ups mt = (Inr (), mt') \<longrightarrow> mtOK view mt' \<and> pendingVersion mt' = pendingVersion mt"
    using ApplyUpgrades_OK [OF assms(1) p assms(2)] by simp
  show "\<forall>name. TreeByName name mt = map_of (mtrees mt) name" using TreeByName_map_of [OF assms(2)] by simp
  show "\<exists>mt'. mtSaveVersion upd mt = (Inr (pendingVersion mt), mt') \<and> mtOK view mt' \<and>
      mtVersion mt' = pendingVersion mt \<and> contents mt' = contents mt \<and> map fst (mtrees mt') = map fst (mtrees mt)"
    using mtSaveVersion_OK [OF assms(2,3,4,5), of upd] by auto
qed

theorem multiTree_invariant_witness:
  "\<exists>mt'. mtSaveVersion True sampleMulti = (Inr 5, mt') \<and> mtOK fifoView mt' \<and> mtVersion mt' = 5"
  using multiTree_invariant [OF fifo_laws sampleMulti_OK(1) sampleMulti_OK(2) sampleMulti_OK(3,4), of "[]" True]
    sampleMulti_OK(5) by auto

text \<open>C17: change sets refine the map of maps. When every named tree exists, applying change sets succeeds and
  updates the named stores as the pairs do, in order, and no other store; the first unknown name
  stops the application with an error that names it, and the state is what the change sets before it
  made of it.\<close>

theorem ApplyChangeSets_refines:
  assumes "cacheLaws ops view" "mtOK view mt" "mtRoom (changesSize ncss) mt" "fst ` set ncss \<subseteq> fst ` set (mtrees mt)"
    and "name \<notin> fst ` set (mtrees mt)"
  shows "\<exists>mt'. mtApplyChangeSets ops ncss mt = (Inr (), mt') \<and> mtOK view mt' \<and>
    contents mt' = fold specChange ncss (contents mt) \<and>
    mtApplyChangeSets ops (ncss @ (name, cs) # rest) mt = (Inl (UnknownTree name), mt')"
proof -
  obtain mt' where m: "mtApplyChangeSets ops ncss mt = (Inr (), mt')" "mtOK view mt'"
    "contents mt' = fold specChange ncss (contents mt)" "map fst (mtrees mt') = map fst (mtrees mt)"
    using mtApplyChangeSets_known [OF assms(1,2), of ncss 0] assms(3,4) by auto
  have "name \<notin> fst ` set (mtrees mt')" using m(4) assms(5) by (metis image_set)
  from mtApplyChangeSet_unknown [OF m(2) this] m(1)
  have "mtApplyChangeSets ops (ncss @ (name, cs) # rest) mt = (Inl (UnknownTree name), mt')"
    unfolding mtApplyChangeSets_def forEach_append by (simp add: thenDo_def)
  then show ?thesis using m by blast
qed

theorem ApplyChangeSets_refines_witness:
  "\<exists>mt'. mtApplyChangeSets fifoOps [(''bank'', samplePairs)] sampleMulti = (Inr (), mt') \<and>
     contents mt' ''bank'' = Some (fold specPair samplePairs Map.empty) \<and> contents mt' ''acc'' = Some Map.empty"
proof -
  have "mtRoom (changesSize [(''bank'', samplePairs)]) sampleMulti"
    by (rule sampleMulti_OK(2)) (simp add: samplePairs_def)
  moreover have "fst ` set [(''bank'', samplePairs)] \<subseteq> fst ` set (mtrees sampleMulti)" "''gov'' \<notin> fst ` set (mtrees sampleMulti)"
    by (simp_all add: sampleMulti_def)
  ultimately obtain mt' where m: "mtApplyChangeSets fifoOps [(''bank'', samplePairs)] sampleMulti = (Inr (), mt')"
    "contents mt' = fold specChange [(''bank'', samplePairs)] (contents sampleMulti)"
    using ApplyChangeSets_refines [OF fifo_laws sampleMulti_OK(1), of "[(''bank'', samplePairs)]" "''gov''" "[]" "[]"] by blast
  have c: "contents sampleMulti ''bank'' = Some Map.empty" "contents sampleMulti ''acc'' = Some Map.empty"
    by (simp_all add: contents_def sampleMulti_def NewWithInitialVersion_def NewTree_def NewEmptyTree_def)
  have "contents mt' n = specChange (''bank'', samplePairs) (contents sampleMulti) n" for n
    using fun_cong [OF m(2), of n] by (simp del: fun_upd_apply)
  then show ?thesis using m(1) c by (simp add: specChange_def)
qed

end
