(* ===== verification/Recovery.thy ===== *)
theory Recovery
  imports MultiTreeInv
begin

text \<open>
  What the multi tree of \<open>memiavl/multitree.go\<close> promises as a whole: its invariant, the correspondence of
  versions and log indices, and that a multi tree restored from a snapshot and a replayed log ends
  in the same commit info as the one that never stopped.
\<close>

section \<open>Replay\<close>

text \<open>One block: the changes of a log entry, then \<open>SaveVersion\<close>.\<close>

definition runEntry :: "bool \<Rightarrow> 'c cacheOps \<Rightarrow> walEntry \<Rightarrow> ('c multiTree, mtError, unit) action" where
  "runEntry upd ops e = thenDo (applyWALEntry ops e) (\<lambda>_. thenDo (mtSaveVersion upd) (\<lambda>_ mt. (Inr (), mt)))"

definition entriesSize :: "walEntry list \<Rightarrow> nat" where
  "entriesSize es = sum_list (map entrySize es)"

lemma entriesSize_simps [simp]:
  "entriesSize [] = 0" "entriesSize (e # es) = entrySize e + entriesSize es"
  "entriesSize (es @ es') = entriesSize es + entriesSize es'"
  by (simp_all add: entriesSize_def)

lemma twin_runEntry:
  assumes laws: "cacheLaws ops view" "cacheLaws ops' view'" and tw: "entrySize e + k \<le> 2 ^ 62" "twin view view' (entrySize e + k) mt mt'"
  shows "agree (twin view view' k) (runEntry b ops e mt) (runEntry b' ops' e mt')"
proof -
  have save: "agree (twin view view' k) (thenDo (mtSaveVersion b) (\<lambda>_ mt. (Inr (), mt)) u) (thenDo (mtSaveVersion b') (\<lambda>_ mt. (Inr (), mt)) u')"
    if "twin view view' k u u'" for u u'
    by (rule agree_thenDo [where R = "twin view view' k" and f = "mtSaveVersion b" and f' = "mtSaveVersion b'"])
      (use twin_mtSaveVersion [OF that] in \<open>auto simp: agree_def\<close>)
  show ?thesis
    unfolding runEntry_def
    by (rule agree_thenDo [where R = "twin view view' k" and f = "applyWALEntry ops e" and f' = "applyWALEntry ops' e"])
      (use twin_applyWALEntry [OF laws tw] save in auto)
qed

lemma twin_runEntries:
  assumes laws: "cacheLaws ops view" "cacheLaws ops' view'"
  shows "entriesSize es + k \<le> 2 ^ 62 \<Longrightarrow> twin view view' (entriesSize es + k) mt mt' \<Longrightarrow>
    agree (twin view view' k) (forEach (runEntry b ops) es mt) (forEach (runEntry b' ops') es mt')"
proof (induction es arbitrary: mt mt')
  case (Cons e es)
  have a: "entrySize e + (entriesSize es + k) \<le> 2 ^ 62" "twin view view' (entrySize e + (entriesSize es + k)) mt mt'"
    using Cons.prems by (simp_all add: add.assoc)
  have r: "agree (twin view view' (entriesSize es + k)) (runEntry b ops e mt) (runEntry b' ops' e mt')"
    by (rule twin_runEntry [OF laws a])
  have sz: "entriesSize es + k \<le> 2 ^ 62" using Cons.prems(1) by simp
  show ?case
    unfolding forEach.simps
    by (rule agree_thenDo [where R = "twin view view' (entriesSize es + k)" and f = "runEntry b ops e" and f' = "runEntry b' ops' e"])
      (use r Cons.IH [OF sz] twin_drop in auto)
qed (simp add: agree_def)

text \<open>After \<open>SaveVersion(true)\<close> the last commit info is the one the trees determine, and no version is out of range.\<close>

definition settled :: "'c multiTree \<Rightarrow> bool" where
  "settled mt \<longleftrightarrow> (\<forall>nt \<in> set (mtrees mt). tversion (snd nt) \<le> MaxInt64)"

lemma storeInfosOf_tversion: "nt \<in> set (snd (storeInfosOf ts)) \<Longrightarrow> \<exists>nt' \<in> set ts. tversion (snd nt) = tversion (snd nt')"
proof (induction ts)
  case (Cons x ts)
  obtain name t where x: "x = (name, t)" by fastforce
  have "tversion (snd (treeRootHash t)) = tversion t"
    by (cases "troot t") (auto simp: treeRootHash_def case_prod_beta)
  then show ?case using Cons x by (auto simp: case_prod_beta split: sum.splits if_splits)
qed simp

lemma runEntry_settled:
  assumes laws: "cacheLaws ops view" and tw: "entrySize e + k \<le> 2 ^ 62" "twin view view (entrySize e + k) mt mt"
    and run: "runEntry b ops e mt = (Inr (), mt2)"
  shows "settled mt2" "b \<Longrightarrow> lastCommitInfo mt2 = \<lparr>ciVersion = mtVersion mt2, storeInfos = map infoOf (mtrees mt2)\<rparr>"
proof -
  obtain u where u: "applyWALEntry ops e mt = (Inr (), u)" "thenDo (mtSaveVersion b) (\<lambda>_ mt. (Inr (), mt)) u = (Inr (), mt2)"
    using run by (auto simp: runEntry_def thenDo_def split: prod.splits sum.splits)
  obtain v where v: "mtSaveVersion b u = (Inr v, mt2)" using u(2) by (auto simp: thenDo_def split: prod.splits sum.splits)
  have "twin view view k u u" using twin_applyWALEntry [OF laws laws tw] u(1) by (simp add: agree_def)
  then have l: "list_all2 (namedTwin view view k) (mtrees u) (mtrees u)" by (simp add: twin_def)
  let ?ts = "snd (saveTrees b (mtrees u))"
  have c: "fst (saveTrees b (mtrees u)) = None" "mtrees mt2 = (if b then snd (storeInfosOf ?ts) else ?ts)"
    "storeInfos (lastCommitInfo mt2) = (if b then map infoOf ?ts else [])"
    using mtSaveVersion_cases [OF l, of b] v by auto
  note vs = saveTrees_versions [OF c(1)]
  show "settled mt2"
    using c(2) vs storeInfosOf_tversion [of _ ?ts] by (fastforce simp: settled_def split: if_splits)
  have "\<forall>nt \<in> set ?ts. treeOK view (snd nt) \<and> tversion (snd nt) \<le> MaxInt64"
    using vs list_all2_namedTwin_left [OF saveTrees_OK [OF l, of b]] by blast
  then obtain us where "storeInfosOf ?ts = (Inr (map infoOf ?ts), us)" "map infoOf us = map infoOf ?ts"
    using storeInfosOf_spec by blast
  then show "lastCommitInfo mt2 = \<lparr>ciVersion = mtVersion mt2, storeInfos = map infoOf (mtrees mt2)\<rparr>" if b
    using c(2,3) that by (simp add: mtVersion_def)
qed

lemma runEntries_settled:
  assumes laws: "cacheLaws ops view" and tw: "entriesSize es \<le> 2 ^ 62" "twin view view (entriesSize es) mt mt"
    and run: "forEach (runEntry b ops) es mt = (Inr (), mt2)" and ne: "es \<noteq> []"
  shows "settled mt2" "b \<Longrightarrow> lastCommitInfo mt2 = \<lparr>ciVersion = mtVersion mt2, storeInfos = map infoOf (mtrees mt2)\<rparr>"
proof -
  obtain xs e where es: "es = xs @ [e]" using ne by (metis append_butlast_last_id)
  have "thenDo (forEach (runEntry b ops) xs) (\<lambda>_. forEach (runEntry b ops) [e]) mt = (Inr (), mt2)"
    using run unfolding es forEach_append .
  then obtain u where u: "forEach (runEntry b ops) xs mt = (Inr (), u)" "runEntry b ops e u = (Inr (), mt2)"
    by (auto simp: thenDo_def split: prod.splits sum.splits)
  have sz: "entriesSize xs + entrySize e \<le> 2 ^ 62" "entrySize e + 0 \<le> 2 ^ 62" using tw(1) es by simp_all
  have "twin view view (entriesSize xs + entrySize e) mt mt" using tw(2) es by simp
  then have "twin view view (entrySize e + 0) u u"
    using twin_runEntries [OF laws laws sz(1), of mt mt b b] u(1) by (simp add: agree_def)
  from runEntry_settled [OF laws sz(2) this u(2)]
  show "settled mt2" "b \<Longrightarrow> lastCommitInfo mt2 = \<lparr>ciVersion = mtVersion mt2, storeInfos = map infoOf (mtrees mt2)\<rparr>" .
qed

lemma UpdateCommitInfo_settled:
  assumes "twin view view' k mt us" "settled mt"
  shows "\<exists>mt2. UpdateCommitInfo mt = (Inr (), mt2) \<and> twin view view' k mt2 us \<and>
    lastCommitInfo mt2 = \<lparr>ciVersion = mtVersion mt, storeInfos = map infoOf (mtrees mt)\<rparr>"
proof -
  have l: "list_all2 (namedTwin view view' k) (mtrees mt) (mtrees us)" using assms(1) by (simp add: twin_def)
  have "\<forall>nt \<in> set (mtrees mt). treeOK view (snd nt) \<and> tversion (snd nt) \<le> MaxInt64"
    using assms(2) list_all2_namedTwin_left [OF l] by (auto simp: settled_def)
  then obtain vs where "storeInfosOf (mtrees mt) = (Inr (map infoOf (mtrees mt)), vs)" using storeInfosOf_spec by blast
  then show ?thesis
    using storeInfosOf_left [OF l] assms(1)
    by (simp add: UpdateCommitInfo_def buildCommitInfo_def thenDo_def twin_def mtVersion_def)
qed

section \<open>The log\<close>

text \<open>The log holds the entries \<open>es\<close> from index \<open>first\<close> on, and nothing after them.\<close>

definition logHolds :: "walReader \<Rightarrow> (bytes \<Rightarrow> walEntry option) \<Rightarrow> u64 \<Rightarrow> walEntry list \<Rightarrow> bool" where
  "logHolds log unmarshal first es \<longleftrightarrow>
     es \<noteq> [] \<and> unat first + length es < 2 ^ 64 \<and> wrLast log = Some (of_nat (unat first + length es - 1)) \<and>
     (\<forall>j < length es. \<exists>bz. wrRead log (of_nat (unat first + j)) = Some bz \<and> unmarshal bz = Some (es ! j))"

lemma forEach_replay:
  assumes "\<forall>j < length es. \<exists>bz. wrRead log (of_nat (a + j)) = Some bz \<and> unmarshal bz = Some (es ! j)"
  shows "forEach (\<lambda>i. replayIndex ops unmarshal log (of_nat i)) [a ..< a + length es] mt = forEach (runEntry False ops) es mt"
  using assms
proof (induction es arbitrary: a mt)
  case (Cons e es)
  have e: "replayIndex ops unmarshal log (of_nat a) = runEntry False ops e"
    using Cons.prems by (force simp: replayIndex_def runEntry_def fun_eq_iff)
  have "\<forall>j < length es. \<exists>bz. wrRead log (of_nat (Suc a + j)) = Some bz \<and> unmarshal bz = Some (es ! j)"
  proof (intro allI impI)
    fix j assume "j < length es"
    then show "\<exists>bz. wrRead log (of_nat (Suc a + j)) = Some bz \<and> unmarshal bz = Some (es ! j)"
      using Cons.prems [rule_format, of "Suc j"] by simp
  qed
  from Cons.IH [OF this] have IH: "forEach (\<lambda>i. replayIndex ops unmarshal log (of_nat i)) [Suc a ..< Suc a + length es] =
      forEach (runEntry False ops) es" by (rule ext)
  have "[a ..< a + length (e # es)] = a # [Suc a ..< Suc a + length es]" by (simp add: upt_conv_Cons del: upt_Suc)
  then show ?case using e IH by (simp del: upt_Suc)
qed simp

definition firstIndexOf :: "'c multiTree \<Rightarrow> u64" where
  "firstIndexOf mt = walIndex (nextVersion (mtVersion mt) (mInitialVersion mt)) (mInitialVersion mt)"

text \<open>\<open>endVersion\<close> asks for the first \<open>n\<close> of the entries, or for all of them when it is 0.\<close>

definition targets :: "'c multiTree \<Rightarrow> walEntry list \<Rightarrow> u64 \<Rightarrow> nat \<Rightarrow> bool" where
  "targets mt es endVersion n \<longleftrightarrow> 0 < n \<and> n \<le> length es \<and>
     (if endVersion = 0 then n = length es
      else walIndex endVersion (mInitialVersion mt) = of_nat (unat (firstIndexOf mt) + n - 1))"

lemma CatchupWAL_replays:
  assumes log: "logHolds log unmarshal (firstIndexOf mt) es" and tgt: "targets mt es endVersion n"
  shows "CatchupWAL ops unmarshal log endVersion mt =
    thenDo (forEach (runEntry False ops) (take n es)) (\<lambda>_. UpdateCommitInfo) mt"
proof -
  let ?f = "firstIndexOf mt"
  define l where "l = (of_nat (unat ?f + length es - 1) :: u64)"
  define e where "e = (if endVersion = 0 then l else walIndex endVersion (mInitialVersion mt))"
  have bd: "unat ?f + length es < 2 ^ 64" "0 < n" "n \<le> length es" using log tgt by (auto simp: logHolds_def targets_def)
  have ul: "unat l = unat ?f + length es - 1" unfolding l_def using bd by (intro unat_of_nat_64) simp
  have ue: "unat e = unat ?f + n - 1"
    using tgt bd unat_of_nat_64 [of "unat ?f + n - 1"] ul by (auto simp: e_def targets_def simp del: of_nat_add of_nat_diff split: if_splits)
  have nl: "\<not> l < ?f" "\<not> e < ?f" "min e l = e" using ul ue bd by (auto simp: word_less_nat_alt word_le_nat_alt min_def)
  have "forEach (\<lambda>i. replayIndex ops unmarshal log (of_nat i)) [unat ?f ..< unat ?f + length (take n es)] =
      forEach (runEntry False ops) (take n es)"
    using log by (intro ext forEach_replay) (auto simp: logHolds_def)
  moreover have "Suc (unat e) = unat ?f + length (take n es)" using ue bd by simp
  moreover have "wrLast log = Some l" using log by (simp add: logHolds_def l_def)
  then have "CatchupWAL ops unmarshal log endVersion mt =
      thenDo (forEach (\<lambda>i. replayIndex ops unmarshal log (of_nat i)) [unat ?f ..< Suc (unat e)]) (\<lambda>_. UpdateCommitInfo) mt"
    using nl by (cases "endVersion = 0") (simp_all add: CatchupWAL_def Let_def e_def firstIndexOf_def del: upt_Suc)
  ultimately show ?thesis by (simp del: upt_Suc)
qed

lemma namedTwin_left: "list_all2 (namedTwin v v' k) ts ts' \<Longrightarrow> list_all2 (namedTwin v v k) ts ts"
  by (induction rule: list_all2_induct) (auto simp: namedTwin_def treeSim_def)

lemma twin_left: "twin v v' k mt mt' \<Longrightarrow> twin v v k mt mt"
  using namedTwin_left by (fastforce simp: twin_def)

lemma twin_right: "twin v v' k mt mt' \<Longrightarrow> twin v' v' k mt' mt'"
  using namedTwin_left [OF namedTwin_sym] by (fastforce simp: twin_def)

lemma replay_twin:
  assumes laws: "cacheLaws ops view" "cacheLaws ops' view'"
    and tw: "entriesSize es \<le> 2 ^ 62" "twin view view' (entriesSize es) mt mt'"
    and log: "logHolds log unmarshal (firstIndexOf mt) es" "targets mt es endVersion n"
    and live: "forEach (runEntry True ops') (take n es) mt' = (Inr (), mt2')"
  shows "\<exists>mt2. CatchupWAL ops unmarshal log endVersion mt = (Inr (), mt2) \<and>
    lastCommitInfo mt2 = lastCommitInfo mt2' \<and> twin view view' 0 mt2 mt2'"
proof -
  let ?es = "take n es"
  have ne: "?es \<noteq> []" using log by (auto simp: logHolds_def targets_def)
  have le: "entriesSize ?es \<le> entriesSize es" using entriesSize_simps(3) [of ?es "drop n es"] by simp
  have tw0: "entriesSize ?es + 0 \<le> 2 ^ 62" "twin view view' (entriesSize ?es + 0) mt mt'"
    using tw le twin_weaken by auto
  have refl: "twin view view (entriesSize ?es) mt mt" "twin view' view' (entriesSize ?es) mt' mt'"
    using tw0(2) twin_left twin_right by auto
  have ag: "agree (twin view view' 0) (forEach (runEntry False ops) ?es mt) (forEach (runEntry True ops') ?es mt')"
    by (rule twin_runEntries [OF laws tw0])
  then obtain u where u: "forEach (runEntry False ops) ?es mt = (Inr (), u)" "twin view view' 0 u mt2'"
    using live by (cases "forEach (runEntry False ops) ?es mt") (auto simp: agree_def)
  have sz: "entriesSize ?es \<le> 2 ^ 62" using tw0(1) by simp
  note su = runEntries_settled(1) [OF laws(1) sz refl(1) u(1) ne]
    and info = runEntries_settled(2) [OF laws(2) sz refl(2) live ne TrueI]
  obtain mt2 where m: "UpdateCommitInfo u = (Inr (), mt2)" "twin view view' 0 mt2 mt2'"
    "lastCommitInfo mt2 = \<lparr>ciVersion = mtVersion u, storeInfos = map infoOf (mtrees u)\<rparr>"
    using UpdateCommitInfo_settled [OF u(2) su] by blast
  have "mtVersion u = mtVersion mt2'" "map infoOf (mtrees u) = map infoOf (mtrees mt2')"
    using u(2) namedTwin_info by (auto simp: twin_def)
  then have "lastCommitInfo mt2 = lastCommitInfo mt2'" using m(3) info by simp
  then show ?thesis using CatchupWAL_replays [OF log] u(1) m(1,2) by (simp add: thenDo_def)
qed

section \<open>Loading what was written\<close>

lemma write_open_trees:
  assumes laws: "cacheLaws ops view" "cacheLaws ops' view'" and ctx: "\<And>name i. \<not> ctx name i"
  shows "\<forall>nt \<in> set ts. treeOK view (snd nt) \<and> storable (troot (snd nt)) \<and> length (rootLeaves (troot (snd nt))) + k \<le> 2 ^ 62 \<Longrightarrow>
    \<exists>ds ts' us. writeTrees ctx ts = Inr (ds, ts') \<and> openTrees ops' zc cs ds = Inr us \<and>
      list_all2 (namedTwin view' view k) us ts \<and> list_all2 (namedTwin view view k) ts ts'"
proof (induction ts)
  case (Cons x ts)
  obtain name t where x: "x = (name, t)" by fastforce
  have t: "treeOK view t" "storable (troot t)" "length (rootLeaves (troot t)) + k \<le> 2 ^ 62" using Cons.prems x by auto
  obtain ds ts' us where IH: "writeTrees ctx ts = Inr (ds, ts')" "openTrees ops' zc cs ds = Inr us"
    "list_all2 (namedTwin view' view k) us ts" "list_all2 (namedTwin view view k) ts ts'"
    using Cons.IH Cons.prems by auto
  have "\<forall>i. \<not> ctx name i" using ctx by blast
  note w = WriteSnapshot_restore [OF t(1,2) this laws(1), of Map.empty zc cs]
  then obtain d t' S where d: "WriteSnapshot (ctx name) Map.empty t = Inr (d, t')" "OpenSnapshot d = Inr S" "treeOK view t'"
    "map_option strip (troot t') = map_option strip (troot t)" "tversion t' = tversion t" "sversion S = tversion t"
    "map_option strip (troot (NewFromSnapshot ops S zc cs)) = map_option strip (troot t)"
    "rootLeaves (troot (NewFromSnapshot ops S zc cs)) = rootLeaves (troot t)" "treeOK view (NewFromSnapshot ops S zc cs)"
    by blast
  have root: "troot (NewFromSnapshot ops' S zc cs) = troot (NewFromSnapshot ops S zc cs)" "tversion (NewFromSnapshot ops' S zc cs) = sversion S"
    by (simp_all add: NewFromSnapshot_def)
  have "\<And>c. tcache (NewFromSnapshot ops' S zc cs) = Some c \<Longrightarrow> view' c = Map.empty"
    using laws(2) by (auto simp: NewFromSnapshot_def NewCache_def cacheLaws_def split: if_splits)
  then have ok': "treeOK view' (NewFromSnapshot ops' S zc cs)"
    using d(9) root by (auto simp: treeOK_def cacheOK_def)
  have "namedTwin view' view k (name, NewFromSnapshot ops' S zc cs) (name, t)" "namedTwin view view k (name, t) (name, t')"
    using t d ok' root by (simp_all add: namedTwin_def treeSim_def)
  then show ?case using IH d(1,2) x by simp
qed simp

lemma mtSetInitial_id:
  assumes "\<forall>nt \<in> set (mtrees mt). tversion (snd nt) \<noteq> 0 \<or> iv \<le> 1"
  shows "mtSetInitial iv mt = mt\<lparr>mInitialVersion := iv\<rparr>"
proof -
  have "map (\<lambda>(name, t). (name, setInitialVersion iv t)) ts = ts"
    if "1 < iv" "\<forall>nt \<in> set ts. tversion (snd nt) \<noteq> 0" for ts :: "(string \<times> 'a tree) list"
    using that by (induction ts) (auto simp: setInitialVersion_def word_gt_0)
  then show ?thesis using assms by (cases "1 < iv") (auto simp: mtSetInitial_def mapTrees_def Let_def)
qed

lemma pending_not_zero:
  assumes "tversion t + 1 = nextVersion v iv" "1 < iv"
  shows "tversion t \<noteq> 0"
  using assms by (auto simp: nextVersion_def split: if_splits)

text \<open>What can be written: versions in the signed range and trees within the limits of the file format.\<close>

definition mtStorable :: "'c multiTree \<Rightarrow> bool" where
  "mtStorable mt \<longleftrightarrow> 0 \<le> sint (mtVersion mt) \<and> 0 \<le> sint (mInitialVersion mt) \<and> (\<forall>nt \<in> set (mtrees mt). storable (troot (snd nt)))"

definition metaOf :: "'c multiTree \<Rightarrow> mtMetadata" where
  "metaOf mt = \<lparr>mdCommitInfo = lastCommitInfo mt, mdInitialVersion = mInitialVersion mt\<rparr>"

lemma load_written:
  assumes laws: "cacheLaws ops view" "cacheLaws ops' view'" and ok: "mtOK view mt" and room: "mtRoom k mt" and sto: "mtStorable mt"
    and codec: "unmarshalMeta (marshalMeta (metaOf mt)) = Some (metaOf mt)" and ctx: "\<And>name i. \<not> ctx name i"
  shows "\<exists>sd mt1 mt'. mtWriteSnapshot marshalMeta ctx mt = Inr (sd, mt1) \<and> LoadMultiTree ops' unmarshalMeta sd zc cs = Inr mt' \<and>
    twin view' view k mt' mt \<and> lastCommitInfo mt' = lastCommitInfo mt \<and> twin view view k mt mt1 \<and> SnapshotVersion mt' = mtVersion mt"
proof -
  let ?md = "\<lparr>mdCommitInfo = lastCommitInfo mt, mdInitialVersion = mInitialVersion mt\<rparr>"
  have "\<forall>nt \<in> set (mtrees mt). treeOK view (snd nt) \<and> storable (troot (snd nt)) \<and> length (rootLeaves (troot (snd nt))) + k \<le> 2 ^ 62"
    using ok room sto by (auto simp: mtOK_def treesOK_def mtRoom_def mtStorable_def)
  from write_open_trees [where ctx = ctx, OF laws ctx this]
  obtain ds ts' us where w: "writeTrees ctx (mtrees mt) = Inr (ds, ts')" "openTrees ops' zc cs ds = Inr us"
    "list_all2 (namedTwin view' view k) us (mtrees mt)" "list_all2 (namedTwin view view k) (mtrees mt) ts'"
    by blast
  have names: "map fst us = map fst (mtrees mt)" "length us = length (mtrees mt)"
    using w(3) by (induction rule: list_all2_induct) (auto simp: namedTwin_def)
  have "sorted (map fst us)" unfolding names(1) using ok by (simp add: mtOK_def strict_sorted_iff)
  then have srt: "sort_key fst us = us" by (rule sort_key_id_if_sorted)
  define mt0 where "mt0 = \<lparr>mInitialVersion = 0, mZeroCopy = zc, mCacheSize = cs, mtrees = us, treesByName = indexMap us,
    lastCommitInfo = lastCommitInfo mt, mmetadata = ?md\<rparr>"
  have "tversion (snd nt) \<noteq> 0 \<or> mInitialVersion mt \<le> 1" if nt: "nt \<in> set us" for nt
  proof -
    obtain x where x: "x \<in> set (mtrees mt)" "namedTwin view view' k x nt"
      using list_all2_right [OF namedTwin_sym [OF w(3)] nt] by blast
    then have "tversion (snd x) + 1 = nextVersion (mtVersion mt) (mInitialVersion mt)" "tversion (snd nt) = tversion (snd x)"
      using ok by (auto simp: mtOK_def treesOK_def pendingVersion_def namedTwin_def treeSim_def)
    then show ?thesis using pending_not_zero [of "snd x" "mtVersion mt" "mInitialVersion mt"]
      by (cases "1 < mInitialVersion mt") (simp_all add: not_less)
  qed
  then have init: "mtSetInitial (mInitialVersion mt) mt0 = mt0\<lparr>mInitialVersion := mInitialVersion mt\<rparr>"
    by (intro mtSetInitial_id) (simp add: mt0_def)
  have "LoadMultiTree ops' unmarshalMeta \<lparr>metaFile = Some (marshalMeta ?md), subDirs = ds\<rparr> zc cs = Inr (mt0\<lparr>mInitialVersion := mInitialVersion mt\<rparr>)"
    using w(2) codec sto srt init unfolding metaOf_def
    by (simp add: LoadMultiTree_def readMetadata_def mtStorable_def mtVersion_def Let_def mt0_def indexMap_def not_less)
  moreover have "twin view' view k (mt0\<lparr>mInitialVersion := mInitialVersion mt\<rparr>) mt"
    using w(3) ok names by (simp add: twin_def mt0_def mtOK_def indexMap_def mtVersion_def)
  moreover have "twin view view k mt (mt\<lparr>mtrees := ts'\<rparr>)" using w(4) by (simp add: twin_def mtVersion_def)
  ultimately show ?thesis
    using w(1) by (simp add: mtWriteSnapshot_def SnapshotVersion_def mtVersion_def) (auto simp: mt0_def)
qed

lemma twin_contents: "twin v v' k mt mt' \<Longrightarrow> contents mt = contents mt'"
proof -
  assume "twin v v' k mt mt'"
  then have "list_all2 (namedTwin v v' k) (mtrees mt) (mtrees mt')" by (simp add: twin_def)
  then have "map (\<lambda>nt. (fst nt, map_of (rootLeaves (troot (snd nt))))) (mtrees mt) =
      map (\<lambda>nt. (fst nt, map_of (rootLeaves (troot (snd nt))))) (mtrees mt')"
    by (induction rule: list_all2_induct) (auto simp: namedTwin_def dest: treeSim_facts(2))
  then show ?thesis by (simp add: contents_alt)
qed

section \<open>Properties\<close>

text \<open>C18: crash recovery. Write a snapshot of a multi tree, go on applying blocks (upgrades and change sets, each
  followed by \<open>SaveVersion\<close>), and lose the memory: loading the snapshot and replaying the log, up to a
  target version or to its end, gives the same commit info (the version and, for every store, its
  name, version and root hash) and the same contents as the multi tree that never stopped. The
  hypotheses on the codecs are that decoding inverts encoding.\<close>

theorem crash_recovery:
  assumes "cacheLaws ops view" "cacheLaws ops' view'" "mtOK view mt" "mtRoom (entriesSize es) mt" "mtStorable mt"
    and "unmarshalMeta (marshalMeta (metaOf mt)) = Some (metaOf mt)" "\<And>name i. \<not> ctx name i"
    and "logHolds log unmarshal (firstIndexOf mt) es" "targets mt es endVersion n"
    and "forEach (runEntry True ops) (take n es) mt = (Inr (), live)"
  shows "\<exists>sd mt1 mt' recovered. mtWriteSnapshot marshalMeta ctx mt = Inr (sd, mt1) \<and>
    LoadMultiTree ops' unmarshalMeta sd zc cs = Inr mt' \<and> lastCommitInfo mt' = lastCommitInfo mt \<and>
    CatchupWAL ops' unmarshal log endVersion mt' = (Inr (), recovered) \<and>
    lastCommitInfo recovered = lastCommitInfo live \<and> contents recovered = contents live"
proof -
  obtain sd mt1 mt' where l: "mtWriteSnapshot marshalMeta ctx mt = Inr (sd, mt1)" "LoadMultiTree ops' unmarshalMeta sd zc cs = Inr mt'"
    "twin view' view (entriesSize es) mt' mt" "lastCommitInfo mt' = lastCommitInfo mt"
    using load_written [where ctx = ctx and marshalMeta = marshalMeta and unmarshalMeta = unmarshalMeta, OF assms(1-7)] by blast
  have v: "mtVersion mt' = mtVersion mt" "mInitialVersion mt' = mInitialVersion mt" using l(3) by (auto simp: twin_def)
  have sz: "entriesSize es \<le> 2 ^ 62" using assms(4) by (simp add: mtRoom_def)
  have log: "logHolds log unmarshal (firstIndexOf mt') es" "targets mt' es endVersion n"
    using assms(8,9) v by (simp_all add: firstIndexOf_def targets_def)
  obtain r where r: "CatchupWAL ops' unmarshal log endVersion mt' = (Inr (), r)" "lastCommitInfo r = lastCommitInfo live" "twin view' view 0 r live"
    using replay_twin [OF assms(2,1) sz l(3) log assms(10)] by blast
  show ?thesis using l(1,2,4) r(1,2) twin_contents [OF r(3)] by blast
qed

text \<open>A log of two blocks after the sample multi tree, in a codec that numbers the entries.\<close>

definition sampleBlocks :: "walEntry list" where
  "sampleBlocks =
     [\<lparr>weChangesets = [(''bank'', samplePairs)], weUpgrades = []\<rparr>, \<lparr>weChangesets = [(''acc'', samplePairs)], weUpgrades = []\<rparr>]"

definition sampleLog :: walReader where
  "sampleLog = \<lparr>wrLast = Some 2, wrRead = (\<lambda>i. if i = 1 \<or> i = 2 then Some [ucast i] else None)\<rparr>"

definition sampleUnmarshal :: "bytes \<Rightarrow> walEntry option" where
  "sampleUnmarshal bz = (if bz = [1] then Some (sampleBlocks ! 0) else if bz = [2] then Some (sampleBlocks ! 1) else None)"

lemma sampleLog_holds: "logHolds sampleLog sampleUnmarshal (firstIndexOf sampleMulti) sampleBlocks" "targets sampleMulti sampleBlocks 5 1"
proof -
  have f: "firstIndexOf sampleMulti = 1"
    by (simp add: firstIndexOf_def sampleMulti_def mtVersion_def emptyCommitInfo_def nextVersion_def walIndex_def)
  show "logHolds sampleLog sampleUnmarshal (firstIndexOf sampleMulti) sampleBlocks"
    unfolding f by (simp add: logHolds_def sampleLog_def sampleUnmarshal_def sampleBlocks_def less_Suc_eq all_conj_distrib)
  show "targets sampleMulti sampleBlocks 5 1"
    unfolding targets_def f by (simp add: sampleBlocks_def sampleMulti_def walIndex_def)
qed

lemma sample_live: "\<exists>live. forEach (runEntry True fifoOps) (take 1 sampleBlocks) sampleMulti = (Inr (), live)"
proof -
  let ?e = "\<lparr>weChangesets = [(''bank'', samplePairs)], weUpgrades = []\<rparr>"
  have room: "mtRoom (changesSize [(''bank'', samplePairs)] + 0) sampleMulti"
    by (rule sampleMulti_OK(2)) (simp add: samplePairs_def)
  have "fst ` set [(''bank'', samplePairs)] \<subseteq> fst ` set (mtrees sampleMulti)" by (simp add: sampleMulti_def)
  from mtApplyChangeSets_known [OF fifo_laws sampleMulti_OK(1) room this]
  obtain u where u: "mtApplyChangeSets fifoOps [(''bank'', samplePairs)] sampleMulti = (Inr (), u)" "mtOK fifoView u" "mtRoom 0 u"
    by blast
  have fr: "mtVersion u = mtVersion sampleMulti" "mInitialVersion u = mInitialVersion sampleMulti"
    using u(1) by (auto simp: mtApplyChangeSets_def mtApplyChangeSet_def sampleMulti_def mtVersion_def thenDo_def)
  obtain w where "mtSaveVersion True u = (Inr (pendingVersion u), w)"
    using mtSaveVersion_OK [OF u(2,3), of True] sampleMulti_OK(3,4) fr by auto
  then show ?thesis
    using u(1) by (simp add: sampleBlocks_def runEntry_def applyWALEntry_def ApplyUpgrades_def thenDo_def)
qed

theorem crash_recovery_witness:
  "\<exists>sd mt1 mt' recovered live. mtWriteSnapshot (\<lambda>md. []) (\<lambda>_ _. False) sampleMulti = Inr (sd, mt1) \<and>
     forEach (runEntry True fifoOps) (take 1 sampleBlocks) sampleMulti = (Inr (), live) \<and>
     LoadMultiTree fifoOps (\<lambda>_. Some (metaOf sampleMulti)) sd True 0 = Inr mt' \<and>
     CatchupWAL fifoOps sampleUnmarshal sampleLog 5 mt' = (Inr (), recovered) \<and> lastCommitInfo recovered = lastCommitInfo live"
proof -
  obtain live where live: "forEach (runEntry True fifoOps) (take 1 sampleBlocks) sampleMulti = (Inr (), live)"
    using sample_live by blast
  have room: "mtRoom (entriesSize sampleBlocks) sampleMulti"
    by (rule sampleMulti_OK(2)) (simp add: sampleBlocks_def samplePairs_def)
  have sto: "mtStorable sampleMulti"
    by (simp add: mtStorable_def sampleMulti_def mtVersion_def emptyCommitInfo_def storable_def
        NewWithInitialVersion_def NewTree_def NewEmptyTree_def)
  show ?thesis
    using crash_recovery [where marshalMeta = "\<lambda>md. []" and unmarshalMeta = "\<lambda>_. Some (metaOf sampleMulti)" and
        ctx = "\<lambda>_ _. False" and zc = True and cs = 0, OF fifo_laws fifo_laws sampleMulti_OK(1) room sto refl _ sampleLog_holds live]
      live by blast
qed

end
