(* ===== verification/Db.thy ===== *)
theory Db
  imports SnapDirs WalFile Recovery
begin

text \<open>
  The database on top of the multi tree: \<open>memiavl/db.go\<close>. It owns a directory of snapshots, a write-ahead log and
  the log entry of the block under way, commits synchronously or through a goroutine that writes the log, and rewrites
  snapshots in a background goroutine. The mutex makes each method atomic; what the two goroutines do is a step of its
  own (\<open>workerStep\<close>, \<open>rewriteStep\<close>), to be taken between the methods. A method that may wait forever
  returns an option. The log itself (\<open>tidwall/wal\<close>), the node cache and the protobuf codecs
  are parameters, collected in \<open>env\<close>; loggers, the worker pool and the export callback have no effect on the state
  and are left out.
\<close>

section \<open>Parameters\<close>

record 'w walOps =
  woLast :: "'w \<Rightarrow> u64 option"
  woRead :: "'w \<Rightarrow> u64 \<Rightarrow> bytes option"
  woWriteBatch :: "(u64 \<times> bytes) list \<Rightarrow> 'w \<Rightarrow> 'w option"
  woTruncateFront :: "u64 \<Rightarrow> 'w \<Rightarrow> 'w option"
  woTruncateBack :: "u64 \<Rightarrow> 'w \<Rightarrow> 'w option"

record ('c, 'w) env =
  eOps :: "'c cacheOps"
  eWal :: "'w walOps"
  eOpenLog :: "'w \<Rightarrow> 'w option"
  eMarshal :: "walEntry \<Rightarrow> bytes option"
  eUnmarshal :: "bytes \<Rightarrow> walEntry option"
  eMarshalMeta :: "mtMetadata \<Rightarrow> bytes"
  eUnmarshalMeta :: "bytes \<Rightarrow> mtMetadata option"

section \<open>Options\<close>

record options =
  oCreateIfMissing :: bool
  oInitialVersion :: u64
  oReadOnly :: bool
  oInitialStores :: "string list"
  oSnapshotKeepRecent :: u32
  oSnapshotInterval :: u32
  oTargetVersion :: u64
  oAsyncCommitBuffer :: int
  oZeroCopy :: bool
  oCacheSize :: int
  oLoadForOverwriting :: bool
  oSnapshotWriterLimit :: int

datatype optError = CreateReadOnly | RollbackReadOnly | InitialVersionOverflow | TargetVersionOverflow

definition Validate :: "options \<Rightarrow> optError option" where
  "Validate opts =
     (if oReadOnly opts \<and> oCreateIfMissing opts then Some CreateReadOnly
      else if oReadOnly opts \<and> oLoadForOverwriting opts then Some RollbackReadOnly
      else if MaxInt64 < oInitialVersion opts then Some InitialVersionOverflow
      else if MaxInt64 < oTargetVersion opts then Some TargetVersionOverflow
      else None)"

definition DefaultSnapshotInterval :: u32 where "DefaultSnapshotInterval = 1000"

definition DefaultSnapshotWriterLimit :: int where "DefaultSnapshotWriterLimit = 4"

definition FillDefaults :: "options \<Rightarrow> options" where
  "FillDefaults opts =
     opts\<lparr>oSnapshotInterval := (if oSnapshotInterval opts = 0 then DefaultSnapshotInterval else oSnapshotInterval opts),
          oSnapshotWriterLimit := (if oSnapshotWriterLimit opts \<le> 0 then DefaultSnapshotWriterLimit else oSnapshotWriterLimit opts)\<rparr>"

section \<open>State\<close>

datatype dbError = ErrReadOnly | InvalidOptions optError | MultiErr mtError | DirErr dirError | WalErr | MarshalErr
  | AlreadyCommitted | RewriteOngoing | RewriteFailed mtError | LockErr | AsyncQuit "dbError option" | DbPanic

text \<open>An item of the log channel, and the goroutine that receives it: at work, stuck on reporting an error, or gone.\<close>

type_synonym walItem = "u64 \<times> walEntry"

datatype workerState = Working | Failing dbError | Gone

text \<open>
  The snapshot goroutine: writing the clone, about to catch up with the log, or done, with the new multi tree, with an
  error to report, or with nothing to report.
\<close>

datatype 'c rewriteState = Writing "'c multiTree" | CatchingUp "'c multiTree" | Done "mtError option + 'c multiTree"

record ('c, 'w) db =
  mtree :: "'c multiTree"
  dbdir :: dbDir
  fileLock :: bool
  readOnly :: bool
  rewriting :: "'c rewriteState option"
  snapshotKeepRecent :: u32
  snapshotInterval :: u32
  walLog :: "'w option"
  walChanSize :: int
  walChan :: "walItem list option"
  walWorker :: workerState
  pendingLog :: walEntry

definition emptyEntry :: walEntry where
  "emptyEntry = \<lparr>weChangesets = [], weUpgrades = []\<rparr>"

definition onTrees :: "('c multiTree, mtError, 'a) action \<Rightarrow> (('c, 'w) db, dbError, 'a) action" where
  "onTrees f db = (case f (mtree db) of (r, mt) \<Rightarrow> (map_sum MultiErr id r, db\<lparr>mtree := mt\<rparr>))"

definition onDir :: "(dbDir, dirError, 'a) action \<Rightarrow> (('c, 'w) db, dbError, 'a) action" where
  "onDir f db = (case f (dbdir db) of (r, d) \<Rightarrow> (map_sum DirErr id r, db\<lparr>dbdir := d\<rparr>))"

definition logReader :: "'w walOps \<Rightarrow> 'w \<Rightarrow> walReader" where
  "logReader wo w = \<lparr>wrLast = woLast wo w, wrRead = woRead wo w\<rparr>"

section \<open>Writing snapshots into the directory\<close>

text \<open>A snapshot written over an existing directory replaces the stores it writes and leaves the others.\<close>

definition mergeSnapDir :: "snapDir option \<Rightarrow> snapDir \<Rightarrow> snapDir" where
  "mergeSnapDir old new =
     (case old of
        None \<Rightarrow> new
      | Some sd \<Rightarrow>
          new\<lparr>subDirs := subDirs new @ filter (\<lambda>p. fst p \<notin> fst ` set (subDirs new)) (subDirs sd)\<rparr>)"

definition initEmptyDB :: "('c, 'w) env \<Rightarrow> u64 \<Rightarrow> (dbDir, dbError, unit) action" where
  "initEmptyDB e initialVersion d =
     (case mtWriteSnapshot (eMarshalMeta e) (\<lambda>_ _. False) (NewEmptyMultiTree initialVersion 0 :: 'c multiTree) of
        Inl err \<Rightarrow> (Inl (MultiErr err), d)
      | Inr (sd, _) \<Rightarrow>
          (let d1 = putSnap (snapshotName 0) (mergeSnapDir (lookupSnap (snapshotName 0) d) sd) d
           in case updateCurrentSymlink (snapshotName 0) d1 of (r, d2) \<Rightarrow> (map_sum DirErr id r, d2)))"

text \<open>The file \<open>current/__metadata\<close> exists when the link leads to a directory that has it.\<close>

definition createDBIfNotExist :: "('c, 'w) env \<Rightarrow> u64 \<Rightarrow> (dbDir, dbError, unit) action" where
  "createDBIfNotExist e initialVersion d =
     (case Option.bind (Option.bind (current d) (\<lambda>name. lookupSnap name d)) metaFile of
        None \<Rightarrow> initEmptyDB e initialVersion d
      | Some _ \<Rightarrow> (Inr (), d))"

definition rewriteSnapshotOf :: "('c, 'w) env \<Rightarrow> (string \<Rightarrow> u32 \<Rightarrow> bool) \<Rightarrow> ('c multiTree \<times> dbDir, dbError, unit) action" where
  "rewriteSnapshotOf e ctx s =
     (case s of (mt, d) \<Rightarrow>
        (let snapshotDir = snapshotName (sint (mtVersion mt)); tmpDir = snapshotDir @ TmpSuffix in
         case mtWriteSnapshot (eMarshalMeta e) ctx mt of
           Inl err \<Rightarrow> (Inl (MultiErr err), (mt, dropSnap tmpDir d))
         | Inr (sd, mt1) \<Rightarrow>
             (case thenDo (renameSnap tmpDir snapshotDir) (\<lambda>_. updateCurrentSymlink snapshotDir)
                     (putSnap tmpDir (mergeSnapDir (lookupSnap tmpDir d) sd) d) of
                (r, d1) \<Rightarrow> (map_sum DirErr id r, (mt1, d1)))))"

definition RewriteSnapshotWithContext :: "('c, 'w) env \<Rightarrow> (string \<Rightarrow> u32 \<Rightarrow> bool) \<Rightarrow> (('c, 'w) db, dbError, unit) action" where
  "RewriteSnapshotWithContext e ctx db =
     (if readOnly db then (Inl ErrReadOnly, db)
      else case rewriteSnapshotOf e ctx (mtree db, dbdir db) of
             (r, (mt, d)) \<Rightarrow> (r, db\<lparr>mtree := mt, dbdir := d\<rparr>))"

definition loadSnapshot :: "('c, 'w) env \<Rightarrow> string option \<Rightarrow> dbDir \<Rightarrow> bool \<Rightarrow> int \<Rightarrow> mtError + 'c multiTree" where
  "loadSnapshot e name d zc cacheSize =
     (case Option.bind name (\<lambda>n. lookupSnap n d) of
        None \<Rightarrow> Inl MetadataMissing
      | Some sd \<Rightarrow> LoadMultiTree (eOps e) (eUnmarshalMeta e) sd zc cacheSize)"

section \<open>Changes of a block\<close>

definition dbSetInitialVersion :: "('c, 'w) env \<Rightarrow> u64 \<Rightarrow> (('c, 'w) db, dbError, unit) action" where
  "dbSetInitialVersion e initialVersion db =
     (if readOnly db then (Inl ErrReadOnly, db)
      else if 0 < sint (mtVersion (mtree db)) then (Inl AlreadyCommitted, db)
      else thenDo (onTrees (mtSetInitialVersion initialVersion))
             (\<lambda>_ db1. case initEmptyDB e (mInitialVersion (mtree db1)) (dbdir db1) of (r, d) \<Rightarrow> (r, db1\<lparr>dbdir := d\<rparr>)) db)"

definition dbApplyUpgrades :: "('c, 'w) env \<Rightarrow> treeNameUpgrade list \<Rightarrow> (('c, 'w) db, dbError, unit) action" where
  "dbApplyUpgrades e upgrades db =
     (if readOnly db then (Inl ErrReadOnly, db)
      else thenDo (onTrees (ApplyUpgrades (eOps e) upgrades))
             (\<lambda>_ db1. (Inr (), db1\<lparr>pendingLog := (pendingLog db1)\<lparr>weUpgrades := weUpgrades (pendingLog db1) @ upgrades\<rparr>\<rparr>)) db)"

fun appendPairs :: "string \<Rightarrow> changeSet \<Rightarrow> (string \<times> changeSet) list \<Rightarrow> (string \<times> changeSet) list option" where
  "appendPairs name cs [] = None"
| "appendPairs name cs (x # xs) =
     (if fst x = name then Some ((fst x, snd x @ cs) # xs) else map_option (Cons x) (appendPairs name cs xs))"

definition mergePending :: "string \<Rightarrow> changeSet \<Rightarrow> (string \<times> changeSet) list \<Rightarrow> (string \<times> changeSet) list" where
  "mergePending name cs xs =
     (case appendPairs name cs xs of Some ys \<Rightarrow> ys | None \<Rightarrow> sort_key fst (xs @ [(name, cs)]))"

definition dbApplyChangeSet :: "('c, 'w) env \<Rightarrow> string \<times> changeSet \<Rightarrow> (('c, 'w) db, dbError, unit) action" where
  "dbApplyChangeSet e ncs db =
     (case ncs of (name, cs) \<Rightarrow>
        if cs = [] then (Inr (), db)
        else if readOnly db then (Inl ErrReadOnly, db)
        else onTrees (mtApplyChangeSet (eOps e) (name, cs))
               (db\<lparr>pendingLog := (pendingLog db)\<lparr>weChangesets := mergePending name cs (weChangesets (pendingLog db))\<rparr>\<rparr>))"

definition dbApplyChangeSets :: "('c, 'w) env \<Rightarrow> (string \<times> changeSet) list \<Rightarrow> (('c, 'w) db, dbError, unit) action" where
  "dbApplyChangeSets e changeSets db =
     (if changeSets = [] then (Inr (), db)
      else if readOnly db then (Inl ErrReadOnly, db)
      else if weChangesets (pendingLog db) = []
        then onTrees (mtApplyChangeSets (eOps e) changeSets) (db\<lparr>pendingLog := (pendingLog db)\<lparr>weChangesets := changeSets\<rparr>\<rparr>)
      else forEach (dbApplyChangeSet e) changeSets db)"

section \<open>Writing the log\<close>

definition writeEntry :: "('c, 'w) env \<Rightarrow> u64 \<Rightarrow> walItem \<Rightarrow> dbError + (u64 \<times> bytes) list" where
  "writeEntry e lastIndex item =
     (case eMarshal e (snd item) of
        None \<Rightarrow> Inl MarshalErr
      | Some bz \<Rightarrow> Inr (if fst item \<le> lastIndex then [] else [(fst item, bz)]))"

fun writeEntries :: "('c, 'w) env \<Rightarrow> u64 \<Rightarrow> walItem list \<Rightarrow> dbError + (u64 \<times> bytes) list" where
  "writeEntries e lastIndex [] = Inr []"
| "writeEntries e lastIndex (item # items) =
     andThen (writeEntry e lastIndex item) (\<lambda>b. andThen (writeEntries e lastIndex items) (\<lambda>bs. Inr (b @ bs)))"

definition writeItems :: "('c, 'w) env \<Rightarrow> walItem list \<Rightarrow> 'w \<Rightarrow> dbError + 'w" where
  "writeItems e items w =
     (case woLast (eWal e) w of
        None \<Rightarrow> Inl WalErr
      | Some lastIndex \<Rightarrow>
          andThen (writeEntries e lastIndex items) (\<lambda>batch.
            case woWriteBatch (eWal e) batch w of None \<Rightarrow> Inl WalErr | Some w' \<Rightarrow> Inr w'))"

text \<open>
  One round of the log goroutine: it takes the first item and those that are there when it looks at the
  length of the channel (\<open>n\<close> of them), and writes them as a batch.
\<close>

definition channelBatchRecv :: "nat \<Rightarrow> 'a list \<Rightarrow> 'a list \<times> 'a list" where
  "channelBatchRecv n ch = (take (Suc n) ch, drop (Suc n) ch)"

definition workerStep :: "('c, 'w) env \<Rightarrow> nat \<Rightarrow> ('c, 'w) db \<Rightarrow> ('c, 'w) db" where
  "workerStep e n db =
     (case (walChan db, walWorker db, walLog db) of
        (Some (x # q), Working, Some w) \<Rightarrow>
          (let (items, rest) = channelBatchRecv n (x # q) in
           case writeItems e items w of
             Inl err \<Rightarrow> db\<lparr>walChan := Some rest, walWorker := Failing err\<rparr>
           | Inr w' \<Rightarrow> db\<lparr>walChan := Some rest, walLog := Some w'\<rparr>)
      | _ \<Rightarrow> db)"

text \<open>The goroutine until the channel is empty.\<close>

definition drainChan :: "('c, 'w) env \<Rightarrow> ('c, 'w) db \<Rightarrow> ('c, 'w) db" where
  "drainChan e db = workerStep e (case walChan db of None \<Rightarrow> 0 | Some q \<Rightarrow> length q) db"

text \<open>
  A send on the channel. The channel holds \<open>walChanSize\<close> items, and one more is in the hands of a goroutine at work;
  the sender waits for it when there is no room, and forever when it is not at work any more.
\<close>

definition sendItem :: "('c, 'w) env \<Rightarrow> walItem \<Rightarrow> ('c, 'w) db \<Rightarrow> ('c, 'w) db option" where
  "sendItem e item db =
     (let db1 = (if walChan db = None then db\<lparr>walChan := Some [], walWorker := Working\<rparr> else db);
          held = (\<lambda>d. length (the (walChan d)));
          cap = (\<lambda>d. if walWorker d = Working then nat (walChanSize d) + 1 else nat (walChanSize d));
          db2 = (if held db1 < cap db1 then db1 else drainChan e db1)
      in if held db2 < cap db2 then Some (db2\<lparr>walChan := Some (the (walChan db2) @ [item])\<rparr>) else None)"

definition logCommit :: "('c, 'w) env \<Rightarrow> u64 \<Rightarrow> ('c, 'w) db \<Rightarrow> ((dbError + unit) \<times> ('c, 'w) db) option" where
  "logCommit e v db =
     (case walLog db of
        None \<Rightarrow> Some (Inr (), db)
      | Some w \<Rightarrow>
          (let item = (walIndex v (mInitialVersion (mtree db)), pendingLog db) in
           if 0 \<le> walChanSize db then map_option (\<lambda>db1. (Inr (), db1)) (sendItem e item db)
           else
             (case writeItems e [item] w of
                Inl err \<Rightarrow> Some (Inl err, db)
              | Inr w' \<Rightarrow> Some (Inr (), db\<lparr>walLog := Some w'\<rparr>))))"

definition waitAsyncCommit :: "('c, 'w) env \<Rightarrow> (('c, 'w) db, dbError, unit) action" where
  "waitAsyncCommit e db =
     (case walChan db of
        None \<Rightarrow> (Inr (), db)
      | Some q \<Rightarrow>
          (let db1 = drainChan e db; db2 = db1\<lparr>walChan := None, walWorker := Working\<rparr> in
           case walWorker db1 of Failing err \<Rightarrow> (Inl err, db2) | _ \<Rightarrow> (Inr (), db2)))"

definition checkAsyncCommit :: "(('c, 'w) db, dbError, unit) action" where
  "checkAsyncCommit db =
     (case (walChan db, walWorker db) of
        (None, _) \<Rightarrow> (Inr (), db)
      | (Some _, Working) \<Rightarrow> (Inr (), db)
      | (Some _, Failing err) \<Rightarrow> (Inl (AsyncQuit (Some err)), db\<lparr>walWorker := Gone\<rparr>)
      | (Some _, Gone) \<Rightarrow> (Inl (AsyncQuit None), db))"

definition CommittedVersion :: "('c, 'w) env \<Rightarrow> ('c, 'w) db \<Rightarrow> dbError + u64" where
  "CommittedVersion e db =
     (case walLog db of
        None \<Rightarrow> Inl DbPanic
      | Some w \<Rightarrow>
          (case woLast (eWal e) w of
             None \<Rightarrow> Inl WalErr
           | Some lastIndex \<Rightarrow>
               Inr (if lastIndex = 0 then SnapshotVersion (mtree db) else walVersion lastIndex (mInitialVersion (mtree db)))))"

section \<open>Snapshots in the background\<close>

definition dbCopy :: "('c, 'w) env \<Rightarrow> int \<Rightarrow> ('c, 'w) db \<Rightarrow> ('c, 'w) db \<times> ('c, 'w) db" where
  "dbCopy e cacheSize db =
     (case mtCopy (eOps e) cacheSize (mtree db) of
        (mt, clone) \<Rightarrow>
          (db\<lparr>mtree := mt\<rparr>,
           \<lparr>mtree = clone, dbdir = dbdir db, fileLock = False, readOnly = False, rewriting = None, snapshotKeepRecent = 0,
            snapshotInterval = 0, walLog = None, walChanSize = 0, walChan = None, walWorker = Working, pendingLog = emptyEntry\<rparr>))"

definition rewriteSnapshotBackground :: "('c, 'w) env \<Rightarrow> (('c, 'w) db, dbError, unit) action" where
  "rewriteSnapshotBackground e db =
     (if rewriting db \<noteq> None then (Inl RewriteOngoing, db)
      else case dbCopy e 0 db of (db1, cloned) \<Rightarrow> (Inr (), db1\<lparr>rewriting := Some (Writing (mtree cloned))\<rparr>))"

definition RewriteSnapshotBackground :: "('c, 'w) env \<Rightarrow> (('c, 'w) db, dbError, unit) action" where
  "RewriteSnapshotBackground e db = (if readOnly db then (Inl ErrReadOnly, db) else rewriteSnapshotBackground e db)"

definition rewriteStep :: "('c, 'w) env \<Rightarrow> (string \<Rightarrow> u32 \<Rightarrow> bool) \<Rightarrow> ('c, 'w) db \<Rightarrow> ('c, 'w) db" where
  "rewriteStep e ctx db =
     (case rewriting db of
        Some (Writing cloned) \<Rightarrow>
          (case rewriteSnapshotOf e ctx (cloned, dbdir db) of
             (Inl err, (_, d)) \<Rightarrow> db\<lparr>dbdir := d, rewriting := Some (Done (Inl None))\<rparr>
           | (Inr _, (_, d)) \<Rightarrow>
               (case loadSnapshot e (current d) d (mZeroCopy cloned) 0 of
                  Inl err \<Rightarrow> db\<lparr>dbdir := d, rewriting := Some (Done (Inl (Some err)))\<rparr>
                | Inr mt \<Rightarrow> db\<lparr>dbdir := d, rewriting := Some (CatchingUp mt)\<rparr>))
      | Some (CatchingUp mt) \<Rightarrow>
          (case walLog db of
             None \<Rightarrow> db\<lparr>rewriting := Some (Done (Inl (Some Panic)))\<rparr>
           | Some w \<Rightarrow>
               (case CatchupWAL (eOps e) (eUnmarshal e) (logReader (eWal e) w) 0 mt of
                  (Inl err, _) \<Rightarrow> db\<lparr>rewriting := Some (Done (Inl (Some err)))\<rparr>
                | (Inr _, mt1) \<Rightarrow> db\<lparr>rewriting := Some (Done (Inr mt1))\<rparr>))
      | _ \<Rightarrow> db)"

definition reloadMultiTree :: "('c, 'w) env \<Rightarrow> 'c multiTree \<Rightarrow> (('c, 'w) db, dbError, unit) action" where
  "reloadMultiTree e mt db = onTrees (applyWALEntry (eOps e) (pendingLog db)) (db\<lparr>mtree := mt\<rparr>)"

definition reload :: "('c, 'w) env \<Rightarrow> (('c, 'w) db, dbError, unit) action" where
  "reload e db =
     (case loadSnapshot e (current (dbdir db)) (dbdir db) (mZeroCopy (mtree db)) (mCacheSize (mtree db)) of
        Inl err \<Rightarrow> (Inl (MultiErr err), db)
      | Inr mt \<Rightarrow> reloadMultiTree e mt db)"

text \<open>The goroutine of \<open>pruneSnapshots\<close>; a failure is logged and otherwise ignored.\<close>

definition dbPruneSnapshots :: "('c, 'w) env \<Rightarrow> (int \<Rightarrow> bool) \<Rightarrow> ('c, 'w) db \<Rightarrow> ('c, 'w) db" where
  "dbPruneSnapshots e locked db =
     (case pruneSnapshots locked (snapshotKeepRecent db) (dbdir db) of
        (Inl err, d) \<Rightarrow> db\<lparr>dbdir := d\<rparr>
      | (Inr earliestVersion, d) \<Rightarrow>
          db\<lparr>dbdir := d,
             walLog := map_option (\<lambda>w.
               case woTruncateFront (eWal e) (walIndex (word_of_int (earliestVersion + 1)) (mInitialVersion (mtree db))) w of
                 None \<Rightarrow> w | Some w' \<Rightarrow> w') (walLog db)\<rparr>)"

text \<open>The waiting loop: each round gives the log goroutine a chance to write what it finds in the channel.\<close>

partial_function (option) awaitCommitted :: "('c, 'w) env \<Rightarrow> ('c, 'w) db \<Rightarrow> ((dbError + unit) \<times> ('c, 'w) db) option" where
  "awaitCommitted e db =
     (case CommittedVersion e db of
        Inl err \<Rightarrow> Some (Inl err, db)
      | Inr committedVersion \<Rightarrow>
          if mtVersion (mtree db) = committedVersion then Some (Inr (), db)
          else awaitCommitted e (workerStep e 0 db))"

definition switchSnapshot :: "('c, 'w) env \<Rightarrow> (int \<Rightarrow> bool) \<Rightarrow> 'c multiTree \<Rightarrow> (('c, 'w) db, dbError, unit) action" where
  "switchSnapshot e locked mt db =
     (case walLog db of
        None \<Rightarrow> (Inl DbPanic, db)
      | Some w \<Rightarrow>
          (case CatchupWAL (eOps e) (eUnmarshal e) (logReader (eWal e) w) 0 mt of
             (Inl err, _) \<Rightarrow> (Inl (MultiErr err), db)
           | (Inr _, mt1) \<Rightarrow> thenDo (reloadMultiTree e mt1) (\<lambda>_ db1. (Inr (), dbPruneSnapshots e locked db1)) db))"

definition checkBackgroundSnapshotRewrite ::
  "('c, 'w) env \<Rightarrow> (int \<Rightarrow> bool) \<Rightarrow> ('c, 'w) db \<Rightarrow> ((dbError + unit) \<times> ('c, 'w) db) option" where
  "checkBackgroundSnapshotRewrite e locked db =
     (case rewriting db of
        Some (Done result) \<Rightarrow>
          (let db1 = db\<lparr>rewriting := None\<rparr> in
           case result of
             Inl (Some err) \<Rightarrow> Some (Inl (RewriteFailed err), db1)
           | Inl None \<Rightarrow> Some (Inr (), db1)
           | Inr mt \<Rightarrow>
               (case awaitCommitted e db1 of
                  None \<Rightarrow> None
                | Some (Inl err, db2) \<Rightarrow> Some (Inl err, db2)
                | Some (Inr _, db2) \<Rightarrow> Some (switchSnapshot e locked mt db2)))
      | _ \<Rightarrow> Some (Inr (), db))"

text \<open>\<open>errors.Join\<close> of both checks: the second runs whatever the first says.\<close>

definition checkAsyncTasks :: "('c, 'w) env \<Rightarrow> (int \<Rightarrow> bool) \<Rightarrow> ('c, 'w) db \<Rightarrow> ((dbError + unit) \<times> ('c, 'w) db) option" where
  "checkAsyncTasks e locked db =
     (case checkAsyncCommit db of
        (r1, db1) \<Rightarrow>
          (case checkBackgroundSnapshotRewrite e locked db1 of
             None \<Rightarrow> None
           | Some (r2, db2) \<Rightarrow> Some (case r1 of Inl err \<Rightarrow> Inl err | Inr _ \<Rightarrow> r2, db2)))"

definition rewriteIfApplicable :: "('c, 'w) env \<Rightarrow> u64 \<Rightarrow> (('c, 'w) db, dbError, unit) action" where
  "rewriteIfApplicable e height db =
     (if snapshotInterval db = 0 then (Inl DbPanic, db)
      else if sint height mod uint (snapshotInterval db) \<noteq> 0 then (Inr (), db)
      else (Inr (), snd (rewriteSnapshotBackground e db)))"

section \<open>Commit\<close>

definition Commit :: "('c, 'w) env \<Rightarrow> (int \<Rightarrow> bool) \<Rightarrow> ('c, 'w) db \<Rightarrow> ((dbError + u64) \<times> ('c, 'w) db) option" where
  "Commit e locked db =
     (if readOnly db then Some (Inl ErrReadOnly, db)
      else case onTrees (mtSaveVersion True) db of
             (Inl err, db1) \<Rightarrow> Some (Inl err, db1)
           | (Inr v, db1) \<Rightarrow>
               (case logCommit e v db1 of
                  None \<Rightarrow> None
                | Some (Inl err, db2) \<Rightarrow> Some (Inl err, db2)
                | Some (Inr _, db2) \<Rightarrow>
                    (case checkAsyncTasks e locked (db2\<lparr>pendingLog := emptyEntry\<rparr>) of
                       None \<Rightarrow> None
                     | Some (Inl err, db3) \<Rightarrow> Some (Inl err, db3)
                     | Some (Inr _, db3) \<Rightarrow>
                         (case rewriteIfApplicable e v db3 of
                            (Inl err, db4) \<Rightarrow> Some (Inl err, db4)
                          | (Inr _, db4) \<Rightarrow> Some (Inr v, db4)))))"

definition dbSaveVersion :: "bool \<Rightarrow> (('c, 'w) db, dbError, u64) action" where
  "dbSaveVersion updateCommitInfo db = (if readOnly db then (Inl ErrReadOnly, db) else onTrees (mtSaveVersion updateCommitInfo) db)"

definition dbUpdateCommitInfo :: "(('c, 'w) db, dbError, unit) action" where
  "dbUpdateCommitInfo db = (if readOnly db then (Inl DbPanic, db) else onTrees UpdateCommitInfo db)"

definition dbWriteSnapshot :: "('c, 'w) env \<Rightarrow> (string \<Rightarrow> u32 \<Rightarrow> bool) \<Rightarrow> ('c, 'w) db \<Rightarrow> (dbError + snapDir) \<times> ('c, 'w) db" where
  "dbWriteSnapshot e ctx db =
     (case mtWriteSnapshot (eMarshalMeta e) ctx (mtree db) of
        Inl err \<Rightarrow> (Inl (MultiErr err), db)
      | Inr (sd, mt) \<Rightarrow> (Inr sd, db\<lparr>mtree := mt\<rparr>))"

text \<open>\<open>Close\<close> cancels the snapshot goroutine and waits for it to end; the first error is reported.\<close>

definition dbClose :: "('c, 'w) env \<Rightarrow> (string \<Rightarrow> u32 \<Rightarrow> bool) \<Rightarrow> (('c, 'w) db, dbError, unit) action" where
  "dbClose e ctx db =
     (case waitAsyncCommit e db of
        (r, db1) \<Rightarrow>
          (let db2 = (rewriteStep e ctx (rewriteStep e ctx db1))\<lparr>rewriting := None\<rparr>;
               db3 = db2\<lparr>mtree := mtClose (mtree db2)\<rparr>
           in case walLog db3 of
                None \<Rightarrow> (Inl DbPanic, db3)
              | Some _ \<Rightarrow> (r, db3\<lparr>walLog := None, fileLock := False\<rparr>)))"

section \<open>Load\<close>

text \<open>What \<open>Load\<close> finds: the directory, the log in it and whether another process holds the lock.\<close>

record 'w disk =
  dskDir :: dbDir
  dskLog :: 'w
  dskLocked :: bool

definition pruneAbove :: "u64 \<Rightarrow> (dbDir, dirError, unit) action" where
  "pruneAbove target d =
     traverseSnapshots d False
       (\<lambda>version s. if version \<le> sint target then (Inr True, s)
          else (Inr False, snd (atomicRemoveDir (snapshotName version) s))) d"

definition rollback :: "('c, 'w) env \<Rightarrow> u64 \<Rightarrow> u64 \<Rightarrow> string \<Rightarrow> ('w disk, dbError, unit) action" where
  "rollback e target initialVersion snapshot dsk =
     (case current (dskDir dsk) of
        None \<Rightarrow> (Inl (DirErr NoLink), dsk)
      | Some currentSnapshot \<Rightarrow>
          (case (if snapshot \<noteq> currentSnapshot then updateCurrentSymlink snapshot (dskDir dsk) else (Inr (), dskDir dsk)) of
             (Inl err, d) \<Rightarrow> (Inl (DirErr err), dsk\<lparr>dskDir := d\<rparr>)
           | (Inr _, d) \<Rightarrow>
               (case woTruncateBack (eWal e) (walIndex target initialVersion) (dskLog dsk) of
                  None \<Rightarrow> (Inl WalErr, dsk\<lparr>dskDir := d\<rparr>)
                | Some w \<Rightarrow>
                    (case pruneAbove target d of
                       (r, d1) \<Rightarrow> (map_sum DirErr id r, dsk\<lparr>dskDir := d1, dskLog := w\<rparr>)))))"

text \<open>The snapshot to start from: the current one, or the one to which the target version belongs.\<close>

definition startSnapshot :: "u64 \<Rightarrow> dbDir \<Rightarrow> dbError + string option" where
  "startSnapshot target d =
     (if 0 < target then (case seekSnapshot d target of Inl err \<Rightarrow> Inl (DirErr err) | Inr v \<Rightarrow> Inr (Some (snapshotName v)))
      else Inr (current d))"

definition loadTrees :: "('c, 'w) env \<Rightarrow> options \<Rightarrow> 'w disk \<Rightarrow> dbError + string option \<times> 'c multiTree \<times> 'w" where
  "loadTrees e opts dsk =
     andThen (startSnapshot (oTargetVersion opts) (dskDir dsk)) (\<lambda>snapshot.
       case loadSnapshot e snapshot (dskDir dsk) (oZeroCopy opts) (oCacheSize opts) of
         Inl err \<Rightarrow> Inl (MultiErr err)
       | Inr mt \<Rightarrow>
           (case eOpenLog e (dskLog dsk) of
              None \<Rightarrow> Inl WalErr
            | Some w \<Rightarrow>
                if oTargetVersion opts = 0 \<or> sint (mtVersion mt) < sint (oTargetVersion opts)
                then (case CatchupWAL (eOps e) (eUnmarshal e) (logReader (eWal e) w) (oTargetVersion opts) mt of
                        (Inl err, _) \<Rightarrow> Inl (MultiErr err)
                      | (Inr _, mt1) \<Rightarrow> Inr (snapshot, mt1, w))
                else Inr (snapshot, mt, w)))"

definition newDB :: "options \<Rightarrow> 'c multiTree \<Rightarrow> 'w disk \<Rightarrow> ('c, 'w) db" where
  "newDB opts mt dsk =
     \<lparr>mtree = mt, dbdir = dskDir dsk, fileLock = \<not> oReadOnly opts, readOnly = oReadOnly opts, rewriting = None,
      snapshotKeepRecent = oSnapshotKeepRecent opts, snapshotInterval = oSnapshotInterval opts, walLog = Some (dskLog dsk),
      walChanSize = oAsyncCommitBuffer opts, walChan = None, walWorker = Working, pendingLog = emptyEntry\<rparr>"

definition openDB :: "('c, 'w) env \<Rightarrow> options \<Rightarrow> ('w disk, dbError, ('c, 'w) db) action" where
  "openDB e opts dsk =
     (case loadTrees e opts dsk of
        Inl err \<Rightarrow> (Inl err, dsk)
      | Inr (snapshot, mt, w) \<Rightarrow>
          thenDo
            (if oLoadForOverwriting opts \<and> 0 < oTargetVersion opts
             then rollback e (oTargetVersion opts) (mInitialVersion mt) (the snapshot)
             else (\<lambda>s. (Inr (), s)))
            (\<lambda>_ dsk1.
               let db = newDB opts mt dsk1 in
               if \<not> oReadOnly opts \<and> mtVersion mt = 0 \<and> oInitialStores opts \<noteq> []
               then (case dbApplyUpgrades e (map (\<lambda>name. \<lparr>upName = name, upRenameFrom = [], upDelete = False\<rparr>) (oInitialStores opts)) db of
                       (Inl err, _) \<Rightarrow> (Inl err, dsk1\<lparr>dskLocked := False\<rparr>)
                     | (Inr _, db1) \<Rightarrow> (Inr db1, dsk1))
               else (Inr db, dsk1))
            (dsk\<lparr>dskLog := w\<rparr>))"

definition Load :: "('c, 'w) env \<Rightarrow> options \<Rightarrow> ('w disk, dbError, ('c, 'w) db) action" where
  "Load e opts0 dsk =
     (case Validate opts0 of
        Some err \<Rightarrow> (Inl (InvalidOptions err), dsk)
      | None \<Rightarrow>
          (let opts = FillDefaults opts0 in
           case (if oCreateIfMissing opts then createDBIfNotExist e (oInitialVersion opts) (dskDir dsk) else (Inr (), dskDir dsk)) of
             (Inl err, d) \<Rightarrow> (Inl err, dsk\<lparr>dskDir := d\<rparr>)
           | (Inr _, d) \<Rightarrow>
               if \<not> oReadOnly opts \<and> dskLocked dsk then (Inl LockErr, dsk\<lparr>dskDir := d\<rparr>)
               else if oReadOnly opts then openDB e opts (dsk\<lparr>dskDir := d\<rparr>)
               else openDB e opts (dsk\<lparr>dskDir := removeTmpDirs d, dskLocked := True\<rparr>)))"

text \<open>\<open>GetLatestVersion\<close>: from the current snapshot's metadata and the last index of the log.\<close>

definition GetLatestVersion :: "('c, 'w) env \<Rightarrow> 'w disk \<Rightarrow> dbError + u64" where
  "GetLatestVersion e dsk =
     (case Option.bind (current (dskDir dsk)) (\<lambda>n. lookupSnap n (dskDir dsk)) of
        None \<Rightarrow> Inr 0
      | Some sd \<Rightarrow>
          (case readMetadata (eUnmarshalMeta e) sd of
             Inl err \<Rightarrow> if err = MetadataMissing then Inr 0 else Inl (MultiErr err)
           | Inr md \<Rightarrow>
               (case Option.bind (eOpenLog e (dskLog dsk)) (woLast (eWal e)) of
                  None \<Rightarrow> Inl WalErr
                | Some lastIndex \<Rightarrow> Inr (walVersion lastIndex (mdInitialVersion md)))))"

end
