(* ===== verification/DbLog.thy ===== *)
theory DbLog
  imports Db
begin

text \<open>
  What the database asks of the log (the documented behaviour of \<open>tidwall/wal\<close>), and how the entries of the commits get there:
  \<open>writeEntry\<close>, the synchronous write of \<open>Commit\<close> and the goroutine of \<open>initAsyncCommit\<close> in \<open>memiavl/db.go\<close>.
\<close>

section \<open>The log\<close>

text \<open>
  A log is the index of its first entry and its entries; an empty log starts at 1. Successful writes append a
  batch whose indices continue the log, successful truncations take an index in range. Any of these may
  fail for reasons of its own.
\<close>

definition fits :: "nat \<times> bytes list \<Rightarrow> bool" where
  "fits l \<longleftrightarrow> 0 < fst l \<and> fst l + length (snd l) < 2 ^ 64"

definition indices :: "nat \<Rightarrow> nat \<Rightarrow> u64 list" where
  "indices i n = map of_nat [i ..< i + n]"

definition walLaws :: "'w walOps \<Rightarrow> ('w \<Rightarrow> nat \<times> bytes list) \<Rightarrow> bool" where
  "walLaws wo wview \<longleftrightarrow>
     (\<forall>w. fits (wview w) \<longrightarrow>
        woLast wo w = Some (of_nat (fst (wview w) + length (snd (wview w)) - 1)) \<and>
        (\<forall>j < length (snd (wview w)). woRead wo w (of_nat (fst (wview w) + j)) = Some (snd (wview w) ! j)) \<and>
        (\<forall>batch w'. woWriteBatch wo batch w = Some w' \<longrightarrow>
           map fst batch = indices (fst (wview w) + length (snd (wview w))) (length batch) \<and>
           wview w' = (fst (wview w), snd (wview w) @ map snd batch)) \<and>
        (\<forall>i w'. woTruncateFront wo i w = Some w' \<longrightarrow>
           fst (wview w) \<le> unat i \<and> unat i < fst (wview w) + length (snd (wview w)) \<and>
           wview w' = (unat i, drop (unat i - fst (wview w)) (snd (wview w)))) \<and>
        (\<forall>i w'. woTruncateBack wo i w = Some w' \<longrightarrow>
           fst (wview w) \<le> unat i \<and> unat i < fst (wview w) + length (snd (wview w)) \<and>
           wview w' = (fst (wview w), take (Suc (unat i) - fst (wview w)) (snd (wview w)))))"

text \<open>A log that does not fail when it is used in range.\<close>

definition walTotal :: "'w walOps \<Rightarrow> ('w \<Rightarrow> nat \<times> bytes list) \<Rightarrow> bool" where
  "walTotal wo wview \<longleftrightarrow>
     (\<forall>w batch. fits (wview w) \<and> fst (wview w) + length (snd (wview w)) + length batch < 2 ^ 64 \<and>
        map fst batch = indices (fst (wview w) + length (snd (wview w))) (length batch) \<longrightarrow> (\<exists>w'. woWriteBatch wo batch w = Some w')) \<and>
     (\<forall>w i. fits (wview w) \<and> fst (wview w) \<le> unat i \<and> unat i < fst (wview w) + length (snd (wview w)) \<longrightarrow>
        (\<exists>w'. woTruncateFront wo i w = Some w') \<and> (\<exists>w'. woTruncateBack wo i w = Some w'))"

lemma walLaws_view:
  assumes "walLaws wo wview" "wview w = (f, bs)" "fits (f, bs)"
  shows walLaws_last: "woLast wo w = Some (of_nat (f + length bs - 1))"
    and walLaws_read: "j < length bs \<Longrightarrow> woRead wo w (of_nat (f + j)) = Some (bs ! j)"
    and walLaws_write: "woWriteBatch wo batch w = Some w' \<Longrightarrow>
      map fst batch = indices (f + length bs) (length batch) \<and> wview w' = (f, bs @ map snd batch)"
    and walLaws_front: "woTruncateFront wo i w = Some w' \<Longrightarrow>
      f \<le> unat i \<and> unat i < f + length bs \<and> wview w' = (unat i, drop (unat i - f) bs)"
    and walLaws_back: "woTruncateBack wo i w = Some w' \<Longrightarrow>
      f \<le> unat i \<and> unat i < f + length bs \<and> wview w' = (f, take (Suc (unat i) - f) bs)"
proof -
  note all = assms(1) [unfolded walLaws_def, THEN spec, THEN mp, of w, unfolded assms(2) fst_conv snd_conv, OF assms(3)]
  show "woLast wo w = Some (of_nat (f + length bs - 1))" using all by blast
  show "j < length bs \<Longrightarrow> woRead wo w (of_nat (f + j)) = Some (bs ! j)" using all by blast
  show "woWriteBatch wo batch w = Some w' \<Longrightarrow>
      map fst batch = indices (f + length bs) (length batch) \<and> wview w' = (f, bs @ map snd batch)" using all by blast
  show "woTruncateFront wo i w = Some w' \<Longrightarrow>
      f \<le> unat i \<and> unat i < f + length bs \<and> wview w' = (unat i, drop (unat i - f) bs)" using all by blast
  show "woTruncateBack wo i w = Some w' \<Longrightarrow>
      f \<le> unat i \<and> unat i < f + length bs \<and> wview w' = (f, take (Suc (unat i) - f) bs)" using all by blast
qed

lemma walTotal_write:
  assumes "walTotal wo wview" "wview w = (f, bs)" "fits (f, bs)" "f + length bs + length batch < 2 ^ 64"
    "map fst batch = indices (f + length bs) (length batch)"
  shows "\<exists>w'. woWriteBatch wo batch w = Some w'"
proof -
  note all = assms(1) [unfolded walTotal_def, THEN conjunct1, THEN spec, THEN spec, THEN mp, of w batch, unfolded assms(2) fst_conv snd_conv]
  show ?thesis by (rule all) (intro conjI assms(3-5))
qed

lemma indices_simps [simp]:
  "length (indices i n) = n" "indices i 0 = []" "indices i (Suc n) = of_nat i # indices (Suc i) n"
  by (simp_all add: indices_def upt_conv_Cons del: upt_Suc)

lemma indices_add: "indices i (m + n) = indices i m @ indices (i + m) n"
  using upt_add_eq_append [of i "i + m" n] by (simp add: indices_def add.assoc)

section \<open>A log in memory\<close>

definition listLog :: "(nat \<times> bytes list) walOps" where
  "listLog =
     \<lparr>woLast = (\<lambda>(f, bs). Some (of_nat (f + length bs - 1))),
      woRead = (\<lambda>(f, bs) i. if f \<le> unat i \<and> unat i < f + length bs then Some (bs ! (unat i - f)) else None),
      woWriteBatch = (\<lambda>batch (f, bs).
        if map fst batch = indices (f + length bs) (length batch) then Some (f, bs @ map snd batch) else None),
      woTruncateFront = (\<lambda>i (f, bs). if f \<le> unat i \<and> unat i < f + length bs then Some (unat i, drop (unat i - f) bs) else None),
      woTruncateBack = (\<lambda>i (f, bs). if f \<le> unat i \<and> unat i < f + length bs then Some (f, take (Suc (unat i) - f) bs) else None)\<rparr>"

lemma listLog_laws: "walLaws listLog id" "walTotal listLog id"
proof -
  have r: "woRead listLog (f, bs) (of_nat (f + j)) = Some (bs ! j)" if "fits (f, bs)" "j < length bs" for f j bs
  proof -
    have "unat (of_nat (f + j) :: u64) = f + j" by (rule unat_of_nat_64) (use that in \<open>simp add: fits_def\<close>)
    then show ?thesis using that by (simp add: listLog_def del: of_nat_add)
  qed
  show "walLaws listLog id"
    unfolding walLaws_def
  proof (intro allI impI)
    fix w :: "nat \<times> bytes list" assume fit: "fits (id w)"
    obtain f bs where w: "w = (f, bs)" by fastforce
    show "woLast listLog w = Some (of_nat (fst (id w) + length (snd (id w)) - 1)) \<and>
        (\<forall>j < length (snd (id w)). woRead listLog w (of_nat (fst (id w) + j)) = Some (snd (id w) ! j)) \<and>
        (\<forall>batch w'. woWriteBatch listLog batch w = Some w' \<longrightarrow>
           map fst batch = indices (fst (id w) + length (snd (id w))) (length batch) \<and>
           id w' = (fst (id w), snd (id w) @ map snd batch)) \<and>
        (\<forall>i w'. woTruncateFront listLog i w = Some w' \<longrightarrow>
           fst (id w) \<le> unat i \<and> unat i < fst (id w) + length (snd (id w)) \<and>
           id w' = (unat i, drop (unat i - fst (id w)) (snd (id w)))) \<and>
        (\<forall>i w'. woTruncateBack listLog i w = Some w' \<longrightarrow>
           fst (id w) \<le> unat i \<and> unat i < fst (id w) + length (snd (id w)) \<and>
           id w' = (fst (id w), take (Suc (unat i) - fst (id w)) (snd (id w))))"
      using r [of f bs] fit unfolding w id_def fst_conv snd_conv
      by (intro conjI allI impI) (simp_all add: listLog_def split: if_splits)
  qed
  show "walTotal listLog id" unfolding walTotal_def by (simp add: listLog_def case_prod_beta)
qed

definition sampleEnv :: "(nat \<times> (bytes \<times> bytes) list, nat \<times> bytes list) env" where
  "sampleEnv =
     \<lparr>eOps = fifoOps, eWal = listLog, eOpenLog = Some,
      eMarshal = (\<lambda>en. if en = sampleBlocks ! 0 then Some [1] else if en = sampleBlocks ! 1 then Some [2] else Some []),
      eUnmarshal = (\<lambda>bz. if bz = [] then Some emptyEntry else sampleUnmarshal bz),
      eMarshalMeta = (\<lambda>md. []), eUnmarshalMeta = (\<lambda>_. Some (metaOf sampleMulti))\<rparr>"

section \<open>Writing entries\<close>

definition itemsFrom :: "nat \<Rightarrow> walEntry list \<Rightarrow> walItem list" where
  "itemsFrom i es = zip (indices i (length es)) es"

lemma itemsFrom_simps [simp]:
  "itemsFrom i [] = []" "itemsFrom i (en # es) = (of_nat i, en) # itemsFrom (Suc i) es" "length (itemsFrom i es) = length es"
  by (simp_all add: itemsFrom_def)

lemma itemsFrom_append: "itemsFrom i (es @ es') = itemsFrom i es @ itemsFrom (i + length es) es'"
  by (simp add: itemsFrom_def indices_add zip_append)

lemma take_itemsFrom: "take n (itemsFrom i es) = itemsFrom i (take n es)"
  using itemsFrom_append [of i "take n es" "drop n es"] by (cases "n \<le> length es") simp_all

lemma drop_itemsFrom: "drop n (itemsFrom i es) = itemsFrom (i + n) (drop n es)"
  using itemsFrom_append [of i "take n es" "drop n es"] by (cases "n \<le> length es") simp_all

text \<open>The encoder succeeds on the entries, with \<open>enc\<close>.\<close>

definition encodes :: "('c, 'w) env \<Rightarrow> (walEntry \<Rightarrow> bytes) \<Rightarrow> walEntry list \<Rightarrow> bool" where
  "encodes e enc es \<longleftrightarrow> (\<forall>en \<in> set es. eMarshal e en = Some (enc en))"

lemma writeEntries_new:
  assumes "encodes e enc es" "unat l < i" "i + length es \<le> 2 ^ 64"
  shows "writeEntries e l (itemsFrom i es) = Inr (zip (indices i (length es)) (map enc es))"
  using assms
proof (induction es arbitrary: i)
  case (Cons en es)
  have "unat (of_nat i :: u64) = i" using Cons.prems(3) by (intro unat_of_nat_64) simp
  then have "\<not> (of_nat i :: u64) \<le> l" using Cons.prems(2) by (simp add: word_le_nat_alt)
  then show ?case using Cons by (simp add: writeEntry_def encodes_def)
qed simp

lemma writeItems_new:
  assumes laws: "walLaws (eWal e) wview" and w: "wview w = (f, bs)" "fits (f, bs)" and enc: "encodes e enc es"
    and bound: "f + length bs + length es < 2 ^ 64"
  shows "writeItems e (itemsFrom (f + length bs) es) w = Inr w' \<Longrightarrow> wview w' = (f, bs @ map enc es)"
    "walTotal (eWal e) wview \<Longrightarrow> \<exists>w'. writeItems e (itemsFrom (f + length bs) es) w = Inr w'"
proof -
  let ?l = "of_nat (f + length bs - 1) :: u64" and ?b = "zip (indices (f + length bs) (length es)) (map enc es)"
  have l: "woLast (eWal e) w = Some ?l" by (rule walLaws_last [OF laws w])
  have "unat ?l = f + length bs - 1" by (rule unat_of_nat_64) (use bound in simp)
  then have "unat ?l < f + length bs" using w(2) by (simp add: fits_def)
  note we = writeEntries_new [OF enc this]
  have run: "writeItems e (itemsFrom (f + length bs) es) w = (case woWriteBatch (eWal e) ?b w of None \<Rightarrow> Inl WalErr | Some w' \<Rightarrow> Inr w')"
    using l we bound by (simp add: writeItems_def)
  show "wview w' = (f, bs @ map enc es)" if "writeItems e (itemsFrom (f + length bs) es) w = Inr w'"
    using that walLaws_write [OF laws w, of ?b] unfolding run by (auto split: option.splits)
  show "\<exists>w'. writeItems e (itemsFrom (f + length bs) es) w = Inr w'" if "walTotal (eWal e) wview"
    using walTotal_write [OF that w, of ?b] bound unfolding run by (auto simp: indices_def)
qed

end
