(* ===== verification/DbBlock.thy ===== *)
theory DbBlock
  imports DbLog
begin

text \<open>
  The changes of a block and the log entry that is to repeat them (\<open>memiavl/db.go\<close>, \<open>ApplyUpgrades\<close>, \<open>ApplyChangeSets\<close> and
  \<open>ApplyChangeSet\<close>): the entry orders the changes by store, which is not the order in which they were made, and
  replaying it must still lead to the same trees.
\<close>

section \<open>Changes store by store\<close>

definition pairsFor :: "string \<Rightarrow> (string \<times> changeSet) list \<Rightarrow> changeSet" where
  "pairsFor name xs = concat (map snd (filter (\<lambda>x. fst x = name) xs))"

lemma pairsFor_simps [simp]:
  "pairsFor name [] = []" "pairsFor name ((n, cs) # xs) = (if n = name then cs @ pairsFor name xs else pairsFor name xs)"
  "pairsFor name (xs @ ys) = pairsFor name xs @ pairsFor name ys"
  by (simp_all add: pairsFor_def)

lemma ApplyChangeSet_simps [simp]:
  "ApplyChangeSet ops [] t = t" "ApplyChangeSet ops (a @ b) t = ApplyChangeSet ops b (ApplyChangeSet ops a t)"
  by (simp_all add: ApplyChangeSet_def)

definition indexed :: "'c multiTree \<Rightarrow> bool" where
  "indexed mt \<longleftrightarrow> distinct (map fst (mtrees mt)) \<and> treesByName mt = indexMap (mtrees mt)"

definition changeTrees :: "'c cacheOps \<Rightarrow> (string \<times> changeSet) list \<Rightarrow> 'c multiTree \<Rightarrow> 'c multiTree" where
  "changeTrees ops xs mt = mt\<lparr>mtrees := map (\<lambda>nt. (fst nt, ApplyChangeSet ops (pairsFor (fst nt) xs) (snd nt))) (mtrees mt)\<rparr>"

lemma changeTrees_names [simp]:
  "map fst (mtrees (changeTrees ops xs mt)) = map fst (mtrees mt)" "treesByName (changeTrees ops xs mt) = treesByName mt"
  by (simp_all add: changeTrees_def comp_def)

lemma indexed_changeTrees [simp]: "indexed (changeTrees ops xs mt) = indexed mt"
proof -
  have "length (mtrees (changeTrees ops xs mt)) = length (mtrees mt)" by (simp add: changeTrees_def)
  then show ?thesis unfolding indexed_def indexMap_def changeTrees_names by simp
qed

lemma changeTrees_append: "changeTrees ops (xs @ ys) mt = changeTrees ops ys (changeTrees ops xs mt)"
  by (simp add: changeTrees_def)

lemma changeTrees_nil [simp]: "changeTrees ops [] mt = mt"
  by (simp add: changeTrees_def)

lemma mtApplyChangeSet_trees:
  assumes ix: "indexed mt"
  shows "mtApplyChangeSet ops (name, cs) mt =
    (if name \<in> fst ` set (mtrees mt) then (Inr (), changeTrees ops [(name, cs)] mt) else (Inl (UnknownTree name), mt))"
proof (cases "name \<in> fst ` set (mtrees mt)")
  case False
  then show ?thesis using ix by (simp add: mtApplyChangeSet_def indexed_def indexMap_None [THEN iffD2])
next
  case True
  let ?ts = "mtrees mt"
  have d: "distinct (map fst ?ts)" using ix by (simp add: indexed_def)
  obtain i where i: "i < length ?ts" "fst (?ts ! i) = name" using True by (auto simp: in_set_conv_nth)
  have "treesByName mt name = Some i" using ix i indexMap_nth [OF d] by (simp add: indexed_def)
  moreover have "?ts[i := (fst (?ts ! i), ApplyChangeSet ops cs (snd (?ts ! i)))] =
      map (\<lambda>nt. (fst nt, ApplyChangeSet ops (pairsFor (fst nt) [(name, cs)]) (snd nt))) ?ts"
  proof (rule nth_equalityI)
    fix j assume j: "j < length (?ts[i := (fst (?ts ! i), ApplyChangeSet ops cs (snd (?ts ! i)))])"
    have "fst (?ts ! j) = name \<longleftrightarrow> j = i" using j i d by (auto simp: distinct_conv_nth)
    then show "?ts[i := (fst (?ts ! i), ApplyChangeSet ops cs (snd (?ts ! i)))] ! j =
        map (\<lambda>nt. (fst nt, ApplyChangeSet ops (pairsFor (fst nt) [(name, cs)]) (snd nt))) ?ts ! j"
      using j i by (cases "j = i") auto
  qed simp
  ultimately show ?thesis using i True by (simp add: mtApplyChangeSet_def changeTrees_def)
qed

lemma mtApplyChangeSets_trees:
  assumes "indexed mt" "fst ` set xs \<subseteq> fst ` set (mtrees mt)"
  shows "mtApplyChangeSets ops xs mt = (Inr (), changeTrees ops xs mt)"
  unfolding mtApplyChangeSets_def using assms
proof (induction xs arbitrary: mt)
  case (Cons x xs)
  obtain n cs where x: "x = (n, cs)" by fastforce
  have "fst ` set (mtrees (changeTrees ops [x] mt)) = fst ` set (mtrees mt)"
    by (metis changeTrees_names(1) image_set)
  then show ?case
    using Cons x mtApplyChangeSet_trees [of mt ops n cs] changeTrees_append [of ops "[x]" xs mt] by (simp add: thenDo_def)
qed simp

lemma mtApplyChangeSets_known_names:
  assumes "indexed mt" "mtApplyChangeSets ops xs mt = (Inr (), mt')"
  shows "fst ` set xs \<subseteq> fst ` set (mtrees mt)"
  using assms unfolding mtApplyChangeSets_def
proof (induction xs arbitrary: mt)
  case (Cons x xs)
  obtain n cs where x: "x = (n, cs)" by fastforce
  have n: "n \<in> fst ` set (mtrees mt)" "forEach (mtApplyChangeSet ops) xs (changeTrees ops [x] mt) = (Inr (), mt')"
    using Cons.prems x mtApplyChangeSet_trees [of mt ops n cs] by (auto simp: thenDo_def split: if_splits)
  have "fst ` set (mtrees (changeTrees ops [x] mt)) = fst ` set (mtrees mt)"
    by (metis changeTrees_names(1) image_set)
  then show ?case using Cons.IH [OF _ n(2)] Cons.prems(1) n(1) x by simp
qed simp

text \<open>Only the changes of each store, in their order, matter.\<close>

lemma changeTrees_cong: "(\<And>name. pairsFor name xs = pairsFor name ys) \<Longrightarrow> changeTrees ops xs mt = changeTrees ops ys mt"
  by (simp add: changeTrees_def)

section \<open>The pending entry\<close>

lemma appendPairs_None: "appendPairs name cs xs = None \<longleftrightarrow> name \<notin> fst ` set xs"
  by (induction xs) (auto split: if_splits)

lemma appendPairs_Some:
  assumes "appendPairs name cs xs = Some ys" "distinct (map fst xs)"
  shows "map fst ys = map fst xs" "pairsFor n ys = pairsFor n xs @ (if n = name then cs else [])"
  using assms
proof (induction xs arbitrary: ys)
  case (Cons x xs)
  obtain m c where x: "x = (m, c)" by fastforce
  {
    case 1
    then show ?case using Cons.IH(1) x by (fastforce split: if_splits)
  next
    case 2
    have none: "pairsFor m xs = []" using 2(2) x by (force simp: pairsFor_def filter_empty_conv)
    show ?case
    proof (cases "m = name")
      case True
      then show ?thesis using 2 x none by auto
    next
      case False
      then obtain zs where "appendPairs name cs xs = Some zs" "ys = x # zs" using 2(1) x by auto
      then show ?thesis using Cons.IH(2) 2(2) x False by simp
    qed
  }
qed simp_all

lemma pairsFor_sort: "pairsFor n (sort_key fst xs) = pairsFor n xs"
  unfolding pairsFor_def sort_key_stable ..

lemma mergePending_spec:
  assumes d: "distinct (map fst xs)"
  shows "distinct (map fst (mergePending name cs xs))" "pairsFor n (mergePending name cs xs) = pairsFor n xs @ (if n = name then cs else [])"
    "fst ` set (mergePending name cs xs) = insert name (fst ` set xs)"
proof -
  have "distinct (map fst (mergePending name cs xs)) \<and>
      pairsFor n (mergePending name cs xs) = pairsFor n xs @ (if n = name then cs else []) \<and>
      fst ` set (mergePending name cs xs) = insert name (fst ` set xs)"
  proof (cases "appendPairs name cs xs")
    case None
    then have fresh: "name \<notin> fst ` set xs" by (simp add: appendPairs_None)
    have m: "mset (map fst (sort_key fst (xs @ [(name, cs)]))) = mset (map fst (xs @ [(name, cs)]))" by simp
    have "distinct (map fst (sort_key fst (xs @ [(name, cs)])))"
      unfolding mset_eq_imp_distinct_iff [OF m] using d fresh by simp
    then show ?thesis using None by (simp add: mergePending_def pairsFor_sort)
  next
    case (Some ys)
    note a = appendPairs_Some [OF Some d]
    have "fst ` set ys = fst ` set xs" using a(1) by (metis image_set)
    moreover have "name \<in> fst ` set xs" using Some by (metis appendPairs_None option.distinct(1))
    ultimately show ?thesis using Some a d by (simp add: mergePending_def insert_absorb)
  qed
  then show "distinct (map fst (mergePending name cs xs))" "pairsFor n (mergePending name cs xs) = pairsFor n xs @ (if n = name then cs else [])"
    "fst ` set (mergePending name cs xs) = insert name (fst ` set xs)" by blast+
qed

text \<open>
  The database is a block under way on \<open>base\<close>: with the upgrades done, the trees are those of \<open>base\<close> with the pending
  changes, of which there is one entry for a store.
\<close>

definition pendingOn :: "('c, 'w) env \<Rightarrow> 'c multiTree \<Rightarrow> ('c, 'w) db \<Rightarrow> bool" where
  "pendingOn e base db \<longleftrightarrow> indexed base \<and> distinct (map fst (weChangesets (pendingLog db))) \<and>
     fst ` set (weChangesets (pendingLog db)) \<subseteq> fst ` set (mtrees base) \<and>
     mtree db = changeTrees (eOps e) (weChangesets (pendingLog db)) base"

lemma pendingOn_names: "pendingOn e base db \<Longrightarrow> fst ` set (mtrees (mtree db)) = fst ` set (mtrees base)"
  by (metis pendingOn_def changeTrees_names(1) image_set)

lemma pendingOn_ApplyChangeSet:
  assumes p: "pendingOn e base db" and run: "dbApplyChangeSet e ncs db = (Inr (), db')"
  shows "pendingOn e base db'" "weUpgrades (pendingLog db') = weUpgrades (pendingLog db)"
proof -
  obtain name cs where n: "ncs = (name, cs)" by fastforce
  let ?xs = "weChangesets (pendingLog db)"
  have ix: "indexed base" "indexed (mtree db)" "distinct (map fst ?xs)" "mtree db = changeTrees (eOps e) ?xs base"
    using p by (auto simp: pendingOn_def)
  have "pendingOn e base db' \<and> weUpgrades (pendingLog db') = weUpgrades (pendingLog db)"
  proof (cases "cs = []")
    case False
    have r: "name \<in> fst ` set (mtrees (mtree db))" "mtree db' = changeTrees (eOps e) [(name, cs)] (mtree db)"
      "pendingLog db' = (pendingLog db)\<lparr>weChangesets := mergePending name cs ?xs\<rparr>"
      using run n False mtApplyChangeSet_trees [OF ix(2), of "eOps e" name cs]
      by (auto simp: dbApplyChangeSet_def onTrees_def split: if_splits)
    note m = mergePending_spec [OF ix(3), where name = name and cs = cs]
    have "changeTrees (eOps e) (?xs @ [(name, cs)]) base = changeTrees (eOps e) (mergePending name cs ?xs) base"
      by (rule changeTrees_cong) (simp add: m(2))
    then have "mtree db' = changeTrees (eOps e) (weChangesets (pendingLog db')) base"
      using r(2,3) ix(4) by (simp add: changeTrees_append)
    moreover have "fst ` set (weChangesets (pendingLog db')) \<subseteq> fst ` set (mtrees base)"
      using r(1,3) m(3) p pendingOn_names [OF p] by (simp add: pendingOn_def)
    ultimately show ?thesis using ix(1) m(1) r(3) by (simp add: pendingOn_def)
  qed (use run n p in \<open>simp add: dbApplyChangeSet_def\<close>)
  then show "pendingOn e base db'" "weUpgrades (pendingLog db') = weUpgrades (pendingLog db)" by blast+
qed

lemma pendingOn_forEach:
  assumes "pendingOn e base db" "forEach (dbApplyChangeSet e) xs db = (Inr (), db')"
  shows "pendingOn e base db' \<and> weUpgrades (pendingLog db') = weUpgrades (pendingLog db)"
  using assms
proof (induction xs arbitrary: db)
  case (Cons x xs)
  obtain db1 where d: "dbApplyChangeSet e x db = (Inr (), db1)" "forEach (dbApplyChangeSet e) xs db1 = (Inr (), db')"
    using Cons.prems(2) by (auto simp: thenDo_def split: prod.splits sum.splits)
  show ?case using Cons.IH [OF pendingOn_ApplyChangeSet(1) [OF Cons.prems(1) d(1)] d(2)] pendingOn_ApplyChangeSet(2) [OF Cons.prems(1) d(1)] by simp
qed simp

lemma pendingOn_ApplyChangeSets:
  assumes p: "pendingOn e base db" and run: "dbApplyChangeSets e xs db = (Inr (), db')" and d: "distinct (map fst xs)"
  shows "pendingOn e base db' \<and> weUpgrades (pendingLog db') = weUpgrades (pendingLog db)"
proof (cases "xs = [] \<or> weChangesets (pendingLog db) \<noteq> []")
  case True
  then show ?thesis using run p pendingOn_forEach [OF p] by (auto simp: dbApplyChangeSets_def split: if_splits)
next
  case False
  then have e: "xs \<noteq> []" "weChangesets (pendingLog db) = []" by auto
  have b: "mtree db = base" "indexed base" using p e(2) by (auto simp: pendingOn_def)
  have r: "mtApplyChangeSets (eOps e) xs base = (Inr (), mtree db')" "pendingLog db' = (pendingLog db)\<lparr>weChangesets := xs\<rparr>"
    using run e b(1) by (auto simp: dbApplyChangeSets_def onTrees_def map_sum_def split: if_splits prod.splits sum.splits)
  have k: "fst ` set xs \<subseteq> fst ` set (mtrees base)" by (rule mtApplyChangeSets_known_names [OF b(2) r(1)])
  have "mtree db' = changeTrees (eOps e) xs base" using mtApplyChangeSets_trees [OF b(2) k, of "eOps e"] r(1) by simp
  then show ?thesis using b(2) d k r(2) by (simp add: pendingOn_def)
qed

text \<open>The calls of a block after its upgrades.\<close>

datatype blockCall = ChangeSets "(string \<times> changeSet) list" | OneChangeSet string changeSet

fun runCall :: "('c, 'w) env \<Rightarrow> blockCall \<Rightarrow> (('c, 'w) db, dbError, unit) action" where
  "runCall e (ChangeSets xs) = dbApplyChangeSets e xs"
| "runCall e (OneChangeSet name cs) = dbApplyChangeSet e (name, cs)"

fun callOK :: "blockCall \<Rightarrow> bool" where
  "callOK (ChangeSets xs) = distinct (map fst xs)"
| "callOK (OneChangeSet name cs) = True"

lemma pendingOn_calls:
  assumes "pendingOn e base db" "forEach (runCall e) calls db = (Inr (), db')" "\<forall>c \<in> set calls. callOK c"
  shows "pendingOn e base db' \<and> weUpgrades (pendingLog db') = weUpgrades (pendingLog db)"
  using assms
proof (induction calls arbitrary: db)
  case (Cons c calls)
  obtain db1 where d: "runCall e c db = (Inr (), db1)" "forEach (runCall e) calls db1 = (Inr (), db')"
    using Cons.prems(2) by (auto simp: thenDo_def split: prod.splits sum.splits)
  have "pendingOn e base db1 \<and> weUpgrades (pendingLog db1) = weUpgrades (pendingLog db)"
  proof (cases c)
    case (ChangeSets xs)
    then show ?thesis using pendingOn_ApplyChangeSets [OF Cons.prems(1)] d(1) Cons.prems(3) by simp
  next
    case (OneChangeSet name cs)
    then show ?thesis using pendingOn_ApplyChangeSet [OF Cons.prems(1)] d(1) by simp
  qed
  then show ?case using Cons.IH [of db1] d(2) Cons.prems(3) by simp
qed simp

lemma indexed_reindex:
  assumes "reindex u = (Inr (), mt')"
  shows "indexed mt'"
proof -
  let ?ts = "sort_key fst (mtrees u)"
  obtain r m where r: "indexFrom 0 ?ts Map.empty = (r, m)" by fastforce
  then have n: "r = None" "mt' = u\<lparr>mtrees := ?ts, treesByName := m\<rparr>"
    using assms by (auto simp: reindex_def Let_def split: option.splits)
  have d: "distinct (map fst ?ts)" using indexFrom_conflict [of 0 ?ts Map.empty] r n(1) by simp
  have "m = indexMap ?ts" using indexFrom_distinct [OF d, of Map.empty 0] r by (simp add: indexMap_def)
  then show ?thesis using n(2) d by (simp add: indexed_def)
qed

lemma indexed_ApplyUpgrades:
  assumes "indexed mt" "ApplyUpgrades ops ups mt = (Inr (), mt')"
  shows "indexed mt'"
proof (cases "ups = []")
  case False
  obtain u where "reindex u = (Inr (), mt')"
    using assms(2) False by (auto simp: ApplyUpgrades_def thenDo_def split: prod.splits sum.splits)
  then show ?thesis by (rule indexed_reindex)
qed (use assms in \<open>simp add: ApplyUpgrades_def\<close>)

lemma indexed_OK: "mtOK view mt \<Longrightarrow> indexed mt"
  by (simp add: mtOK_def indexed_def strict_sorted_iff)

lemma onTrees_Inr: "onTrees f db = (Inr x, db') \<longleftrightarrow> (\<exists>mt. f (mtree db) = (Inr x, mt) \<and> db' = db\<lparr>mtree := mt\<rparr>)"
  by (cases "f (mtree db)"; cases "fst (f (mtree db))") (auto simp: onTrees_def)

lemma block_replays:
  assumes ix: "indexed (mtree db)" and empty: "pendingLog db = emptyEntry"
    and ups: "dbApplyUpgrades e ups db = (Inr (), db1)"
    and calls: "forEach (runCall e) calls db1 = (Inr (), db2)" "\<forall>c \<in> set calls. callOK c"
  shows "applyWALEntry (eOps e) (pendingLog db2) (mtree db) = (Inr (), mtree db2)"
proof -
  have u: "ApplyUpgrades (eOps e) ups (mtree db) = (Inr (), mtree db1)" "pendingLog db1 = emptyEntry\<lparr>weUpgrades := ups\<rparr>"
    using ups empty
    by (auto simp: dbApplyUpgrades_def thenDo_def onTrees_def emptyEntry_def split: if_splits prod.splits sum.splits)
      (auto simp: map_sum_def split: sum.splits)
  have "indexed (mtree db1)" by (rule indexed_ApplyUpgrades [OF ix u(1)])
  then have "pendingOn e (mtree db1) db1" using u(2) by (simp add: pendingOn_def emptyEntry_def)
  from pendingOn_calls [OF this calls]
  have p: "pendingOn e (mtree db1) db2" "weUpgrades (pendingLog db2) = ups" using u(2) by auto
  have "mtApplyChangeSets (eOps e) (weChangesets (pendingLog db2)) (mtree db1) = (Inr (), mtree db2)"
    using p(1) mtApplyChangeSets_trees [of "mtree db1" "weChangesets (pendingLog db2)" "eOps e"] by (simp add: pendingOn_def)
  then show ?thesis using u(1) p(2) by (simp add: applyWALEntry_def thenDo_def)
qed

section \<open>Properties\<close>

text \<open>C19: the pending log repeats the block. Start from a multi tree with nothing pending, apply upgrades and then change sets in any
  number of calls, of several stores or of one: replaying the entry that \<open>Commit\<close> will write, in which the changes are grouped and sorted by store,
  on the multi tree of the start gives exactly the multi tree of the end. The hypothesis is that a call names a
  store once.\<close>

theorem pendingLog_replays:
  assumes "mtOK view (mtree db)" "pendingLog db = emptyEntry" "dbApplyUpgrades e ups db = (Inr (), db1)"
    and "forEach (runCall e) calls db1 = (Inr (), db2)" "\<forall>c \<in> set calls. callOK c"
  shows "applyWALEntry (eOps e) (pendingLog db2) (mtree db) = (Inr (), mtree db2)"
  by (rule block_replays [OF indexed_OK [OF assms(1)] assms(2-5)])

definition sampleOptions :: options where
  "sampleOptions = \<lparr>oCreateIfMissing = False, oInitialVersion = 0, oReadOnly = False, oInitialStores = [], oSnapshotKeepRecent = 1,
     oSnapshotInterval = 1000, oTargetVersion = 0, oAsyncCommitBuffer = -1, oZeroCopy = True, oCacheSize = 0,
     oLoadForOverwriting = False, oSnapshotWriterLimit = 4\<rparr>"

definition sampleDb :: "(nat \<times> (bytes \<times> bytes) list, nat \<times> bytes list) db" where
  "sampleDb = newDB sampleOptions sampleMulti \<lparr>dskDir = sampleDbDir, dskLog = (1, []), dskLocked = False\<rparr>"

lemma sampleDb_fields [simp]:
  "mtree sampleDb = sampleMulti" "pendingLog sampleDb = emptyEntry" "readOnly sampleDb = False" "walLog sampleDb = Some (1, [])"
  "walChan sampleDb = None" "walChanSize sampleDb = -1" "rewriting sampleDb = None"
  by (simp_all add: sampleDb_def newDB_def sampleOptions_def)

lemma sampleMulti_calls:
  "\<exists>db2. forEach (runCall sampleEnv) [ChangeSets [(''bank'', samplePairs)], OneChangeSet ''acc'' samplePairs] sampleDb = (Inr (), db2)"
proof -
  have ix: "indexed sampleMulti" using sampleMulti_OK(1) by (rule indexed_OK)
  have names: "fst ` set (mtrees sampleMulti) = {''acc'', ''bank''}" by (auto simp: sampleMulti_def)
  let ?m = "changeTrees fifoOps [(''bank'', samplePairs)] sampleMulti"
  have "mtApplyChangeSets fifoOps [(''bank'', samplePairs)] sampleMulti = (Inr (), ?m)"
    by (rule mtApplyChangeSets_trees [OF ix]) (simp add: names)
  moreover have "fst ` set (mtrees ?m) = {''acc'', ''bank''}" using names by (metis changeTrees_names(1) image_set)
  then have "mtApplyChangeSet fifoOps (''acc'', samplePairs) ?m = (Inr (), changeTrees fifoOps [(''acc'', samplePairs)] ?m)"
    using mtApplyChangeSet_trees [of ?m fifoOps "''acc''" samplePairs] ix by simp
  ultimately show ?thesis
    by (simp add: thenDo_def dbApplyChangeSets_def dbApplyChangeSet_def onTrees_def emptyEntry_def sampleEnv_def samplePairs_def)
qed

theorem pendingLog_replays_witness:
  "\<exists>db2. forEach (runCall sampleEnv) [ChangeSets [(''bank'', samplePairs)], OneChangeSet ''acc'' samplePairs] sampleDb = (Inr (), db2) \<and>
     applyWALEntry fifoOps (pendingLog db2) sampleMulti = (Inr (), mtree db2)"
proof -
  obtain db2 where run: "forEach (runCall sampleEnv) [ChangeSets [(''bank'', samplePairs)], OneChangeSet ''acc'' samplePairs] sampleDb = (Inr (), db2)"
    using sampleMulti_calls by blast
  have ok: "mtOK fifoView (mtree sampleDb)" using sampleMulti_OK(1) by simp
  have up: "dbApplyUpgrades sampleEnv [] sampleDb = (Inr (), sampleDb)"
    by (simp add: dbApplyUpgrades_def thenDo_def onTrees_def ApplyUpgrades_def emptyEntry_def)
  have "applyWALEntry (eOps sampleEnv) (pendingLog db2) (mtree sampleDb) = (Inr (), mtree db2)"
    by (rule pendingLog_replays [OF ok _ up run]) simp_all
  then show ?thesis using run by (simp add: sampleEnv_def)
qed

text \<open>C20: a failing change set stays in the pending log. When \<open>ApplyChangeSets\<close> names a store that does not exist it reports the error and leaves the
  trees alone, but the change set has been put into the pending log before; the entry that a later \<open>Commit\<close> writes cannot be
  replayed.\<close>

theorem ApplyChangeSets_failure_pending:
  assumes "mtOK view (mtree db)" "\<not> readOnly db" "pendingLog db = emptyEntry" "name \<notin> fst ` set (mtrees (mtree db))"
  shows "\<exists>db1. dbApplyChangeSets e [(name, cs)] db = (Inl (MultiErr (UnknownTree name)), db1) \<and> mtree db1 = mtree db \<and>
    applyWALEntry (eOps e) (pendingLog db1) (mtree db) = (Inl (UnknownTree name), mtree db)"
proof -
  have "mtApplyChangeSets (eOps e) [(name, cs)] (mtree db) = (Inl (UnknownTree name), mtree db)"
    using mtApplyChangeSet_trees [OF indexed_OK [OF assms(1)], of "eOps e" name cs] assms(4) by (simp add: mtApplyChangeSets_def thenDo_def)
  then show ?thesis
    using assms(2,3) by (simp add: dbApplyChangeSets_def onTrees_def emptyEntry_def applyWALEntry_def ApplyUpgrades_def thenDo_def)
qed

theorem ApplyChangeSets_failure_pending_witness:
  "\<exists>db1. dbApplyChangeSets sampleEnv [(''gov'', samplePairs)] sampleDb = (Inl (MultiErr (UnknownTree ''gov'')), db1) \<and>
     applyWALEntry (eOps sampleEnv) (pendingLog db1) sampleMulti = (Inl (UnknownTree ''gov''), sampleMulti)"
proof -
  have ok: "mtOK fifoView (mtree sampleDb)" using sampleMulti_OK(1) by simp
  have "''gov'' \<notin> fst ` set (mtrees (mtree sampleDb))" by (auto simp: sampleMulti_def)
  from ApplyChangeSets_failure_pending [OF ok _ _ this, of sampleEnv samplePairs] show ?thesis by auto
qed

end
