(* ===== verification/ChangeSetFile.thy ===== *)
theory ChangeSetFile
  imports MemTree SnapDirs
begin

text \<open>
  The change set files of \<open>client/changeset/changeset.go\<close>: per version a header with the version and the size of the payload, then
  the key-value pairs. Encoders fill a buffer whose size is computed beforehand, as in the source; a write
  past its end is a panic, \<open>None\<close>. Readers take a byte list and return the rest. A file
  is its name and its contents; zlib and snappy are parameters that give the whole uncompressed contents, or
  fail when the reader is created.
\<close>

section \<open>Sizes\<close>

text \<open>\<open>bits.Len64\<close>.\<close>

fun bitLen :: "nat \<Rightarrow> nat" where
  "bitLen n = (if n = 0 then 0 else Suc (bitLen (n div 2)))"

declare bitLen.simps [simp del]

definition uvarintSize :: "u64 \<Rightarrow> nat" where
  "uvarintSize num =
     (let b = bitLen (unat num); q = b div 7; r = b mod 7
      in if 0 < r \<or> q = 0 then q + 1 else q)"

definition valueOf :: "kvPair \<Rightarrow> bytes" where
  "valueOf pair = (case kvValue pair of None \<Rightarrow> [] | Some v \<Rightarrow> v)"

definition encodedSizeOfKVPair :: "kvPair \<Rightarrow> nat" where
  "encodedSizeOfKVPair pair =
     (let keyLen = length (kvKey pair); n = 1 + uvarintSize (of_nat keyLen) + keyLen
      in if kvDelete pair then n
         else n + uvarintSize (of_nat (length (valueOf pair))) + length (valueOf pair))"

section \<open>Buffers\<close>

text \<open>\<open>copy(buf[off:], bs)\<close> writes what fits; \<open>binary.PutUvarint(buf[off:], x)\<close> panics when it does not fit.\<close>

definition copyAt :: "nat \<Rightarrow> bytes \<Rightarrow> bytes \<Rightarrow> bytes option" where
  "copyAt off bs buf =
     (if off \<le> length buf then Some (take off buf @ take (length buf - off) bs @ drop (off + length bs) buf) else None)"

definition putUvarintAt :: "nat \<Rightarrow> u64 \<Rightarrow> bytes \<Rightarrow> (bytes \<times> nat) option" where
  "putUvarintAt off x buf =
     (if off + length (putUvarint x) \<le> length buf
      then map_option (\<lambda>b. (b, off + length (putUvarint x))) (copyAt off (putUvarint x) buf) else None)"

definition encodeKVPair :: "kvPair \<Rightarrow> bytes option" where
  "encodeKVPair pair =
     do {
       let buf = replicate (encodedSizeOfKVPair pair) 0;
       (buf, off) \<leftarrow> putUvarintAt 1 (of_nat (length (kvKey pair))) buf;
       buf \<leftarrow> copyAt off (kvKey pair) buf;
       if kvDelete pair then Some (buf[0 := 1])
       else do {
         (buf, off) \<leftarrow> putUvarintAt (off + length (kvKey pair)) (of_nat (length (valueOf pair))) buf;
         copyAt off (valueOf pair) buf
       }
     }"

fun encodeKVPairs :: "kvPair list \<Rightarrow> bytes list option" where
  "encodeKVPairs [] = Some []"
| "encodeKVPairs (pair # pairs) =
     do { buf \<leftarrow> encodeKVPair pair; items \<leftarrow> encodeKVPairs pairs; Some (buf # items) }"

definition WriteChangeSet :: "u64 \<Rightarrow> changeSet \<Rightarrow> bytes option" where
  "WriteChangeSet version cs =
     do {
       items \<leftarrow> encodeKVPairs cs;
       Some (putU64 version @ putU64 (of_nat (sum_list (map length items))) @ concat items)
     }"

section \<open>Reading\<close>

datatype csError = CsRead readError | BeyondPayload | BadArchive

definition readByte :: "bytes \<Rightarrow> readError + byte \<times> bytes" where
  "readByte bs = (case bs of [] \<Rightarrow> Inl EOF | b # rest \<Rightarrow> Inr (b, rest))"

definition readKVPair :: "bytes \<Rightarrow> readError + kvPair \<times> bytes" where
  "readKVPair bs =
     andThen (readByte bs) (\<lambda>(deletion, r0).
     andThen (readUvarint r0) (\<lambda>(keyLen, r1).
     andThen (readFull (unat keyLen) r1) (\<lambda>(key, r2).
       if deletion = 1 then Inr (\<lparr>kvDelete = True, kvKey = key, kvValue = None\<rparr>, r2)
       else
         andThen (readUvarint r2) (\<lambda>(valueLen, r3).
         andThen (readFull (unat valueLen) r3) (\<lambda>(value, r4).
           Inr (\<lparr>kvDelete = False, kvKey = key, kvValue = Some value\<rparr>, r4))))))"

lemma readUvarintLoop_shorter: "readUvarintLoop i x s bs = Inr (y, rest) \<Longrightarrow> length rest < length bs"
  by (induction i x s bs rule: readUvarintLoop.induct) (auto split: if_splits)

lemma readUvarint_shorter: "readUvarint bs = Inr (y, rest) \<Longrightarrow> length rest < length bs"
  by (simp add: readUvarint_def readUvarintLoop_shorter)

lemma readFull_shorter: "readFull n bs = Inr (xs, rest) \<Longrightarrow> length rest \<le> length bs"
  by (auto simp: readFull_def split: if_splits)

lemma readKVPair_shorter: "readKVPair bs = Inr (pair, rest) \<Longrightarrow> length rest < length bs"
  by (auto simp: readKVPair_def readByte_def andThen_Inr split: list.splits if_splits
      dest!: readUvarint_shorter readFull_shorter)

text \<open>The loop of \<open>ReadChangeSet\<close> over the pairs of a payload.\<close>

function readPairs :: "int \<Rightarrow> int \<Rightarrow> bytes \<Rightarrow> csError + changeSet \<times> bytes" where
  "readPairs offset n bs =
     (if \<not> offset < n then (if offset \<noteq> n then Inl BeyondPayload else Inr ([], bs))
      else
        (case readKVPair bs of
           Inl e \<Rightarrow> Inl (CsRead e)
         | Inr (pair, rest) \<Rightarrow>
             andThen (readPairs (offset + int (encodedSizeOfKVPair pair)) n rest) (\<lambda>(pairs, rest').
               Inr (pair # pairs, rest'))))"
  by pat_completeness auto
termination
  by (relation "measure (\<lambda>(offset, n, bs). length bs)") (auto dest: readKVPair_shorter)

declare readPairs.simps [simp del]

definition discard :: "int \<Rightarrow> bytes \<Rightarrow> csError + bytes" where
  "discard n bs = (if int (length bs) < n then Inl (CsRead EOF) else Inr (drop (nat n) bs))"

definition ReadChangeSet :: "bool \<Rightarrow> bytes \<Rightarrow> csError + (u64 \<times> u64 \<times> changeSet) \<times> bytes" where
  "ReadChangeSet parseChangeset bs =
     (case readFull 16 bs of
        Inl e \<Rightarrow> Inl (CsRead e)
      | Inr (header, rest) \<Rightarrow>
          (case (getU64 (take 8 header), getU64 (drop 8 header)) of
             (Some version, Some n) \<Rightarrow>
               if n = 0 then Inr ((version, 16, []), rest)
               else if parseChangeset then
                 andThen (readPairs 0 (sint n) rest) (\<lambda>(pairs, rest'). Inr ((version, n + 16, pairs), rest'))
               else andThen (discard (sint n) rest) (\<lambda>rest'. Inr ((version, n + 16, []), rest'))
           | _ \<Rightarrow> Inl (CsRead Corrupt)))"

lemma readPairs_shorter: "readPairs offset n bs = Inr (pairs, rest) \<Longrightarrow> length rest \<le> length bs"
proof (induction offset n bs arbitrary: pairs rule: readPairs.induct)
  case (1 offset n bs)
  show ?case
  proof (cases "offset < n")
    case False
    then show ?thesis using 1(2) by (subst (asm) readPairs.simps) (auto split: if_splits)
  next
    case True
    then obtain pair r ps where p: "readKVPair bs = Inr (pair, r)" "readPairs (offset + int (encodedSizeOfKVPair pair)) n r = Inr (ps, rest)"
      using 1(2) by (subst (asm) (2) readPairs.simps) (auto simp: andThen_Inr split: sum.splits)
    then show ?thesis using 1(1) [of "(pair, r)" pair r ps] True readKVPair_shorter [OF p(1)] by simp
  qed
qed

lemma ReadChangeSet_shorter: "ReadChangeSet p bs = Inr (x, rest) \<Longrightarrow> length rest < length bs"
  by (auto simp: ReadChangeSet_def readFull_def andThen_Inr discard_def split: if_splits sum.splits option.splits prod.splits
      dest!: readPairs_shorter)

section \<open>Iteration\<close>

text \<open>
  \<open>IterateChangeSets\<close> and \<open>IterateVersions\<close>: the callback has its state and says whether to go on; \<open>io.EOF\<close> ends the
  iteration without an error. The result is the offset after the last complete change set.
\<close>

function iterateLoop :: "bool \<Rightarrow> (u64 \<Rightarrow> changeSet \<Rightarrow> ('s, 'e, bool) action) \<Rightarrow> u64 \<Rightarrow> bytes \<Rightarrow> 's \<Rightarrow> (u64 \<times> (csError + 'e) option) \<times> 's" where
  "iterateLoop p fn off bs s =
     (case ReadChangeSet p bs of
        Inl e \<Rightarrow> ((off, if e = CsRead EOF then None else Some (Inl e)), s)
      | Inr ((version, n, cs), rest) \<Rightarrow>
          (case fn version cs s of
             (Inl e, s') \<Rightarrow> ((off, Some (Inr e)), s')
           | (Inr cont, s') \<Rightarrow> if cont then iterateLoop p fn (off + n) rest s' else ((off + n, None), s')))"
  by pat_completeness auto
termination
  by (relation "measure (\<lambda>(p, fn, off, bs, s). length bs)") (auto dest: ReadChangeSet_shorter)

declare iterateLoop.simps [simp del]

definition IterateChangeSets :: "(u64 \<Rightarrow> changeSet \<Rightarrow> ('s, 'e, bool) action) \<Rightarrow> bytes \<Rightarrow> 's \<Rightarrow> (u64 \<times> (csError + 'e) option) \<times> 's" where
  "IterateChangeSets fn bs s = iterateLoop True fn 0 bs s"

definition IterateVersions :: "(u64 \<Rightarrow> ('s, 'e, bool) action) \<Rightarrow> bytes \<Rightarrow> 's \<Rightarrow> (u64 \<times> (csError + 'e) option) \<times> 's" where
  "IterateVersions fn bs s = iterateLoop False (\<lambda>version _. fn version) 0 bs s"

record decoders =
  unzlib :: "bytes \<Rightarrow> bytes option"
  unsnappy :: "bytes \<Rightarrow> bytes"

definition openChangeSetFile :: "decoders \<Rightarrow> string \<Rightarrow> bytes \<Rightarrow> csError + bytes" where
  "openChangeSetFile dec fileName bs =
     (if hasSuffix fileName ''.zz'' then (case unzlib dec bs of None \<Rightarrow> Inl BadArchive | Some bs' \<Rightarrow> Inr bs')
      else if hasSuffix fileName ''.snappy'' then Inr (unsnappy dec bs)
      else Inr bs)"

definition withChangeSetFile :: "decoders \<Rightarrow> string \<times> bytes \<Rightarrow> (bytes \<Rightarrow> ('s, csError + 'e, 'a) action) \<Rightarrow> ('s, csError + 'e, 'a) action" where
  "withChangeSetFile dec f fn s =
     (case openChangeSetFile dec (fst f) (snd f) of Inl e \<Rightarrow> (Inl (Inl e), s) | Inr bs \<Rightarrow> fn bs s)"

definition ReadFirstVersion :: "decoders \<Rightarrow> string \<times> bytes \<Rightarrow> csError + u64" where
  "ReadFirstVersion dec f =
     andThen (openChangeSetFile dec (fst f) (snd f)) (\<lambda>bs.
       case readFull 8 bs of
         Inl e \<Rightarrow> Inl (CsRead e)
       | Inr (buf, _) \<Rightarrow> (case getU64 buf of None \<Rightarrow> Inl (CsRead Corrupt) | Some v \<Rightarrow> Inr v))"

text \<open>Files with their first version, empty ones left out, in the order of the versions.\<close>

type_synonym fileWithVersion = "(string \<times> bytes) \<times> u64"

fun firstVersions :: "decoders \<Rightarrow> (string \<times> bytes) list \<Rightarrow> csError + fileWithVersion list" where
  "firstVersions dec [] = Inr []"
| "firstVersions dec (f # files) =
     (case ReadFirstVersion dec f of
        Inl e \<Rightarrow> if e = CsRead EOF then firstVersions dec files else Inl e
      | Inr v \<Rightarrow> andThen (firstVersions dec files) (\<lambda>fs. Inr ((f, v) # fs)))"

definition SortFilesByFirstVerson :: "decoders \<Rightarrow> (string \<times> bytes) list \<Rightarrow> csError + fileWithVersion list" where
  "SortFilesByFirstVerson dec files = andThen (firstVersions dec files) (\<lambda>fs. Inr (sort_key snd fs))"

section \<open>The encoders\<close>

lemma bitLen_div128: "128 \<le> n \<Longrightarrow> bitLen n = 7 + bitLen (n div 128)"
proof -
  assume n: "128 \<le> n"
  have step: "bitLen m = Suc (bitLen (m div 2))" if "0 < m" for m using that by (subst bitLen.simps) simp
  have "bitLen n = Suc (Suc (Suc (Suc (Suc (Suc (Suc (bitLen (n div 2 div 2 div 2 div 2 div 2 div 2 div 2))))))))"
    using n by (simp add: step)
  then show ?thesis by (simp add: div_mult2_eq [symmetric])
qed

lemma bitLen_small: "n < 128 \<Longrightarrow> bitLen n \<le> 7"
proof -
  have le: "n < 2 ^ k \<Longrightarrow> bitLen n \<le> k" for n k
  proof (induction k arbitrary: n)
    case (Suc k)
    then show ?case by (subst bitLen.simps) auto
  qed (simp add: bitLen.simps)
  show "n < 128 \<Longrightarrow> bitLen n \<le> 7" using le [of n 7] by simp
qed

lemma uvarintSize_correct: "uvarintSize x = length (putUvarint x)"
proof (induction x rule: putUvarint.induct)
  case (1 x)
  show ?case
  proof (cases "0x80 \<le> x")
    case True
    then have n: "128 \<le> unat x" by (simp add: word_le_nat_alt)
    have d: "unat (drop_bit 7 x) = unat x div 128" by (simp add: unat_drop_bit_eq drop_bit_eq_div unat_div)
    have "bitLen (unat x div 128) \<noteq> 0" using n by (subst bitLen.simps) auto
    moreover have "(7 + b) div 7 = Suc (b div 7)" "(7 + b) mod 7 = b mod 7" for b :: nat by simp_all
    ultimately have "uvarintSize x = Suc (uvarintSize (drop_bit 7 x))"
      using bitLen_div128 [OF n] by (auto simp: uvarintSize_def Let_def d simp del: div_add_self1 mod_add_self1)
    then show ?thesis using 1 True by (subst putUvarint.simps) simp
  next
    case False
    then have "unat x < 128" by (simp add: word_le_nat_alt)
    then have "bitLen (unat x) \<le> 7" by (rule bitLen_small)
    then have "bitLen (unat x) div 7 = 0 \<or> (bitLen (unat x) = 7)" by auto
    then have "uvarintSize x = 1" by (auto simp: uvarintSize_def Let_def)
    then show ?thesis using False by (subst putUvarint.simps) simp
  qed
qed

definition pairBytes :: "kvPair \<Rightarrow> bytes" where
  "pairBytes pair =
     (if kvDelete pair then 1 # EncodeBytes (kvKey pair) else 0 # EncodeBytes (kvKey pair) @ EncodeBytes (valueOf pair))"

lemma copyAt_fill:
  "off = length pre \<Longrightarrow> length bs \<le> m \<Longrightarrow> copyAt off bs (pre @ replicate m 0) = Some (pre @ bs @ replicate (m - length bs) 0)"
  by (simp add: copyAt_def)

lemma putUvarintAt_fill:
  "off = length pre \<Longrightarrow> length (putUvarint x) \<le> m \<Longrightarrow>
   putUvarintAt off x (pre @ replicate m 0) = Some (pre @ putUvarint x @ replicate (m - length (putUvarint x)) 0, off + length (putUvarint x))"
  by (simp add: putUvarintAt_def copyAt_fill)

lemma length_pairBytes: "length (pairBytes pair) = encodedSizeOfKVPair pair"
  by (simp add: pairBytes_def encodedSizeOfKVPair_def uvarintSize_correct EncodeBytes_def Let_def)

lemma encodeKVPair_bytes: "encodeKVPair pair = Some (pairBytes pair)"
proof -
  let ?k = "kvKey pair" and ?v = "valueOf pair"
  let ?kl = "putUvarint (of_nat (length ?k))" and ?vl = "putUvarint (of_nat (length ?v))"
  define n where "n = length ?kl + length ?k + (if kvDelete pair then 0 else length ?vl + length ?v)"
  have n: "encodedSizeOfKVPair pair = Suc n"
    by (simp add: n_def encodedSizeOfKVPair_def uvarintSize_correct Let_def)
  have b1: "putUvarintAt 1 (of_nat (length ?k)) ([0] @ replicate n 0) =
      Some ([0] @ ?kl @ replicate (n - length ?kl) 0, 1 + length ?kl)"
    by (rule putUvarintAt_fill) (simp_all add: n_def)
  have b2: "copyAt (1 + length ?kl) ?k (([0] @ ?kl) @ replicate (n - length ?kl) 0) =
      Some (([0] @ ?kl) @ ?k @ replicate (n - length ?kl - length ?k) 0)"
    by (rule copyAt_fill) (simp_all add: n_def)
  show ?thesis
  proof (cases "kvDelete pair")
    case True
    then have "n - length ?kl - length ?k = 0" by (simp add: n_def)
    then show ?thesis using b1 b2 True by (simp add: encodeKVPair_def n pairBytes_def EncodeBytes_def Let_def)
  next
    case False
    have b3: "putUvarintAt (1 + length ?kl + length ?k) (of_nat (length ?v)) (([0] @ ?kl @ ?k) @ replicate (n - length ?kl - length ?k) 0) =
        Some (([0] @ ?kl @ ?k) @ ?vl @ replicate (n - length ?kl - length ?k - length ?vl) 0, 1 + length ?kl + length ?k + length ?vl)"
      by (rule putUvarintAt_fill) (simp_all add: n_def False)
    have b4: "copyAt (1 + length ?kl + length ?k + length ?vl) ?v
        (([0] @ ?kl @ ?k @ ?vl) @ replicate (n - length ?kl - length ?k - length ?vl) 0) =
        Some (([0] @ ?kl @ ?k @ ?vl) @ ?v @ replicate (n - length ?kl - length ?k - length ?vl - length ?v) 0)"
      by (rule copyAt_fill) (simp_all add: n_def False)
    have "n - length ?kl - length ?k - length ?vl - length ?v = 0" by (simp add: n_def False)
    then show ?thesis using b1 b2 b3 b4 False by (simp add: encodeKVPair_def n pairBytes_def EncodeBytes_def Let_def)
  qed
qed

lemma encodeKVPairs_bytes: "encodeKVPairs cs = Some (map pairBytes cs)"
  by (induction cs) (simp_all add: encodeKVPair_bytes)

definition payload :: "changeSet \<Rightarrow> bytes" where
  "payload cs = concat (map pairBytes cs)"

definition changeSetBytes :: "u64 \<Rightarrow> changeSet \<Rightarrow> bytes" where
  "changeSetBytes version cs = putU64 version @ putU64 (of_nat (length (payload cs))) @ payload cs"

lemma WriteChangeSet_bytes: "WriteChangeSet version cs = Some (changeSetBytes version cs)"
  by (simp add: WriteChangeSet_def encodeKVPairs_bytes changeSetBytes_def payload_def length_concat comp_def)

section \<open>Round trip\<close>

text \<open>What is read back: a deletion has no value, and otherwise the empty value stands for nil.\<close>

definition normalPair :: "kvPair \<Rightarrow> kvPair" where
  "normalPair pair = pair\<lparr>kvValue := (if kvDelete pair then None else Some (valueOf pair))\<rparr>"

definition pairFits :: "kvPair \<Rightarrow> bool" where
  "pairFits pair \<longleftrightarrow> length (kvKey pair) < 2 ^ 64 \<and> (kvDelete pair \<or> length (valueOf pair) < 2 ^ 64)"

lemma readKVPair_bytes:
  assumes "pairFits pair"
  shows "readKVPair (pairBytes pair @ rest) = Inr (normalPair pair, rest)"
proof (cases "kvDelete pair")
  case True
  have "unat (of_nat (length (kvKey pair)) :: u64) = length (kvKey pair)" using assms by (intro unat_of_nat_64) (simp add: pairFits_def)
  then show ?thesis
    using True by (cases pair) (simp add: readKVPair_def readByte_def pairBytes_def normalPair_def EncodeBytes_def)
next
  case False
  have u: "unat (of_nat (length (kvKey pair)) :: u64) = length (kvKey pair)" "unat (of_nat (length (valueOf pair)) :: u64) = length (valueOf pair)"
    using assms False by (auto intro!: unat_of_nat_64 simp: pairFits_def)
  have n: "normalPair pair = \<lparr>kvDelete = False, kvKey = kvKey pair, kvValue = Some (valueOf pair)\<rparr>"
    using False by (cases pair) (simp add: normalPair_def)
  show ?thesis unfolding n using False u by (simp add: readKVPair_def readByte_def pairBytes_def EncodeBytes_def)
qed

lemma encodedSize_normal: "encodedSizeOfKVPair (normalPair pair) = encodedSizeOfKVPair pair"
  by (simp add: encodedSizeOfKVPair_def normalPair_def valueOf_def Let_def)

lemma readPairs_payload:
  assumes "\<forall>pair \<in> set cs. pairFits pair"
  shows "readPairs offset (offset + int (length (payload cs))) (payload cs @ rest) = Inr (map normalPair cs, rest)"
  using assms
proof (induction cs arbitrary: offset)
  case Nil
  then show ?case by (subst readPairs.simps) (simp add: payload_def)
next
  case (Cons pair cs)
  let ?e = "int (encodedSizeOfKVPair pair)"
  have p: "payload (pair # cs) = pairBytes pair @ payload cs" by (simp add: payload_def)
  have len: "int (length (payload (pair # cs))) = ?e + int (length (payload cs))" "0 < ?e"
    using length_pairBytes [of pair] by (simp_all add: p encodedSizeOfKVPair_def Let_def)
  have r: "readKVPair (payload (pair # cs) @ rest) = Inr (normalPair pair, payload cs @ rest)"
    unfolding p append_assoc using readKVPair_bytes Cons.prems by simp
  have IH: "readPairs (offset + ?e) (offset + ?e + int (length (payload cs))) (payload cs @ rest) = Inr (map normalPair cs, rest)"
    using Cons.IH Cons.prems by simp
  show ?case
    unfolding len(1) by (subst readPairs.simps) (use r IH len(2) in \<open>simp add: encodedSize_normal add.assoc\<close>)
qed

definition csFits :: "changeSet \<Rightarrow> bool" where
  "csFits cs \<longleftrightarrow> length (payload cs) < 2 ^ 63"

lemma csFits_pairs: "csFits cs \<Longrightarrow> \<forall>pair \<in> set cs. pairFits pair"
proof
  fix pair assume fits: "csFits cs" and mem: "pair \<in> set cs"
  obtain xs ys where "cs = xs @ pair # ys" using mem split_list by fast
  then have "length (pairBytes pair) \<le> length (payload cs)" by (simp add: payload_def)
  then have "length (pairBytes pair) < 2 ^ 63" using fits by (simp add: csFits_def)
  then show "pairFits pair" by (auto simp: pairFits_def pairBytes_def EncodeBytes_def split: if_splits)
qed

lemma sint_of_length: "n < 2 ^ 63 \<Longrightarrow> sint (of_nat n :: u64) = int n"
  by (simp add: signed_of_nat signed_take_bit_int_eq_self)

lemma ReadChangeSet_bytes:
  assumes fits: "csFits cs"
  shows "ReadChangeSet True (changeSetBytes v cs @ rest) = Inr ((v, of_nat (length (changeSetBytes v cs)), map normalPair cs), rest)"
    "ReadChangeSet False (changeSetBytes v cs @ rest) = Inr ((v, of_nat (length (changeSetBytes v cs)), []), rest)"
proof -
  let ?n = "of_nat (length (payload cs)) :: u64"
  have h: "readFull 16 (changeSetBytes v cs @ rest) = Inr (putU64 v @ putU64 ?n, payload cs @ rest)"
    using readFull_append [of "putU64 v @ putU64 ?n" "payload cs @ rest"] by (simp add: changeSetBytes_def)
  have sn: "sint ?n = int (length (payload cs))" using fits by (simp add: sint_of_length csFits_def)
  have z: "?n = 0 \<longleftrightarrow> cs = []"
  proof -
    have "unat ?n = length (payload cs)" using fits by (intro unat_of_nat_64) (simp add: csFits_def)
    then have "?n = 0 \<longleftrightarrow> payload cs = []" by (metis length_0_conv unat_eq_zero)
    moreover have "payload cs = [] \<longleftrightarrow> cs = []" by (cases cs) (auto simp: payload_def pairBytes_def)
    ultimately show ?thesis by simp
  qed
  have len: "of_nat (length (changeSetBytes v cs)) = ?n + 16" by (simp add: changeSetBytes_def)
  have p: "readPairs 0 (int (length (payload cs))) (payload cs @ rest) = Inr (map normalPair cs, rest)"
    using readPairs_payload [OF csFits_pairs [OF fits], of 0 rest] by simp
  show "ReadChangeSet True (changeSetBytes v cs @ rest) = Inr ((v, of_nat (length (changeSetBytes v cs)), map normalPair cs), rest)"
    unfolding ReadChangeSet_def h len using z sn p by (auto simp: payload_def)
  show "ReadChangeSet False (changeSetBytes v cs @ rest) = Inr ((v, of_nat (length (changeSetBytes v cs)), []), rest)"
    unfolding ReadChangeSet_def h len using z sn by (auto simp: payload_def discard_def)
qed

section \<open>Whole files\<close>

definition fileOf :: "(u64 \<times> changeSet) list \<Rightarrow> bytes" where
  "fileOf blocks = concat (map (\<lambda>(v, cs). changeSetBytes v cs) blocks)"

text \<open>The callback on the change sets of a file, one after the other.\<close>

fun callAll :: "(u64 \<Rightarrow> changeSet \<Rightarrow> ('s, 'e, bool) action) \<Rightarrow> (u64 \<times> changeSet) list \<Rightarrow> u64 \<Rightarrow> 's \<Rightarrow> (u64 \<times> (csError + 'e) option) \<times> 's" where
  "callAll fn [] off s = ((off, None), s)"
| "callAll fn ((v, cs) # blocks) off s =
     (case fn v (map normalPair cs) s of
        (Inl e, s') \<Rightarrow> ((off, Some (Inr e)), s')
      | (Inr cont, s') \<Rightarrow>
          (let off' = off + of_nat (length (changeSetBytes v cs))
           in if cont then callAll fn blocks off' s' else ((off', None), s')))"

lemma iterate_file:
  "\<forall>b \<in> set blocks. csFits (snd b) \<Longrightarrow> iterateLoop True fn off (fileOf blocks) s = callAll fn blocks off s"
proof (induction blocks arbitrary: off s)
  case Nil
  then show ?case by (subst iterateLoop.simps) (simp add: fileOf_def ReadChangeSet_def readFull_def)
next
  case (Cons b blocks)
  obtain v cs where b: "b = (v, cs)" by fastforce
  have f: "fileOf (b # blocks) = changeSetBytes v cs @ fileOf blocks" by (simp add: fileOf_def b)
  have "csFits cs" using Cons.prems b by simp
  note r = ReadChangeSet_bytes(1) [OF this, of v "fileOf blocks"]
  show ?case
    unfolding f by (subst iterateLoop.simps) (use r Cons b in \<open>auto split: prod.splits sum.splits simp: Let_def\<close>)
qed

section \<open>Properties\<close>

text \<open>C31: change set files round trip. What \<open>WriteChangeSet\<close> writes for a version is read back by \<open>ReadChangeSet\<close>: the version, the pairs (with deletions
  without a value and nil values as empty ones) and the number of bytes, leaving the rest of the input; skipping the payload gives
  the same version and number of bytes. In particular the buffer sizes computed in advance, with \<open>uvarintSize\<close>, are exact.\<close>

theorem changeSet_roundtrip:
  assumes "csFits cs"
  shows "\<exists>bz. WriteChangeSet version cs = Some bz \<and>
    ReadChangeSet True (bz @ rest) = Inr ((version, of_nat (length bz), map normalPair cs), rest) \<and>
    ReadChangeSet False (bz @ rest) = Inr ((version, of_nat (length bz), []), rest)"
  using ReadChangeSet_bytes [OF assms, of version rest] WriteChangeSet_bytes by blast

theorem changeSet_roundtrip_witness:
  "\<exists>bz. WriteChangeSet 7 samplePairs = Some bz \<and> ReadChangeSet True (bz @ [9]) = Inr ((7, of_nat (length bz), map normalPair samplePairs), [9])"
proof -
  have "csFits samplePairs"
    by (simp add: csFits_def payload_def samplePairs_def pairBytes_def EncodeBytes_def valueOf_def putUvarint.simps)
  from changeSet_roundtrip [OF this, of 7 "[9]"] show ?thesis by blast
qed

text \<open>C30: iteration over a change set file. \<open>IterateChangeSets\<close> on a file of written change sets calls the callback on each of them in order, until it fails or
  asks to stop, reports the offset after the last change set that was dealt with, and ends without an error at the end of the file.\<close>

theorem IterateChangeSets_file:
  assumes "\<forall>b \<in> set blocks. csFits (snd b)"
  shows "IterateChangeSets fn (fileOf blocks) s = callAll fn blocks 0 s"
  unfolding IterateChangeSets_def by (rule iterate_file [OF assms])

theorem IterateChangeSets_file_witness:
  "IterateChangeSets (\<lambda>v cs n. (Inr True :: unit + bool, n + length cs)) (fileOf [(7, []), (8, [])]) 0 = ((32, None), 0)"
proof -
  have "\<forall>b \<in> set [(7 :: u64, [] :: changeSet), (8, [])]. csFits (snd b)" by (simp add: csFits_def payload_def)
  from IterateChangeSets_file [OF this, of "\<lambda>v cs n. (Inr True, n + length cs)" 0] show ?thesis
    by (simp add: changeSetBytes_def payload_def)
qed

end
