(* ===== verification/Heap.thy ===== *)
theory Heap
  imports Prelude
begin

text \<open>
  The binary heap of the standard library's \<open>container/heap\<close>, on the list of entries of \<open>MultiWayMerge\<close> in
  \<open>versiondb/extsort/merge.go\<close>: \<open>down\<close>, \<open>up\<close>, \<open>Init\<close>, \<open>Fix\<close> and \<open>Remove\<close>, with the comparison as a
  parameter, and the facts that a strict weak order gives.
\<close>

definition swapAt :: "nat \<Rightarrow> nat \<Rightarrow> 'a list \<Rightarrow> 'a list" where
  "swapAt i j xs = xs[i := xs ! j, j := xs ! i]"

text \<open>\<open>down\<close> on the first \<open>n\<close> entries, with the smaller child; the result says whether the entry moved.\<close>

definition smallerChild :: "('a \<Rightarrow> 'a \<Rightarrow> bool) \<Rightarrow> 'a list \<Rightarrow> nat \<Rightarrow> nat \<Rightarrow> nat" where
  "smallerChild lt xs i n =
     (let j1 = 2 * i + 1 in if j1 + 1 < n \<and> lt (xs ! (j1 + 1)) (xs ! j1) then j1 + 1 else j1)"

function heapDown :: "('a \<Rightarrow> 'a \<Rightarrow> bool) \<Rightarrow> 'a list \<Rightarrow> nat \<Rightarrow> nat \<Rightarrow> 'a list \<times> bool" where
  "heapDown lt xs i n =
     (if n \<le> 2 * i + 1 then (xs, False)
      else if \<not> lt (xs ! smallerChild lt xs i n) (xs ! i) then (xs, False)
      else (fst (heapDown lt (swapAt i (smallerChild lt xs i n) xs) (smallerChild lt xs i n) n), True))"
  by pat_completeness auto
termination
  by (relation "measure (\<lambda>(lt, xs, i, n). n - i)") (auto simp: smallerChild_def Let_def split: if_splits)

declare heapDown.simps [simp del]

function heapUp :: "('a \<Rightarrow> 'a \<Rightarrow> bool) \<Rightarrow> 'a list \<Rightarrow> nat \<Rightarrow> 'a list" where
  "heapUp lt xs j =
     (let i = (j - 1) div 2 in
      if i = j \<or> \<not> lt (xs ! j) (xs ! i) then xs else heapUp lt (swapAt i j xs) i)"
  by pat_completeness auto
termination
  by (relation "measure (\<lambda>(lt, xs, j). j)") (auto simp: Let_def)

declare heapUp.simps [simp del]

fun heapInitFrom :: "('a \<Rightarrow> 'a \<Rightarrow> bool) \<Rightarrow> nat \<Rightarrow> 'a list \<Rightarrow> 'a list" where
  "heapInitFrom lt 0 xs = xs"
| "heapInitFrom lt (Suc i) xs = heapInitFrom lt i (fst (heapDown lt xs i (length xs)))"

definition heapInit :: "('a \<Rightarrow> 'a \<Rightarrow> bool) \<Rightarrow> 'a list \<Rightarrow> 'a list" where
  "heapInit lt xs = heapInitFrom lt (length xs div 2) xs"

definition heapFix :: "('a \<Rightarrow> 'a \<Rightarrow> bool) \<Rightarrow> nat \<Rightarrow> 'a list \<Rightarrow> 'a list" where
  "heapFix lt i xs = (case heapDown lt xs i (length xs) of (ys, moved) \<Rightarrow> if moved then ys else heapUp lt ys i)"

text \<open>\<open>Remove\<close>, without the removed entry.\<close>

definition heapRemove :: "('a \<Rightarrow> 'a \<Rightarrow> bool) \<Rightarrow> nat \<Rightarrow> 'a list \<Rightarrow> 'a list" where
  "heapRemove lt i xs =
     (let n = length xs - 1 in
      butlast (if n \<noteq> i
        then (case heapDown lt (swapAt i n xs) i n of (ys, moved) \<Rightarrow> if moved then ys else heapUp lt ys i)
        else xs))"

section \<open>Permutation\<close>

lemma swapAt_facts [simp]:
  "length (swapAt i j xs) = length xs"
  "i < length xs \<Longrightarrow> j < length xs \<Longrightarrow> mset (swapAt i j xs) = mset xs"
  "i < length xs \<Longrightarrow> j < length xs \<Longrightarrow> swapAt i j xs ! k = (if k = j then xs ! i else if k = i then xs ! j else xs ! k)"
  by (auto simp: swapAt_def mset_swap nth_list_update)

lemma heapDown_mset:
  "n \<le> length xs \<Longrightarrow> mset (fst (heapDown lt xs i n)) = mset xs \<and> length (fst (heapDown lt xs i n)) = length xs"
proof (induction lt xs i n rule: heapDown.induct)
  case (1 lt xs i n)
  show ?case
  proof (cases "n \<le> 2 * i + 1")
    case True
    then show ?thesis by (subst (1 2) heapDown.simps) simp
  next
    case False
    let ?j = "smallerChild lt xs i n"
    have j: "i < length xs" "?j < length xs" using False 1(2) by (auto simp: smallerChild_def Let_def)
    show ?thesis
    proof (cases "lt (xs ! ?j) (xs ! i)")
      case True
      have IH: "mset (fst (heapDown lt (swapAt i ?j xs) ?j n)) = mset (swapAt i ?j xs) \<and>
          length (fst (heapDown lt (swapAt i ?j xs) ?j n)) = length (swapAt i ?j xs)"
        using 1(1) [OF False] True 1(2) by simp
      have "heapDown lt xs i n = (fst (heapDown lt (swapAt i ?j xs) ?j n), True)"
        using False True by (subst heapDown.simps) simp
      then show ?thesis using IH j by simp
    next
      case no: False
      then have "heapDown lt xs i n = (xs, False)" using False by (subst heapDown.simps) simp
      then show ?thesis by simp
    qed
  qed
qed

text \<open>What is outside the first \<open>n\<close> entries stays.\<close>

lemma heapDown_outside: "n \<le> k \<Longrightarrow> n \<le> length xs \<Longrightarrow> fst (heapDown lt xs i n) ! k = xs ! k"
proof (induction lt xs i n rule: heapDown.induct)
  case (1 lt xs i n)
  let ?j = "smallerChild lt xs i n"
  show ?case
  proof (cases "n \<le> 2 * i + 1 \<or> \<not> lt (xs ! ?j) (xs ! i)")
    case True
    then show ?thesis by (subst heapDown.simps) auto
  next
    case False
    have j: "i < n" "?j < n" using False by (auto simp: smallerChild_def Let_def)
    have "fst (heapDown lt (swapAt i ?j xs) ?j n) ! k = swapAt i ?j xs ! k" using 1 False by simp
    moreover have "swapAt i ?j xs ! k = xs ! k" using j 1(2,3) by simp
    moreover have "heapDown lt xs i n = (fst (heapDown lt (swapAt i ?j xs) ?j n), True)" using False by (subst heapDown.simps) simp
    ultimately show ?thesis by simp
  qed
qed

lemma heapUp_zero [simp]: "heapUp lt xs 0 = xs"
  by (subst heapUp.simps) simp

lemma heapInitFrom_mset: "mset (heapInitFrom lt i xs) = mset xs \<and> length (heapInitFrom lt i xs) = length xs"
  by (induction i arbitrary: xs) (use heapDown_mset in \<open>fastforce+\<close>)

section \<open>Order\<close>

text \<open>A strict weak order on the entries that satisfy \<open>ok\<close>: \<open>lt\<close> is asymmetric and its complement is transitive.\<close>

locale weak_order =
  fixes lt :: "'a \<Rightarrow> 'a \<Rightarrow> bool" and ok :: "'a \<Rightarrow> bool"
  assumes asym: "ok a \<Longrightarrow> ok b \<Longrightarrow> lt a b \<Longrightarrow> \<not> lt b a"
    and negtrans: "ok a \<Longrightarrow> ok b \<Longrightarrow> ok c \<Longrightarrow> \<not> lt b a \<Longrightarrow> \<not> lt c b \<Longrightarrow> \<not> lt c a"
begin

text \<open>In the first \<open>n\<close> entries, no entry with a parent at \<open>lo\<close> or later is less than that parent, except perhaps the children of \<open>k\<close>.\<close>

definition heapFrom :: "nat \<Rightarrow> nat option \<Rightarrow> nat \<Rightarrow> 'a list \<Rightarrow> bool" where
  "heapFrom lo k n xs \<longleftrightarrow>
     (\<forall>j < n. 0 < j \<and> lo \<le> (j - 1) div 2 \<and> Some ((j - 1) div 2) \<noteq> k \<longrightarrow> \<not> lt (xs ! j) (xs ! ((j - 1) div 2)))"

definition siftable :: "nat \<Rightarrow> nat \<Rightarrow> nat \<Rightarrow> 'a list \<Rightarrow> bool" where
  "siftable lo i n xs \<longleftrightarrow> heapFrom lo (Some i) n xs \<and>
     (0 < i \<and> lo \<le> (i - 1) div 2 \<longrightarrow> (\<forall>j < n. 0 < j \<and> (j - 1) div 2 = i \<longrightarrow> \<not> lt (xs ! j) (xs ! ((i - 1) div 2))))"

lemma parent_child: "0 < (j :: nat) \<Longrightarrow> (j - 1) div 2 = i \<longleftrightarrow> j = 2 * i + 1 \<or> j = 2 * i + 2"
  by auto

lemma down_heap:
  "n \<le> length xs \<Longrightarrow> \<forall>x \<in> set xs. ok x \<Longrightarrow> i < n \<Longrightarrow> lo \<le> i \<Longrightarrow> siftable lo i n xs \<Longrightarrow>
   heapFrom lo None n (fst (heapDown lt xs i n))"
proof (induction "n - i" arbitrary: xs i rule: less_induct)
  case less
  note len = less.prems(1) and oks = less.prems(2) and i = less.prems(3) and lo = less.prems(4) and sift = less.prems(5)
  have okn: "ok (xs ! k)" if "k < n" for k using that len oks by simp
  have from_i: "\<not> lt (xs ! j) (xs ! ((j - 1) div 2))" if "j < n" "0 < j" "lo \<le> (j - 1) div 2" "(j - 1) div 2 \<noteq> i" for j
    using sift that by (auto simp: siftable_def heapFrom_def)
  show ?case
  proof (cases "n \<le> 2 * i + 1")
    case True
    then have "heapDown lt xs i n = (xs, False)" by (subst heapDown.simps) simp
    then show ?thesis using from_i True by (auto simp: heapFrom_def)
  next
    case False
    define j where "j = smallerChild lt xs i n"
    have j: "i < j" "j < n" "0 < j" "(j - 1) div 2 = i" using False by (auto simp: j_def smallerChild_def Let_def)
    have irr: "\<not> lt x x" if "ok x" for x using asym [OF that that] by blast
    have best: "\<not> lt (xs ! c) (xs ! j)" if c: "c < n" "0 < c" "(c - 1) div 2 = i" for c
    proof (cases "c = j")
      case True
      then show ?thesis using irr [OF okn [OF c(1)]] by simp
    next
      case ne: False
      have two: "c = 2 * i + 1 \<or> c = 2 * i + 2" using c parent_child by blast
      show ?thesis
      proof (cases "2 * i + 1 + 1 < n \<and> lt (xs ! (2 * i + 1 + 1)) (xs ! (2 * i + 1))")
        case True
        then have "j = 2 * i + 1 + 1" by (simp add: j_def smallerChild_def)
        then have "lt (xs ! j) (xs ! c)" using True two ne by auto
        then show ?thesis using asym [OF okn [OF j(2)] okn [OF c(1)]] by blast
      next
        case no: False
        then have "j = 2 * i + 1" by (auto simp: j_def smallerChild_def)
        then show ?thesis using no two ne c(1) by auto
      qed
    qed
    show ?thesis
    proof (cases "lt (xs ! j) (xs ! i)")
      case no: False
      have "\<not> lt (xs ! c) (xs ! i)" if "c < n" "0 < c" "(c - 1) div 2 = i" for c
        using negtrans [OF okn okn okn no best [OF that]] that(1) i j by simp
      then have "heapFrom lo None n xs" using from_i by (auto simp: heapFrom_def)
      moreover have "heapDown lt xs i n = (xs, False)" using False no by (subst heapDown.simps) (simp add: j_def)
      ultimately show ?thesis by simp
    next
      case True
      let ?ys = "swapAt i j xs"
      have run: "heapDown lt xs i n = (fst (heapDown lt ?ys j n), True)"
        using False True by (subst heapDown.simps) (simp add: j_def)
      have ix: "i < length xs" "j < length xs" using i j len by auto
      have y: "?ys ! k = (if k = j then xs ! i else if k = i then xs ! j else xs ! k)" for k using ix by simp
      have "heapFrom lo (Some j) n ?ys"
        unfolding heapFrom_def
      proof (intro allI impI, elim conjE)
        fix c assume c: "c < n" "0 < c" "lo \<le> (c - 1) div 2" "Some ((c - 1) div 2) \<noteq> Some j"
        consider "c = j" | "c = i" | "c \<noteq> i" "c \<noteq> j" "(c - 1) div 2 = i" | "c \<noteq> i" "c \<noteq> j" "(c - 1) div 2 \<noteq> i" by blast
        then show "\<not> lt (?ys ! c) (?ys ! ((c - 1) div 2))"
        proof cases
          case 1
          have "\<not> lt (xs ! i) (xs ! j)" using asym [OF okn [OF j(2)] okn [OF i] True] .
          then show ?thesis using 1 y j by simp
        next
          case 2
          have p: "(i - 1) div 2 \<noteq> i" "(i - 1) div 2 \<noteq> j" using c(2) 2 j(1) by auto
          have "\<not> lt (xs ! j) (xs ! ((i - 1) div 2))" using sift c(2,3) 2 j(2-4) unfolding siftable_def by blast
          then show ?thesis using 2 p j(1) y by simp
        next
          case 3
          then show ?thesis using best [OF c(1,2)] y j by simp
        next
          case 4
          then show ?thesis using from_i [OF c(1-3)] c(4) y by simp
        qed
      qed
      moreover have "\<not> lt (?ys ! c) (?ys ! ((j - 1) div 2))" if "c < n" "0 < c" "(c - 1) div 2 = j" for c
      proof -
        have "c \<noteq> j" "c \<noteq> i" "lo \<le> j" using that j lo by auto
        then show ?thesis using from_i [OF that(1,2)] that(3) j y by simp
      qed
      ultimately have "siftable lo j n ?ys" by (simp add: siftable_def)
      moreover have "mset ?ys = mset xs" using ix by simp
      then have "\<forall>x \<in> set ?ys. ok x" using oks mset_eq_setD by blast
      ultimately have "heapFrom lo None n (fst (heapDown lt ?ys j n))"
        using less.hyps [of j ?ys] i j lo len by simp
      then show ?thesis using run by simp
    qed
  qed
qed

lemma init_heap:
  "\<forall>x \<in> set xs. ok x \<Longrightarrow> i \<le> length xs \<Longrightarrow> heapFrom i None (length xs) xs \<Longrightarrow> heapFrom 0 None (length xs) (heapInitFrom lt i xs)"
proof (induction i arbitrary: xs)
  case (Suc i)
  let ?ys = "fst (heapDown lt xs i (length xs))"
  have m: "mset ?ys = mset xs" "length ?ys = length xs" using heapDown_mset by blast+
  have "siftable i i (length xs) xs" using Suc.prems(3) by (auto simp: siftable_def heapFrom_def)
  then have "heapFrom i None (length xs) ?ys" using down_heap Suc.prems by simp
  moreover have "\<forall>x \<in> set ?ys. ok x" using Suc.prems(1) m(1) mset_eq_setD by blast
  ultimately show ?case using Suc.IH [of ?ys] Suc.prems(2) m(2) by simp
qed simp

abbreviation isHeap :: "'a list \<Rightarrow> bool" where
  "isHeap xs \<equiv> heapFrom 0 None (length xs) xs"

lemma heapInit_heap: "\<forall>x \<in> set xs. ok x \<Longrightarrow> isHeap (heapInit lt xs) \<and> mset (heapInit lt xs) = mset xs"
proof -
  assume oks: "\<forall>x \<in> set xs. ok x"
  have "heapFrom (length xs div 2) None (length xs) xs" by (auto simp: heapFrom_def)
  then have "heapFrom 0 None (length xs) (heapInit lt xs)" unfolding heapInit_def using init_heap [OF oks] by simp
  then show ?thesis using heapInitFrom_mset unfolding heapInit_def by metis
qed

text \<open>The root is least.\<close>

lemma heap_root:
  assumes "isHeap xs" "\<forall>x \<in> set xs. ok x"
  shows "j < length xs \<Longrightarrow> \<not> lt (xs ! j) (xs ! 0)"
proof (induction j rule: less_induct)
  case (less j)
  have okn: "ok (xs ! k)" if "k < length xs" for k using that assms(2) by simp
  show ?case
  proof (cases "j = 0")
    case True
    then show ?thesis using asym [OF okn okn] less.prems by blast
  next
    case False
    let ?p = "(j - 1) div 2"
    have p: "?p < j" "?p < length xs" using False less.prems by auto
    have "\<not> lt (xs ! j) (xs ! ?p)" using assms(1) less.prems False by (auto simp: heapFrom_def)
    moreover have "\<not> lt (xs ! ?p) (xs ! 0)" using less.IH [OF p] .
    moreover have "ok (xs ! 0)" by (rule okn) (rule le_less_trans [OF le0 p(2)])
    ultimately show ?thesis using negtrans okn [OF p(2)] okn [OF less.prems] by blast
  qed
qed

text \<open>Replacing the root and fixing, or removing it, gives a heap again.\<close>

lemma heap_replace:
  assumes "isHeap xs" "\<forall>x \<in> set xs. ok x" "ok y" "xs \<noteq> []"
  shows "isHeap (heapFix lt 0 (xs[0 := y])) \<and> mset (heapFix lt 0 (xs[0 := y])) = add_mset y (mset (tl xs))"
proof -
  let ?xs = "xs[0 := y]"
  obtain x xs' where x: "xs = x # xs'" using assms(4) by (cases xs) auto
  have oks: "\<forall>z \<in> set ?xs. ok z" using assms(2,3) x by simp
  have "siftable 0 0 (length ?xs) ?xs"
    using assms(1) by (auto simp: siftable_def heapFrom_def nth_list_update)
  then have h: "heapFrom 0 None (length ?xs) (fst (heapDown lt ?xs 0 (length ?xs)))"
    using down_heap [OF _ oks] assms(4) by simp
  have "heapFix lt 0 ?xs = fst (heapDown lt ?xs 0 (length ?xs))" by (simp add: heapFix_def case_prod_beta)
  moreover have "mset (fst (heapDown lt ?xs 0 (length ?xs))) = mset ?xs" "length (fst (heapDown lt ?xs 0 (length ?xs))) = length ?xs"
    using heapDown_mset by blast+
  moreover have "mset ?xs = add_mset y (mset (tl xs))" using x by simp
  ultimately show ?thesis using h by simp
qed

lemma heap_remove:
  assumes heap: "isHeap xs" and oks: "\<forall>x \<in> set xs. ok x" and ne: "xs \<noteq> []"
  shows "isHeap (heapRemove lt 0 xs) \<and> mset (heapRemove lt 0 xs) = mset (tl xs)"
proof (cases "length xs - 1 = 0")
  case True
  then obtain x where "xs = [x]" using ne by (cases xs) auto
  then show ?thesis by (simp add: heapRemove_def heapFrom_def)
next
  case False
  define n where "n = length xs - 1"
  let ?zs = "swapAt 0 n xs"
  define ys where "ys = fst (heapDown lt ?zs 0 n)"
  have n: "0 < n" "n < length xs" "length xs = Suc n" using False by (auto simp: n_def)
  have run: "heapRemove lt 0 xs = butlast ys" using n(1) unfolding heapRemove_def Let_def n_def [symmetric] ys_def by (simp add: case_prod_beta)
  have mz: "mset ?zs = mset xs" using n by simp
  have okz: "\<forall>x \<in> set ?zs. ok x" using oks mset_eq_setD [OF mz] by simp
  have "\<not> lt (?zs ! j) (?zs ! ((j - 1) div 2))" if j: "j < n" "0 < j" "(j - 1) div 2 \<noteq> 0" for j
  proof -
    have p: "(j - 1) div 2 < n" using j by auto
    have "?zs ! j = xs ! j" "?zs ! ((j - 1) div 2) = xs ! ((j - 1) div 2)" using n j p by auto
    moreover have "\<not> lt (xs ! j) (xs ! ((j - 1) div 2))" using heap j n by (simp add: heapFrom_def)
    ultimately show ?thesis by simp
  qed
  then have "siftable 0 0 n ?zs" by (auto simp: siftable_def heapFrom_def)
  then have h: "heapFrom 0 None n ys" unfolding ys_def using down_heap [OF _ okz n(1)] n by simp
  have m: "mset ys = mset xs" "length ys = Suc n" using heapDown_mset [of n ?zs lt 0] mz n by (simp_all add: ys_def)
  have "ys ! n = xs ! 0" unfolding ys_def using heapDown_outside [of n n ?zs lt 0] n by simp
  moreover have yne: "ys \<noteq> []" using m(2) by auto
  ultimately have l: "last ys = hd xs" using m(2) ne by (simp add: last_conv_nth hd_conv_nth)
  have "isHeap (butlast ys)" using h m(2) by (auto simp: heapFrom_def nth_butlast)
  moreover have "mset (butlast ys @ [last ys]) = mset (hd xs # tl xs)" using yne ne m(1) by simp
  then have "mset (butlast ys) = mset (tl xs)" using l by simp
  ultimately show ?thesis using run by simp
qed

end

end
