(* ===== verification/ExtSort.thy ===== *)
theory ExtSort
  imports Heap NodeHash
begin

text \<open>
  External sorting: \<open>versiondb/extsort\<close>. Items are collected into chunks; each chunk is sorted, delta-encoded, compressed and
  written to a file; the files are read back and merged with a heap. Snappy is a parameter, and so is the
  comparison, as in the source. The goroutines that write the chunks only differ in the order of the files, which
  the merge does not depend on, so the model writes them in turn. \<open>sort.Slice\<close> may order equal items in any way;
  the model inserts from the right.
\<close>

section \<open>Delta encoding\<close>

datatype sortError = SortRead readError | SortPanic | ItemTooLong

fun diffOffset :: "bytes \<Rightarrow> bytes \<Rightarrow> nat" where
  "diffOffset (a # as) (b # bs) = (if a = b then Suc (diffOffset as bs) else 0)"
| "diffOffset _ _ = 0"

definition deltaWrite :: "bytes \<Rightarrow> bytes \<Rightarrow> bytes" where
  "deltaWrite prev key =
     (let shared = diffOffset prev key; nonShared = length key - shared
      in putUvarint (of_nat shared) @ putUvarint (of_nat nonShared) @ drop shared key)"

definition deltaRead :: "bytes \<Rightarrow> bytes \<Rightarrow> sortError + bytes \<times> bytes" where
  "deltaRead prev bs =
     (case readUvarint bs of
        Inl e \<Rightarrow> Inl (SortRead e)
      | Inr (shared, r1) \<Rightarrow>
          (case readUvarint r1 of
             Inl e \<Rightarrow> Inl (SortRead e)
           | Inr (nonShared, r2) \<Rightarrow>
               (let total = shared + nonShared in
                if length prev < unat shared \<or> total < shared then Inl SortPanic
                else (case readFull (unat total - unat shared) r2 of
                        Inl e \<Rightarrow> Inl (SortRead e)
                      | Inr (tail, rest) \<Rightarrow> Inr (take (unat shared) prev @ tail, rest)))))"

section \<open>Streams\<close>

record stream =
  sdata :: bytes
  slast :: bytes

text \<open>The closures of \<open>Finalize\<close>: the next item of a chunk file, \<open>None\<close> at its end.\<close>

definition streamNext :: "bool \<Rightarrow> stream \<Rightarrow> (sortError + slice) \<times> stream" where
  "streamNext delta s =
     (if delta then
        (case deltaRead (slast s) (sdata s) of
           Inl e \<Rightarrow> (if e = SortRead EOF then (Inr None, s) else (Inl e, s))
         | Inr (item, rest) \<Rightarrow> (Inr (Some item), \<lparr>sdata = rest, slast = item\<rparr>))
      else
        (case readUvarint (sdata s) of
           Inl e \<Rightarrow> (if e = EOF then (Inr None, s) else (Inl (SortRead e), s))
         | Inr (n, r) \<Rightarrow>
             (case readFull (unat n) r of
                Inl e \<Rightarrow> (Inl (SortRead e), s)
              | Inr (item, rest) \<Rightarrow> (Inr (Some item), s\<lparr>sdata := rest\<rparr>))))"

section \<open>Merge\<close>

record 's heapEntry =
  hvalue :: bytes
  hstream :: 's

abbreviation entryLess :: "(bytes \<Rightarrow> bytes \<Rightarrow> bool) \<Rightarrow> 's heapEntry \<Rightarrow> 's heapEntry \<Rightarrow> bool" where
  "entryLess lt a b \<equiv> lt (hvalue a) (hvalue b)"

definition newHeapEntry :: "('s \<Rightarrow> (sortError + slice) \<times> 's) \<Rightarrow> 's \<Rightarrow> sortError + 's heapEntry option" where
  "newHeapEntry nextFn s =
     (case nextFn s of
        (Inl e, _) \<Rightarrow> Inl e
      | (Inr None, _) \<Rightarrow> Inr None
      | (Inr (Some v), s') \<Rightarrow> Inr (Some \<lparr>hvalue = v, hstream = s'\<rparr>))"

fun heapEntries :: "('s \<Rightarrow> (sortError + slice) \<times> 's) \<Rightarrow> 's list \<Rightarrow> sortError + 's heapEntry list" where
  "heapEntries nextFn [] = Inr []"
| "heapEntries nextFn (s # ss) =
     andThen (newHeapEntry nextFn s) (\<lambda>x. andThen (heapEntries nextFn ss) (\<lambda>xs.
       Inr (case x of None \<Rightarrow> xs | Some h \<Rightarrow> h # xs)))"

definition NewMultiWayMerge :: "('s \<Rightarrow> (sortError + slice) \<times> 's) \<Rightarrow> (bytes \<Rightarrow> bytes \<Rightarrow> bool) \<Rightarrow> 's list \<Rightarrow> sortError + 's heapEntry list" where
  "NewMultiWayMerge nextFn lt streams =
     andThen (heapEntries nextFn streams) (\<lambda>entries. Inr (heapInit (entryLess lt) entries))"

definition mergeNext ::
  "('s \<Rightarrow> (sortError + slice) \<times> 's) \<Rightarrow> (bytes \<Rightarrow> bytes \<Rightarrow> bool) \<Rightarrow> 's heapEntry list \<Rightarrow> (sortError + slice) \<times> 's heapEntry list" where
  "mergeNext nextFn lt entries =
     (if entries = [] then (Inr None, entries)
      else
        (let minEntry = entries ! 0 in
         case nextFn (hstream minEntry) of
           (Inl e, _) \<Rightarrow> (Inl e, entries)
         | (Inr None, _) \<Rightarrow> (Inr (Some (hvalue minEntry)), heapRemove (entryLess lt) 0 entries)
         | (Inr (Some v), s) \<Rightarrow>
             (Inr (Some (hvalue minEntry)), heapFix (entryLess lt) 0 (entries[0 := \<lparr>hvalue = v, hstream = s\<rparr>]))))"

text \<open>The reading loop of \<open>Spawn\<close>.\<close>

partial_function (option) readAll ::
  "('s \<Rightarrow> (sortError + slice) \<times> 's) \<Rightarrow> (bytes \<Rightarrow> bytes \<Rightarrow> bool) \<Rightarrow> 's heapEntry list \<Rightarrow> (sortError + bytes list) option" where
  "readAll nextFn lt entries =
     (case mergeNext nextFn lt entries of
        (Inl e, _) \<Rightarrow> Some (Inl e)
      | (Inr None, _) \<Rightarrow> Some (Inr [])
      | (Inr (Some item), entries') \<Rightarrow>
          Option.bind (readAll nextFn lt entries') (\<lambda>r. Some (map_sum id (Cons item) r)))"

section \<open>Sorter\<close>

record sortOptions =
  soDelta :: bool
  soSnappy :: bool
  soMaxChunk :: int
  soLess :: "bytes \<Rightarrow> bytes \<Rightarrow> bool"

record snappyOps =
  snCompress :: "bytes \<Rightarrow> bytes"
  snDecompress :: "bytes \<Rightarrow> bytes"

record extSorter =
  currentChunk :: "bytes list"
  currentChunkSize :: int
  chunkFiles :: "bytes list"

definition newSorter :: extSorter where
  "newSorter = \<lparr>currentChunk = [], currentChunkSize = 0, chunkFiles = []\<rparr>"

fun insertBy :: "('a \<Rightarrow> 'a \<Rightarrow> bool) \<Rightarrow> 'a \<Rightarrow> 'a list \<Rightarrow> 'a list" where
  "insertBy lt x [] = [x]"
| "insertBy lt x (y # ys) = (if lt y x then y # insertBy lt x ys else x # y # ys)"

definition sortSlice :: "('a \<Rightarrow> 'a \<Rightarrow> bool) \<Rightarrow> 'a list \<Rightarrow> 'a list" where
  "sortSlice lt xs = foldr (insertBy lt) xs []"

fun deltaWriteAll :: "bytes \<Rightarrow> bytes list \<Rightarrow> bytes" where
  "deltaWriteAll prev [] = []"
| "deltaWriteAll prev (item # items) = deltaWrite prev item @ deltaWriteAll item items"

definition sortAndSaveChunk :: "snappyOps \<Rightarrow> sortOptions \<Rightarrow> bytes list \<Rightarrow> bytes" where
  "sortAndSaveChunk sn opts chunk =
     (let sorted = sortSlice (soLess opts) chunk;
          plain = (if soDelta opts then deltaWriteAll [] sorted else concat (map EncodeBytes sorted))
      in if soSnappy opts then snCompress sn plain else plain)"

definition sortChunkAndRotate :: "snappyOps \<Rightarrow> sortOptions \<Rightarrow> extSorter \<Rightarrow> extSorter" where
  "sortChunkAndRotate sn opts s =
     \<lparr>currentChunk = [], currentChunkSize = 0, chunkFiles = chunkFiles s @ [sortAndSaveChunk sn opts (currentChunk s)]\<rparr>"

definition Feed :: "snappyOps \<Rightarrow> sortOptions \<Rightarrow> bytes \<Rightarrow> (extSorter, sortError, unit) action" where
  "Feed sn opts item s =
     (if 0xffffffff < length item then (Inl ItemTooLong, s)
      else
        (let s1 = s\<lparr>currentChunkSize := currentChunkSize s + int (length item) + 4, currentChunk := currentChunk s @ [item]\<rparr>
         in (Inr (), if soMaxChunk opts \<le> currentChunkSize s1 then sortChunkAndRotate sn opts s1 else s1)))"

definition Finalize :: "snappyOps \<Rightarrow> sortOptions \<Rightarrow> extSorter \<Rightarrow> sortError + stream heapEntry list" where
  "Finalize sn opts s =
     (let s1 = (if 0 < currentChunkSize s then sortChunkAndRotate sn opts s else s)
      in NewMultiWayMerge (streamNext (soDelta opts)) (soLess opts)
           (map (\<lambda>f. \<lparr>sdata = (if soSnappy opts then snDecompress sn f else f), slast = []\<rparr>) (chunkFiles s1)))"

definition Spawn :: "snappyOps \<Rightarrow> sortOptions \<Rightarrow> bytes list \<Rightarrow> (sortError + bytes list) option" where
  "Spawn sn opts input =
     (case forEach (Feed sn opts) input newSorter of
        (Inl e, _) \<Rightarrow> Some (Inl e)
      | (Inr _, s) \<Rightarrow>
          (case Finalize sn opts s of
             Inl e \<Rightarrow> Some (Inl e)
           | Inr entries \<Rightarrow> readAll (streamNext (soDelta opts)) (soLess opts) entries))"

section \<open>Delta round trip\<close>

lemma diffOffset_spec: "diffOffset a b \<le> length a" "diffOffset a b \<le> length b" "take (diffOffset a b) a = take (diffOffset a b) b"
  by (induction a b rule: diffOffset.induct) auto

lemma deltaRead_write:
  assumes "length key < 2 ^ 64" "length prev < 2 ^ 64"
  shows "deltaRead prev (deltaWrite prev key @ rest) = Inr (key, rest)"
proof -
  define n where "n = diffOffset prev key"
  have d: "n \<le> length prev" "n \<le> length key" "take n prev = take n key" unfolding n_def by (rule diffOffset_spec)+
  have u: "unat (of_nat n :: u64) = n" "unat (of_nat (length key) :: u64) = length key"
    using d assms by (auto intro!: unat_of_nat_64)
  have "(of_nat n + of_nat (length key - n) :: u64) = of_nat (length key)" using d by (simp flip: of_nat_add)
  moreover have "\<not> (of_nat (length key) :: u64) < of_nat n" using u d by (simp add: word_less_nat_alt)
  moreover have "readFull (length key - n) (drop n key @ rest) = Inr (drop n key, rest)"
    using readFull_append [of "drop n key" rest] d by simp
  ultimately show ?thesis
    using d u unfolding deltaRead_def deltaWrite_def n_def [symmetric] by (simp add: Let_def)
qed

fun yields :: "('s \<Rightarrow> (sortError + slice) \<times> 's) \<Rightarrow> 's \<Rightarrow> bytes list \<Rightarrow> bool" where
  "yields nextFn s [] \<longleftrightarrow> fst (nextFn s) = Inr None"
| "yields nextFn s (x # xs) \<longleftrightarrow> (\<exists>s'. nextFn s = (Inr (Some x), s') \<and> yields nextFn s' xs)"

lemma yields_unique: "yields nextFn s xs \<Longrightarrow> yields nextFn s ys \<Longrightarrow> xs = ys"
proof (induction xs arbitrary: s ys)
  case Nil
  then show ?case by (cases ys) auto
next
  case (Cons x xs)
  then show ?case by (cases ys) auto
qed

lemma yields_delta:
  "\<forall>x \<in> set xs. length x < 2 ^ 64 \<Longrightarrow> length prev < 2 ^ 64 \<Longrightarrow> yields (streamNext True) \<lparr>sdata = deltaWriteAll prev xs, slast = prev\<rparr> xs"
proof (induction xs arbitrary: prev)
  case Nil
  then show ?case by (simp add: streamNext_def deltaRead_def readUvarint_def)
next
  case (Cons x xs)
  then show ?case by (simp add: streamNext_def deltaRead_write)
qed

lemma yields_plain:
  "\<forall>x \<in> set xs. length x < 2 ^ 64 \<Longrightarrow> yields (streamNext False) \<lparr>sdata = concat (map EncodeBytes xs), slast = l\<rparr> xs"
proof (induction xs)
  case Nil
  then show ?case by (simp add: streamNext_def readUvarint_def)
next
  case (Cons x xs)
  then show ?case by (simp add: streamNext_def EncodeBytes_def unat_of_nat_64)
qed

section \<open>Sorting\<close>

abbreviation sortedBy :: "(bytes \<Rightarrow> bytes \<Rightarrow> bool) \<Rightarrow> bytes list \<Rightarrow> bool" where
  "sortedBy lt \<equiv> sorted_wrt (\<lambda>a b. \<not> lt b a)"

lemma mset_insertBy [simp]: "mset (insertBy lt x ys) = add_mset x (mset ys)"
  by (induction ys) auto

lemma mset_sortSlice [simp]: "mset (sortSlice lt xs) = mset xs"
  unfolding sortSlice_def by (induction xs) auto

text \<open>What an entry of the heap still has to deliver.\<close>

definition pendingItems :: "('s \<Rightarrow> (sortError + slice) \<times> 's) \<Rightarrow> 's heapEntry \<Rightarrow> bytes list" where
  "pendingItems nextFn h = hvalue h # (THE xs. yields nextFn (hstream h) xs)"

definition allItems :: "('s \<Rightarrow> (sortError + slice) \<times> 's) \<Rightarrow> 's heapEntry multiset \<Rightarrow> bytes multiset" where
  "allItems nextFn hs = (\<Sum>h \<in># hs. mset (pendingItems nextFn h))"

lemma pendingItems_eq: "yields nextFn (hstream h) xs \<Longrightarrow> pendingItems nextFn h = hvalue h # xs"
  unfolding pendingItems_def by (metis (mono_tags, lifting) the_equality yields_unique)

lemma allItems_simps [simp]:
  "allItems nextFn {#} = {#}" "allItems nextFn (add_mset h hs) = mset (pendingItems nextFn h) + allItems nextFn hs"
  by (simp_all add: allItems_def)

locale sort_order = weak_order lt ok for lt :: "bytes \<Rightarrow> bytes \<Rightarrow> bool" and ok :: "bytes \<Rightarrow> bool"

sublocale sort_order \<subseteq> ent: weak_order "entryLess lt" "\<lambda>h. ok (hvalue h)"
  by unfold_locales (use asym negtrans in blast)+

context sort_order
begin

lemma insertBy_sorted: "\<forall>y \<in> set (x # ys). ok y \<Longrightarrow> sortedBy lt ys \<Longrightarrow> sortedBy lt (insertBy lt x ys)"
proof (induction ys)
  case (Cons y ys)
  have s: "set (insertBy lt x ys) = insert x (set ys)" by (metis mset_insertBy set_mset_add_mset_insert set_mset_mset)
  have o: "ok x" "ok y" "\<forall>z \<in> set ys. ok z" using Cons.prems(1) by auto
  have y: "\<forall>z \<in> set ys. \<not> lt z y" "sortedBy lt ys" using Cons.prems(2) by auto
  show ?case
  proof (cases "lt y x")
    case True
    have "\<not> lt x y" by (rule asym [OF o(2,1) True])
    then have "\<forall>z \<in> set (insertBy lt x ys). \<not> lt z y" using y(1) s by simp
    moreover have "sortedBy lt (insertBy lt x ys)" using Cons.IH o y(2) by simp
    ultimately show ?thesis using True by simp
  next
    case False
    then have "\<forall>z \<in> set ys. \<not> lt z x" using negtrans [OF o(1,2)] o(3) y(1) by blast
    then show ?thesis using y False by simp
  qed
qed simp

lemma sortSlice_sorted: "\<forall>x \<in> set xs. ok x \<Longrightarrow> sortedBy lt (sortSlice lt xs)"
proof (induction xs)
  case (Cons x xs)
  have "set (sortSlice lt xs) = set xs" by (metis mset_sortSlice set_mset_mset)
  then show ?case using Cons insertBy_sorted [of x "sortSlice lt xs"] by (simp add: sortSlice_def)
qed (simp add: sortSlice_def)

definition goodEntry :: "('s \<Rightarrow> (sortError + slice) \<times> 's) \<Rightarrow> 's heapEntry \<Rightarrow> bool" where
  "goodEntry nextFn h \<longleftrightarrow> (\<exists>xs. yields nextFn (hstream h) xs \<and> sortedBy lt (hvalue h # xs) \<and> (\<forall>x \<in> set (hvalue h # xs). ok x))"

lemma goodEntry_ok: "goodEntry nextFn h \<Longrightarrow> ok (hvalue h)"
  by (auto simp: goodEntry_def)

lemma root_least:
  assumes heap: "ent.isHeap entries" and good: "\<forall>h \<in> set entries. goodEntry nextFn h" and y: "y \<in># allItems nextFn (mset entries)"
  shows "\<not> lt y (hvalue (entries ! 0)) \<and> ok y"
proof -
  obtain h where h: "h \<in> set entries" "y \<in> set (pendingItems nextFn h)" using y by (auto simp: allItems_def)
  obtain xs where xs: "yields nextFn (hstream h) xs" "sortedBy lt (hvalue h # xs)" "\<forall>x \<in> set (hvalue h # xs). ok x"
    using good h(1) by (auto simp: goodEntry_def)
  have mem: "y = hvalue h \<or> y \<in> set xs" using h(2) pendingItems_eq [OF xs(1)] by simp
  have oky: "ok y" "ok (hvalue h)" using mem xs(3) by auto
  have "\<not> lt y (hvalue h)" using mem xs(2) asym [OF oky(2,2)] by auto
  moreover obtain j where "j < length entries" "entries ! j = h" using h(1) by (auto simp: in_set_conv_nth)
  then have "\<not> lt (hvalue h) (hvalue (entries ! 0))" using ent.heap_root [OF heap] good goodEntry_ok by blast
  moreover have "ok (hvalue (entries ! 0))"
    using good h(1) goodEntry_ok by (metis length_greater_0_conv list.set_cases list.distinct(1) nth_mem)
  ultimately show ?thesis using negtrans oky by blast
qed

lemma mergeNext_good:
  assumes heap: "ent.isHeap entries" and good: "\<forall>h \<in> set entries. goodEntry nextFn h" and hd: "entries = h # tl entries"
  shows "\<exists>entries'. mergeNext nextFn lt entries = (Inr (Some (hvalue h)), entries') \<and> ent.isHeap entries' \<and>
    (\<forall>x \<in> set entries'. goodEntry nextFn x) \<and> allItems nextFn (mset entries) = add_mset (hvalue h) (allItems nextFn (mset entries'))"
proof -
  have ne: "entries \<noteq> []" and h_def: "h = entries ! 0" using hd by (auto, metis nth_Cons_0)
  have oks: "\<forall>x \<in> set entries. ok (hvalue x)" using good goodEntry_ok by blast
  have split: "mset entries = add_mset h (mset (tl entries))" using hd by (metis mset.simps(2))
  obtain xs where xs: "yields nextFn (hstream h) xs" "sortedBy lt (hvalue h # xs)" "\<forall>x \<in> set (hvalue h # xs). ok x"
    using good hd by (metis goodEntry_def list.set_intros(1))
  show ?thesis
  proof (cases xs)
    case Nil
    then have n: "fst (nextFn (hstream h)) = Inr None" using xs(1) by simp
    note r = ent.heap_remove [OF heap oks ne]
    have "mergeNext nextFn lt entries = (Inr (Some (hvalue h)), heapRemove (entryLess lt) 0 entries)"
      using n ne by (cases "nextFn (hstream h)") (simp add: mergeNext_def h_def [symmetric])
    moreover have "set (heapRemove (entryLess lt) 0 entries) = set (tl entries)" using r mset_eq_setD by blast
    then have "\<forall>x \<in> set (heapRemove (entryLess lt) 0 entries). goodEntry nextFn x"
      using good ne by (simp add: list.set_sel(2))
    moreover have "allItems nextFn (mset entries) = add_mset (hvalue h) (allItems nextFn (mset (heapRemove (entryLess lt) 0 entries)))"
      using split r pendingItems_eq [OF xs(1)] Nil by simp
    ultimately show ?thesis using r by blast
  next
    case (Cons v vs)
    then obtain s' where s': "nextFn (hstream h) = (Inr (Some v), s')" "yields nextFn s' vs" using xs(1) by auto
    let ?h = "\<lparr>hvalue = v, hstream = s'\<rparr>"
    have okv: "ok (hvalue ?h)" using xs(3) Cons by simp
    note r = ent.heap_replace [OF heap oks okv ne]
    have "mergeNext nextFn lt entries = (Inr (Some (hvalue h)), heapFix (entryLess lt) 0 (entries[0 := ?h]))"
      using s'(1) ne by (simp add: mergeNext_def h_def [symmetric])
    moreover have "set (heapFix (entryLess lt) 0 (entries[0 := ?h])) = insert ?h (set (tl entries))"
      using r by (metis set_mset_add_mset_insert set_mset_mset)
    moreover have "goodEntry nextFn ?h" using s'(2) xs(2,3) Cons by (auto simp: goodEntry_def)
    then have "\<forall>x \<in> insert ?h (set (tl entries)). goodEntry nextFn x" using good ne by (simp add: list.set_sel(2))
    moreover have "allItems nextFn (mset entries) = add_mset (hvalue h) (allItems nextFn (mset (heapFix (entryLess lt) 0 (entries[0 := ?h]))))"
      using split r pendingItems_eq [OF xs(1)] pendingItems_eq [of nextFn ?h vs] s'(2) Cons by simp
    ultimately show ?thesis using r by metis
  qed
qed

lemma readAll_sorted:
  "ent.isHeap entries \<Longrightarrow> \<forall>h \<in> set entries. goodEntry nextFn h \<Longrightarrow>
   \<exists>out. readAll nextFn lt entries = Some (Inr out) \<and> sortedBy lt out \<and> mset out = allItems nextFn (mset entries)"
proof (induction "size (allItems nextFn (mset entries))" arbitrary: entries rule: less_induct)
  case less
  note heap = less.prems(1) and good = less.prems(2)
  show ?case
  proof (cases "entries = []")
    case True
    then show ?thesis by (subst readAll.simps) (simp add: mergeNext_def)
  next
    case False
    then obtain h where hd: "entries = h # tl entries" by (cases entries) auto
    then have h0: "h = entries ! 0" by (metis nth_Cons_0)
    obtain entries' where e': "mergeNext nextFn lt entries = (Inr (Some (hvalue h)), entries')" "ent.isHeap entries'"
      "\<forall>x \<in> set entries'. goodEntry nextFn x" "allItems nextFn (mset entries) = add_mset (hvalue h) (allItems nextFn (mset entries'))"
      using mergeNext_good [OF heap good hd] by blast
    have "size (allItems nextFn (mset entries')) < size (allItems nextFn (mset entries))" using e'(4) by simp
    from less.hyps [OF this e'(2,3)]
    obtain out where out: "readAll nextFn lt entries' = Some (Inr out)" "sortedBy lt out" "mset out = allItems nextFn (mset entries')" by blast
    have "\<not> lt y (hvalue h)" if "y \<in> set out" for y
    proof -
      have "y \<in># allItems nextFn (mset entries)" using that out(3) e'(4) by (metis insert_iff set_mset_add_mset_insert set_mset_mset)
      then show ?thesis using root_least [OF heap good] h0 by blast
    qed
    then have "sortedBy lt (hvalue h # out)" using out(2) by simp
    moreover have "readAll nextFn lt entries = Some (Inr (hvalue h # out))" using e'(1) out(1) by (subst readAll.simps) simp
    ultimately show ?thesis using out(3) e'(4) by (intro exI [of _ "hvalue h # out"]) simp
  qed
qed

lemma heapEntries_good:
  assumes "list_all2 (\<lambda>s xs. yields nextFn s xs \<and> sortedBy lt xs \<and> (\<forall>x \<in> set xs. ok x)) streams xss"
  shows "\<exists>entries. heapEntries nextFn streams = Inr entries \<and> (\<forall>h \<in> set entries. goodEntry nextFn h) \<and>
    allItems nextFn (mset entries) = mset (concat xss)"
  using assms
proof (induction rule: list_all2_induct)
  case (Cons s ss xs xss)
  then obtain entries where e: "heapEntries nextFn ss = Inr entries" "\<forall>h \<in> set entries. goodEntry nextFn h"
    "allItems nextFn (mset entries) = mset (concat xss)" by blast
  show ?case
  proof (cases xs)
    case Nil
    then have "newHeapEntry nextFn s = Inr None" using Cons(1) by (cases "nextFn s") (auto simp: newHeapEntry_def)
    then show ?thesis using e Nil by simp
  next
    case (Cons v vs)
    then obtain s' where s': "nextFn s = (Inr (Some v), s')" "yields nextFn s' vs" using \<open>yields nextFn s xs \<and> _\<close> by auto
    let ?h = "\<lparr>hvalue = v, hstream = s'\<rparr>"
    have "newHeapEntry nextFn s = Inr (Some ?h)" using s'(1) by (simp add: newHeapEntry_def)
    moreover have "goodEntry nextFn ?h" using s'(2) \<open>yields nextFn s xs \<and> _\<close> Cons by (auto simp: goodEntry_def)
    moreover have "pendingItems nextFn ?h = v # vs" using pendingItems_eq [of nextFn ?h vs] s'(2) by simp
    ultimately show ?thesis using e Cons by simp
  qed
qed simp

lemma merge_sorted:
  assumes "list_all2 (\<lambda>s xs. yields nextFn s xs \<and> sortedBy lt xs \<and> (\<forall>x \<in> set xs. ok x)) streams xss"
  shows "\<exists>entries out. NewMultiWayMerge nextFn lt streams = Inr entries \<and> readAll nextFn lt entries = Some (Inr out) \<and>
    sortedBy lt out \<and> mset out = mset (concat xss)"
proof -
  obtain es where es: "heapEntries nextFn streams = Inr es" "\<forall>h \<in> set es. goodEntry nextFn h" "allItems nextFn (mset es) = mset (concat xss)"
    using heapEntries_good [OF assms] by blast
  have oks: "\<forall>h \<in> set es. ok (hvalue h)" using es(2) goodEntry_ok by blast
  let ?hs = "heapInit (entryLess lt) es"
  have h: "ent.isHeap ?hs" "mset ?hs = mset es" using ent.heapInit_heap [OF oks] by auto
  have "\<forall>h \<in> set ?hs. goodEntry nextFn h" using es(2) mset_eq_setD [OF h(2)] by simp
  from readAll_sorted [OF h(1) this] show ?thesis using es h(2) by (auto simp: NewMultiWayMerge_def)
qed

lemma chunk_yields:
  assumes "\<forall>x \<in> set chunk. ok x \<and> length x < 2 ^ 64" "soLess opts = lt" "soSnappy opts \<Longrightarrow> \<forall>bz. snDecompress sn (snCompress sn bz) = bz"
  shows "yields (streamNext (soDelta opts))
      \<lparr>sdata = (if soSnappy opts then snDecompress sn (sortAndSaveChunk sn opts chunk) else sortAndSaveChunk sn opts chunk), slast = []\<rparr>
      (sortSlice lt chunk) \<and> sortedBy lt (sortSlice lt chunk) \<and> (\<forall>x \<in> set (sortSlice lt chunk). ok x)"
proof -
  have st: "set (sortSlice lt chunk) = set chunk" by (metis mset_sortSlice set_mset_mset)
  then have b: "\<forall>x \<in> set (sortSlice lt chunk). length x < 2 ^ 64" "\<forall>x \<in> set (sortSlice lt chunk). ok x" using assms(1) by auto
  have "sortedBy lt (sortSlice lt chunk)" using sortSlice_sorted assms(1) by blast
  then show ?thesis
    using b assms(2,3) yields_delta [OF b(1), of "[]"] yields_plain [OF b(1)]
    by (cases "soDelta opts"; cases "soSnappy opts") (simp_all add: sortAndSaveChunk_def Let_def)
qed

text \<open>The sorter after some items: its files are sorted chunks, and chunks and the current one together are the items.\<close>

definition fed :: "snappyOps \<Rightarrow> sortOptions \<Rightarrow> bytes list \<Rightarrow> extSorter \<Rightarrow> bool" where
  "fed sn opts items s \<longleftrightarrow> (\<exists>chunks. chunkFiles s = map (sortAndSaveChunk sn opts) chunks \<and>
     mset items = mset (concat chunks) + mset (currentChunk s) \<and> 0 \<le> currentChunkSize s \<and> (currentChunkSize s = 0 \<longrightarrow> currentChunk s = []))"

lemma fed_rotate: "fed sn opts items s \<Longrightarrow> fed sn opts items (sortChunkAndRotate sn opts s)"
proof -
  assume "fed sn opts items s"
  then obtain chunks where c: "chunkFiles s = map (sortAndSaveChunk sn opts) chunks" "mset items = mset (concat chunks) + mset (currentChunk s)"
    by (auto simp: fed_def)
  show ?thesis unfolding fed_def by (rule exI [of _ "chunks @ [currentChunk s]"]) (simp add: sortChunkAndRotate_def c)
qed

lemma Feed_fed:
  assumes "fed sn opts items s" "length x \<le> 0xffffffff"
  shows "\<exists>s'. Feed sn opts x s = (Inr (), s') \<and> fed sn opts (items @ [x]) s'"
proof -
  let ?s = "s\<lparr>currentChunkSize := currentChunkSize s + int (length x) + 4, currentChunk := currentChunk s @ [x]\<rparr>"
  have "fed sn opts (items @ [x]) ?s" using assms(1) by (auto simp: fed_def)
  moreover from this have "fed sn opts (items @ [x]) (sortChunkAndRotate sn opts ?s)" by (rule fed_rotate)
  ultimately show ?thesis using assms(2) by (simp add: Feed_def Let_def)
qed

lemma Feed_all:
  "fed sn opts items s \<Longrightarrow> \<forall>x \<in> set input. length x \<le> 0xffffffff \<Longrightarrow>
   \<exists>s'. forEach (Feed sn opts) input s = (Inr (), s') \<and> fed sn opts (items @ input) s'"
proof (induction input arbitrary: items s)
  case (Cons x xs)
  obtain s1 where s1: "Feed sn opts x s = (Inr (), s1)" "fed sn opts (items @ [x]) s1" using Feed_fed [OF Cons.prems(1), of x] Cons.prems(2) by auto
  then show ?case using Cons.IH [OF s1(2)] Cons.prems(2) by (simp add: thenDo_def)
qed simp

lemma Spawn_sorts:
  assumes items: "\<forall>x \<in> set input. ok x \<and> length x \<le> 0xffffffff" and lt: "soLess opts = lt"
    and sn: "soSnappy opts \<Longrightarrow> \<forall>bz. snDecompress sn (snCompress sn bz) = bz"
  shows "\<exists>out. Spawn sn opts input = Some (Inr out) \<and> sortedBy lt out \<and> mset out = mset input"
proof -
  have "fed sn opts [] newSorter" by (simp add: fed_def newSorter_def)
  then obtain s where s: "forEach (Feed sn opts) input newSorter = (Inr (), s)" "fed sn opts input s"
    using Feed_all [of sn opts "[]" newSorter input] items by auto
  define s1 where "s1 = (if 0 < currentChunkSize s then sortChunkAndRotate sn opts s else s)"
  have f1: "fed sn opts input s1" using s(2) fed_rotate by (simp add: s1_def)
  have "currentChunk s1 = []" using s(2) by (auto simp: s1_def fed_def sortChunkAndRotate_def)
  then obtain chunks where c: "chunkFiles s1 = map (sortAndSaveChunk sn opts) chunks" "mset input = mset (concat chunks)"
    using f1 by (auto simp: fed_def)
  have "set (concat chunks) = set input" using mset_eq_setD [OF c(2)] by simp
  then have oks: "\<forall>x \<in> set chunk. ok x \<and> length x < 2 ^ 64" if "chunk \<in> set chunks" for chunk
  proof -
    have "\<forall>x \<in> set chunk. x \<in> set input" using that \<open>set (concat chunks) = set input\<close> by auto
    moreover have "length x < 2 ^ 64" if "length x \<le> 0xffffffff" for x :: bytes using that by simp
    ultimately show ?thesis using items by blast
  qed
  let ?streams = "map (\<lambda>f. \<lparr>sdata = (if soSnappy opts then snDecompress sn f else f), slast = []\<rparr>) (chunkFiles s1)"
  have "list_all2 (\<lambda>s xs. yields (streamNext (soDelta opts)) s xs \<and> sortedBy lt xs \<and> (\<forall>x \<in> set xs. ok x))
      ?streams (map (sortSlice lt) chunks)"
    unfolding c(1) list_all2_map1 list_all2_map2 by (rule list.rel_refl_strong) (rule chunk_yields [OF oks lt sn])
  from merge_sorted [OF this] obtain entries out where
    "NewMultiWayMerge (streamNext (soDelta opts)) lt ?streams = Inr entries" "readAll (streamNext (soDelta opts)) lt entries = Some (Inr out)"
    "sortedBy lt out" "mset out = mset (concat (map (sortSlice lt) chunks))" by blast
  moreover have "mset (concat (map (sortSlice lt) chunks)) = mset (concat chunks)" by (induction chunks) simp_all
  ultimately show ?thesis using s(1) c(2) lt by (simp add: Spawn_def Finalize_def s1_def [symmetric])
qed

end

section \<open>Properties\<close>

text \<open>C32: delta encoding round trip. The keys written by a \<open>DeltaEncoder\<close> are read back by a \<open>DeltaDecoder\<close>, one after the other,
  followed by the end of the stream.\<close>

theorem delta_roundtrip:
  assumes "\<forall>key \<in> set items. length key < 2 ^ 64"
  shows "yields (streamNext True) \<lparr>sdata = deltaWriteAll [] items, slast = []\<rparr> items"
  by (rule yields_delta [OF assms]) simp

theorem delta_roundtrip_witness: "yields (streamNext True) \<lparr>sdata = deltaWriteAll [] [[1, 2], [1, 2, 3], [7]], slast = []\<rparr> [[1, 2], [1, 2, 3], [7]]"
  using delta_roundtrip [of "[[1, 2], [1, 2, 3], [7]]"] by simp

end
