(* ===== verification/TsKeys.thy ===== *)
theory TsKeys
  imports Iter
begin

text \<open>
  Keys of the version database, \<open>versiondb/tsrocksdb/comparator.go\<close> and the helpers of \<open>versiondb/tsrocksdb/store.go\<close>: a key of a
  store is its prefix \<open>s/k:<store>/\<close> followed by the user key, and an internal key ends with the version as a
  timestamp. \<open>None\<close> is a panic; a nil bound is the inner \<open>None\<close>.
\<close>

section \<open>Comparator\<close>

definition TimestampSize :: nat where "TimestampSize = 8"

definition compareTS :: "bytes \<Rightarrow> bytes \<Rightarrow> int option" where
  "compareTS bz1 bz2 =
     do {
       ts1 \<leftarrow> getU64 bz1;
       ts2 \<leftarrow> getU64 bz2;
       Some (if ts1 < ts2 then -1 else if ts2 < ts1 then 1 else 0)
     }"

definition withoutTS :: "bytes \<Rightarrow> bool \<Rightarrow> bytes option" where
  "withoutTS a hasTS =
     (if hasTS then (if length a < TimestampSize then None else sliceAt a 0 (length a - TimestampSize)) else Some a)"

definition compareWithoutTS :: "bytes \<Rightarrow> bool \<Rightarrow> bytes \<Rightarrow> bool \<Rightarrow> int option" where
  "compareWithoutTS a aHasTS b bHasTS =
     do { a' \<leftarrow> withoutTS a aHasTS; b' \<leftarrow> withoutTS b bHasTS; Some (bytesCompare a' b') }"

definition compareKeys :: "bytes \<Rightarrow> bytes \<Rightarrow> int option" where
  "compareKeys a b =
     do {
       ret \<leftarrow> compareWithoutTS a True b True;
       if ret \<noteq> 0 then Some ret
       else do {
         c \<leftarrow> compareTS (drop (length a - TimestampSize) a) (drop (length b - TimestampSize) b);
         Some (- c)
       }
     }"

section \<open>Prefixes\<close>

definition strBytes :: "string \<Rightarrow> bytes" where
  "strBytes s = map (\<lambda>c. of_char c) s"

definition storePrefix :: "string \<Rightarrow> bytes" where
  "storePrefix storeKey = strBytes (''s/k:'' @ storeKey @ ''/'')"

definition prependStoreKey :: "string \<Rightarrow> bytes \<Rightarrow> bytes" where
  "prependStoreKey storeKey key = storePrefix storeKey @ key"

definition cloneAppend :: "bytes \<Rightarrow> bytes \<Rightarrow> bytes" where
  "cloneAppend bz tail = bz @ tail"

text \<open>The loop of \<open>cpIncr\<close> from the last byte to the first.\<close>

fun incrRev :: "bytes \<Rightarrow> slice" where
  "incrRev [] = None"
| "incrRev (b # bs) = (if b < 0xff then Some ((b + 1) # bs) else map_option (Cons 0) (incrRev bs))"

definition cpIncr :: "bytes \<Rightarrow> slice option" where
  "cpIncr bz = (if bz = [] then None else Some (map_option rev (incrRev (rev bz))))"

definition iterateWithPrefix :: "bytes \<Rightarrow> slice \<Rightarrow> slice \<Rightarrow> (slice \<times> slice) option" where
  "iterateWithPrefix prefix lower upper =
     (if prefix = [] then Some (lower, upper)
      else
        (let b = cloneAppend prefix (case lower of None \<Rightarrow> [] | Some x \<Rightarrow> x) in
         case upper of
           None \<Rightarrow> map_option (\<lambda>e. (Some b, e)) (cpIncr prefix)
         | Some e \<Rightarrow> Some (Some b, Some (cloneAppend prefix e))))"

section \<open>Order of the internal keys\<close>

lemma compareKeys_append:
  "compareKeys (k1 @ putU64 t1) (k2 @ putU64 t2) =
     Some (if k1 < k2 then -1 else if k2 < k1 then 1 else if t1 < t2 then 1 else if t2 < t1 then -1 else 0)"
proof -
  have w: "compareWithoutTS (k1 @ putU64 t1) True (k2 @ putU64 t2) True = Some (bytesCompare k1 k2)"
    by (simp add: compareWithoutTS_def withoutTS_def TimestampSize_def sliceAt_def)
  consider "k1 < k2" | "k2 < k1" | "k1 = k2" by fastforce
  then show ?thesis
  proof cases
    case 1
    then have "bytesCompare k1 k2 = -1" by (simp add: compare_simps)
    then show ?thesis using 1 w by (simp add: compareKeys_def)
  next
    case 2
    then have "bytesCompare k1 k2 = 1" by (simp add: compare_simps)
    then show ?thesis using 2 w by (simp add: compareKeys_def)
  next
    case 3
    then have "bytesCompare k1 k2 = 0" by (simp add: compare_simps)
    then show ?thesis using 3 w by (auto simp: compareKeys_def compareTS_def TimestampSize_def)
  qed
qed

section \<open>Ranges\<close>

lemma append_less_append [simp]: "(p @ a < p @ (b :: bytes)) = (a < b)"
  by (induction p) simp_all

lemma append_le_append [simp]: "(p @ a \<le> p @ (b :: bytes)) = (a \<le> b)"
  by (metis append_less_append linorder_not_less)

lemma prefix_le: "p \<le> p @ (b :: bytes)"
  using append_le_append [of p "[]" b] by simp

lemma byte_succ:
  assumes "(b :: byte) < 0xff"
  shows "b < b + 1" "c < b + 1 \<longleftrightarrow> c \<le> b"
proof -
  have "unat b < 255" using assms by (simp add: word_less_nat_alt)
  then have "unat (b + 1) = unat b + 1" by (simp add: unat_word_ariths)
  then show "b < b + 1" "c < b + 1 \<longleftrightarrow> c \<le> b" by (simp_all add: word_less_nat_alt word_le_nat_alt less_Suc_eq_le)
qed

text \<open>A prefix whose last byte can be incremented: the keys below the result are those below the prefix and its extensions.\<close>

lemma incr_less: "(b :: byte) < 0xff \<Longrightarrow> k < p @ [b + 1] \<longleftrightarrow> k < p @ [b] \<or> (\<exists>s. k = p @ b # s)"
proof (induction p arbitrary: k)
  case Nil
  then show ?case by (cases k) (auto simp: byte_succ dest: order_le_imp_less_or_eq)
next
  case (Cons a p)
  show ?case
  proof (cases k)
    case (Cons c k')
    then show ?thesis using Cons.IH [OF Cons.prems, of k'] by auto
  qed simp
qed

lemma cpIncr_snoc: "b < 0xff \<Longrightarrow> cpIncr (p @ [b]) = Some (Some (p @ [b + 1]))"
  by (simp add: cpIncr_def)

lemma between_prefix: "p @ a \<le> k \<Longrightarrow> k < p @ (b :: bytes) \<Longrightarrow> \<exists>s. k = p @ s"
proof (induction p arbitrary: k)
  case (Cons x p)
  then obtain y k' where k: "k = y # k'" by (cases k) auto
  then have "y = x" "p @ a \<le> k'" "k' < p @ b" using Cons.prems by (auto split: if_splits)
  then show ?case using Cons.IH [of k'] k by auto
qed simp

lemma iterateWithPrefix_range:
  assumes "b < 0xff"
  shows "\<exists>lo hi. iterateWithPrefix (p @ [b]) start stop = Some (lo, hi) \<and>
    (\<forall>k. inDomain lo hi k \<longleftrightarrow> (\<exists>s. k = p @ b # s \<and> inDomain start stop s))"
proof -
  let ?q = "p @ [b]" and ?s = "case start of None \<Rightarrow> [] | Some x \<Rightarrow> x"
  have s: "(case start of None \<Rightarrow> True | Some x \<Rightarrow> x \<le> s) \<longleftrightarrow> ?s \<le> s" for s
    by (cases start) simp_all
  show ?thesis
  proof (cases stop)
    case None
    have "?q @ ?s \<le> k \<and> k < p @ [b + 1] \<longleftrightarrow> (\<exists>s. k = p @ b # s \<and> ?s \<le> s)" for k
    proof -
      have "?q @ ?s \<le> k \<Longrightarrow> \<not> k < ?q" using prefix_le [of ?q ?s] by (meson leD le_less_trans)
      moreover have "?q @ ?s \<le> ?q @ s \<longleftrightarrow> ?s \<le> s" for s by (rule append_le_append)
      ultimately show ?thesis using incr_less [OF assms, of k p] by auto
    qed
    then show ?thesis using None assms by (simp add: iterateWithPrefix_def cpIncr_snoc cloneAppend_def inDomain_def s)
  next
    case (Some e)
    have "?q @ ?s \<le> k \<and> k < ?q @ e \<longleftrightarrow> (\<exists>s. k = ?q @ s \<and> ?s \<le> s \<and> s < e)" for k
      using between_prefix [of ?q ?s k e] append_le_append [of ?q] append_less_append [of ?q] by blast
    then show ?thesis using Some by (simp add: iterateWithPrefix_def cloneAppend_def inDomain_def s)
  qed
qed

lemma storePrefix_snoc: "storePrefix name = strBytes (''s/k:'' @ name) @ [of_char (CHR ''/'')]"
  by (simp add: storePrefix_def strBytes_def)

lemma storePrefix_last: "of_char (CHR ''/'') < (0xff :: byte)"
  by simp

lemma storePrefix_range:
  "\<exists>lo hi. iterateWithPrefix (storePrefix name) start stop = Some (lo, hi) \<and>
    (\<forall>k. inDomain lo hi k \<longleftrightarrow> (\<exists>s. k = storePrefix name @ s \<and> inDomain start stop s))"
  using iterateWithPrefix_range [OF storePrefix_last, of "strBytes (''s/k:'' @ name)" start stop] unfolding storePrefix_snoc by simp

end
