(* ===== verification/ConvertSST.thy ===== *)
theory ConvertSST
  imports ChangeSetFile ExtSort TsKeys
begin

text \<open>
  Building SST files from change sets, \<open>client/changeset/convert_to_sst.go\<close>: every pair becomes an item that starts with the key and
  the version; the external sorter orders the items by key and by descending version; the sorted items are
  written to SST files that are only split between different keys. The SST writer of RocksDB is a parameter.
  A panic, of a slice expression or in the sorting goroutine, is \<open>ConvPanic\<close>.
\<close>

section \<open>Sorter items\<close>

definition SizeKeyLength :: nat where "SizeKeyLength = 4"

definition sizeOfSorterItem :: "kvPair \<Rightarrow> nat" where
  "sizeOfSorterItem pair =
     (let n = length (kvKey pair) + TimestampSize + 1 + SizeKeyLength
      in if \<not> kvDelete pair then n + length (valueOf pair) else n)"

definition encodeSorterItem :: "u64 \<Rightarrow> kvPair \<Rightarrow> bytes option" where
  "encodeSorterItem version pair =
     do {
       let item = replicate (sizeOfSorterItem pair) 0;
       item \<leftarrow> copyAt 0 (kvKey pair) item;
       let offset = length (kvKey pair);
       item \<leftarrow> copyAt offset (putU64 version) item;
       let offset = offset + TimestampSize;
       (item, offset) \<leftarrow>
         (if kvDelete pair then Some (item[offset := 1], offset + 1)
          else map_option (\<lambda>i. (i, offset + length (valueOf pair) + 1)) (copyAt (offset + 1) (valueOf pair) item));
       copyAt offset (putU32 (of_nat (length (kvKey pair)))) item
     }"

definition itemKeyLen :: "bytes \<Rightarrow> u32 option" where
  "itemKeyLen item = (if length item < SizeKeyLength then None else getU32 (drop (length item - SizeKeyLength) item))"

definition decodeSorterItem :: "bytes \<Rightarrow> (bytes \<times> kvPair) option" where
  "decodeSorterItem item =
     do {
       keyLen \<leftarrow> itemKeyLen item;
       key \<leftarrow> sliceAt item 0 (unat keyLen);
       let offset = keyLen;
       version \<leftarrow> sliceAt item (unat offset) (unat (offset + of_nat TimestampSize));
       let offset = offset + of_nat TimestampSize;
       if length item \<le> unat offset then None
       else if item ! unat offset = 1 then Some (version, \<lparr>kvDelete = True, kvKey = key, kvValue = None\<rparr>)
       else do {
         value \<leftarrow> sliceAt item (unat (offset + 1)) (length item - SizeKeyLength);
         Some (version, \<lparr>kvDelete = False, kvKey = key, kvValue = Some value\<rparr>)
       }
     }"

definition compareSorterItem :: "bytes \<Rightarrow> bytes \<Rightarrow> bool option" where
  "compareSorterItem a b =
     do {
       aKeyLen \<leftarrow> itemKeyLen a;
       bKeyLen \<leftarrow> itemKeyLen b;
       ka \<leftarrow> sliceAt a 0 (unat aKeyLen);
       kb \<leftarrow> sliceAt b 0 (unat bKeyLen);
       let ret = bytesCompare ka kb;
       if ret \<noteq> 0 then Some (ret = -1)
       else do {
         aVersion \<leftarrow> getU64 (drop (unat aKeyLen) a);
         bVersion \<leftarrow> getU64 (drop (unat bKeyLen) b);
         Some (bVersion < aVersion)
       }
     }"

text \<open>The comparison handed to the sorter; on the items made by \<open>encodeSorterItem\<close> it does not panic.\<close>

definition sorterLess :: "bytes \<Rightarrow> bytes \<Rightarrow> bool" where
  "sorterLess a b \<longleftrightarrow> compareSorterItem a b = Some True"

section \<open>Conversion\<close>

definition scanChangeSetFiles :: "decoders \<Rightarrow> (string \<times> bytes) list option \<Rightarrow> csError + fileWithVersion list" where
  "scanChangeSetFiles dec dir = (case dir of None \<Rightarrow> Inr [] | Some entries \<Rightarrow> SortFilesByFirstVerson dec entries)"

definition sstFileName :: "string \<Rightarrow> nat \<Rightarrow> string" where
  "sstFileName store seq = store @ ''-'' @ decDigits seq @ ''.sst''"

record ('w, 'e) sstOps =
  sstOpen :: "string \<Rightarrow> ('w, 'e, unit) action"
  sstPut :: "bytes \<Rightarrow> bytes \<Rightarrow> bytes \<Rightarrow> ('w, 'e, unit) action"
  sstDelete :: "bytes \<Rightarrow> bytes \<Rightarrow> ('w, 'e, unit) action"
  sstFinish :: "('w, 'e, unit) action"
  sstFileSize :: "'w \<Rightarrow> u64"

datatype 'e convError = ConvFile csError | ConvPanic | SstError 'e

definition viaSst :: "('w, 'e, 'a) action \<Rightarrow> ('w, 'e convError, 'a) action" where
  "viaSst f w = (case f w of (Inl e, w') \<Rightarrow> (Inl (SstError e), w') | (Inr x, w') \<Rightarrow> (Inr x, w'))"

text \<open>The callback on a change set: its pairs are sent to the sorter.\<close>

fun sorterItems :: "u64 \<Rightarrow> changeSet \<Rightarrow> bytes list option" where
  "sorterItems version [] = Some []"
| "sorterItems version (pair # pairs) =
     do { item \<leftarrow> encodeSorterItem version pair; items \<leftarrow> sorterItems version pairs; Some (item # items) }"

definition sendItems :: "u64 \<Rightarrow> changeSet \<Rightarrow> (bytes list, unit, bool) action" where
  "sendItems version cs sent =
     (case sorterItems version cs of None \<Rightarrow> (Inl (), sent) | Some items \<Rightarrow> (Inr True, sent @ items))"

fun feedFiles :: "decoders \<Rightarrow> fileWithVersion list \<Rightarrow> (bytes list, csError + unit, unit) action" where
  "feedFiles dec [] sent = (Inr (), sent)"
| "feedFiles dec ((f, v) # files) sent =
     thenDo
       (withChangeSetFile dec f (\<lambda>bs sent.
          case IterateChangeSets sendItems bs sent of
            ((_, Some e), sent') \<Rightarrow> (Inl e, sent')
          | ((_, None), sent') \<Rightarrow> (Inr (), sent')))
       (\<lambda>_. feedFiles dec files) sent"

definition sstWrite :: "('w, 'e) sstOps \<Rightarrow> bytes \<Rightarrow> bytes \<Rightarrow> kvPair \<Rightarrow> ('w, 'e convError, unit) action" where
  "sstWrite ops pre ts pair =
     (let key = cloneAppend pre (kvKey pair)
      in viaSst (if kvDelete pair then sstDelete ops key ts else sstPut ops key ts (valueOf pair)))"

fun writeSST :: "('w, 'e) sstOps \<Rightarrow> string \<Rightarrow> u64 \<Rightarrow> bytes \<Rightarrow> bytes list \<Rightarrow> nat \<Rightarrow> bytes \<Rightarrow> ('w, 'e convError, unit) action" where
  "writeSST ops store sstFileSz pre [] sstSeq lastKey w = (Inr (), w)"
| "writeSST ops store sstFileSz pre (item # items) sstSeq lastKey w =
     (case decodeSorterItem item of
        None \<Rightarrow> (Inl ConvPanic, w)
      | Some (ts, pair) \<Rightarrow>
          (let rotate = (sstFileSz \<le> sstFileSize ops w \<and> lastKey \<noteq> kvKey pair) in
           thenDo
             (if rotate then thenDo (viaSst (sstFinish ops)) (\<lambda>_. viaSst (sstOpen ops (sstFileName store sstSeq))) else (\<lambda>w. (Inr (), w)))
             (\<lambda>_. thenDo (sstWrite ops pre ts pair)
               (\<lambda>_. writeSST ops store sstFileSz pre items (if rotate then sstSeq + 1 else sstSeq) (kvKey pair))) w))"

definition sorterOptions :: "int \<Rightarrow> sortOptions" where
  "sorterOptions sorterChunkSize = \<lparr>soDelta = True, soSnappy = True, soMaxChunk = sorterChunkSize, soLess = sorterLess\<rparr>"

definition convertSingleStore ::
  "snappyOps \<Rightarrow> decoders \<Rightarrow> ('w, 'e) sstOps \<Rightarrow> string \<Rightarrow> (string \<times> bytes) list option \<Rightarrow> u64 \<Rightarrow> int \<Rightarrow> 'w \<Rightarrow> (('e convError + unit) \<times> 'w) option" where
  "convertSingleStore sn dec ops store dir sstFileSz sorterChunkSize w =
     (case scanChangeSetFiles dec dir of
        Inl e \<Rightarrow> Some (Inl (ConvFile e), w)
      | Inr csFiles \<Rightarrow>
          if csFiles = [] then Some (Inr (), w)
          else
            (case feedFiles dec csFiles [] of
               (Inl (Inl e), _) \<Rightarrow> Some (Inl (ConvFile e), w)
             | (Inl (Inr _), _) \<Rightarrow> Some (Inl ConvPanic, w)
             | (Inr _, sent) \<Rightarrow>
                 if sent = [] then Some (Inr (), w)
                 else
                   Option.bind (Spawn sn (sorterOptions sorterChunkSize) sent) (\<lambda>r.
                     case r of
                       Inl e \<Rightarrow> Some (Inl ConvPanic, w)
                     | Inr items \<Rightarrow>
                         Some (thenDo (viaSst (sstOpen ops (sstFileName store 0)))
                           (\<lambda>_. thenDo (writeSST ops store sstFileSz (storePrefix store) items 1 [])
                             (\<lambda>_. viaSst (sstFinish ops))) w))))"

section \<open>Items\<close>

definition itemBytes :: "u64 \<Rightarrow> kvPair \<Rightarrow> bytes" where
  "itemBytes version pair =
     kvKey pair @ putU64 version @ (if kvDelete pair then [1] else 0 # valueOf pair) @ putU32 (of_nat (length (kvKey pair)))"

lemma encodeSorterItem_bytes: "encodeSorterItem version pair = Some (itemBytes version pair)"
proof -
  let ?k = "kvKey pair" and ?t = "putU64 version" and ?l = "putU32 (of_nat (length (kvKey pair)))"
  show ?thesis
  proof (cases "kvDelete pair")
    case True
    let ?n = "length ?k + 13"
    have b1: "copyAt 0 ?k ([] @ replicate ?n 0) = Some ([] @ ?k @ replicate (?n - length ?k) 0)"
      by (rule copyAt_fill) simp_all
    have b2: "copyAt (length ?k) ?t (?k @ replicate 13 0) = Some (?k @ ?t @ replicate (13 - length ?t) 0)"
      by (rule copyAt_fill) simp_all
    have u: "(?k @ ?t @ replicate 5 0)[length ?k + 8 := 1] = (?k @ ?t @ [1]) @ replicate 4 0"
      by (simp add: list_update_append eval_nat_numeral)
    have b3: "copyAt (length ?k + 9) ?l ((?k @ ?t @ [1]) @ replicate 4 0) = Some ((?k @ ?t @ [1]) @ ?l @ replicate (4 - length ?l) 0)"
      by (rule copyAt_fill) simp_all
    show ?thesis
      using True b1 b2 b3 u
      by (simp add: encodeSorterItem_def sizeOfSorterItem_def itemBytes_def TimestampSize_def SizeKeyLength_def Let_def add_ac)
  next
    case False
    let ?v = "valueOf pair"
    let ?n = "length ?k + 13 + length ?v"
    have b1: "copyAt 0 ?k ([] @ replicate ?n 0) = Some ([] @ ?k @ replicate (?n - length ?k) 0)"
      by (rule copyAt_fill) simp_all
    have b2: "copyAt (length ?k) ?t (?k @ replicate (13 + length ?v) 0) = Some (?k @ ?t @ replicate (13 + length ?v - length ?t) 0)"
      by (rule copyAt_fill) simp_all
    have r: "(?k @ ?t @ replicate (13 + length ?v - length ?t) 0) = (?k @ ?t @ [0 :: byte]) @ replicate (4 + length ?v) 0"
      by (simp flip: replicate_Suc)
    have b3: "copyAt (length ?k + 9) ?v ((?k @ ?t @ [0]) @ replicate (4 + length ?v) 0) =
        Some ((?k @ ?t @ [0]) @ ?v @ replicate (4 + length ?v - length ?v) 0)"
      by (rule copyAt_fill) simp_all
    have b4: "copyAt (length ?k + 9 + length ?v) ?l ((?k @ ?t @ 0 # ?v) @ replicate 4 0) = Some ((?k @ ?t @ 0 # ?v) @ ?l @ replicate (4 - length ?l) 0)"
      by (rule copyAt_fill) simp_all
    show ?thesis
      using False b1 b2 b3 b4 r
      by (simp add: encodeSorterItem_def sizeOfSorterItem_def itemBytes_def TimestampSize_def SizeKeyLength_def Let_def add_ac)
  qed
qed

lemma sorterItems_bytes: "sorterItems version cs = Some (map (itemBytes version) cs)"
  by (induction cs) (simp_all add: encodeSorterItem_bytes)

definition okPair :: "kvPair \<Rightarrow> bool" where
  "okPair pair \<longleftrightarrow> sizeOfSorterItem pair \<le> 0xffffffff"

lemma length_itemBytes: "length (itemBytes version pair) = sizeOfSorterItem pair"
  by (simp add: itemBytes_def sizeOfSorterItem_def TimestampSize_def SizeKeyLength_def)

lemma itemKeyLen_bytes: "itemKeyLen (itemBytes version pair) = Some (of_nat (length (kvKey pair)))"
  by (simp add: itemKeyLen_def itemBytes_def SizeKeyLength_def)

lemma okPair_key: "okPair pair \<Longrightarrow> length (kvKey pair) + 13 < 2 ^ 32"
  by (auto simp: okPair_def sizeOfSorterItem_def TimestampSize_def SizeKeyLength_def Let_def split: if_splits)

lemma decodeSorterItem_bytes:
  assumes "okPair pair"
  shows "decodeSorterItem (itemBytes version pair) = Some (putU64 version, normalPair pair)"
proof -
  let ?n = "of_nat (length (kvKey pair)) :: u32"
  note k = okPair_key [OF assms]
  have u: "unat ?n = length (kvKey pair)" using k by (intro unat_of_nat_32) simp
  have u8: "unat (?n + 8) = length (kvKey pair) + 8" "unat (?n + 9) = length (kvKey pair) + 9"
    using k unat_of_nat_32 [of "length (kvKey pair) + 8"] unat_of_nat_32 [of "length (kvKey pair) + 9"] by simp_all
  show ?thesis
    by (cases pair) (use u u8 in \<open>auto simp: decodeSorterItem_def itemKeyLen_bytes, auto simp: itemBytes_def normalPair_def
      sliceAt_def TimestampSize_def SizeKeyLength_def nth_append add.commute\<close>)
qed

lemma compareSorterItem_bytes:
  assumes "okPair p" "okPair q"
  shows "compareSorterItem (itemBytes v p) (itemBytes w q) = Some (kvKey p < kvKey q \<or> kvKey p = kvKey q \<and> w < v)"
proof -
  have u: "unat (of_nat (length (kvKey x)) :: u32) = length (kvKey x)" if "okPair x" for x
    using okPair_key [OF that] by (intro unat_of_nat_32) simp
  have s: "sliceAt (itemBytes t x) 0 (length (kvKey x)) = Some (kvKey x)" "getU64 (drop (length (kvKey x)) (itemBytes t x)) = Some t" for t x
    by (simp_all add: itemBytes_def sliceAt_def)
  have "compareSorterItem (itemBytes v p) (itemBytes w q) =
      Some (let ret = bytesCompare (kvKey p) (kvKey q) in if ret \<noteq> 0 then ret = -1 else w < v)"
    by (simp add: compareSorterItem_def itemKeyLen_bytes u [OF assms(1)] u [OF assms(2)] s Let_def)
  then show ?thesis by (simp add: compare_simps Let_def)
qed

definition okItem :: "bytes \<Rightarrow> bool" where
  "okItem item \<longleftrightarrow> (\<exists>v p. okPair p \<and> item = itemBytes v p)"

lemma sorterLess_bytes:
  "okPair p \<Longrightarrow> okPair q \<Longrightarrow> sorterLess (itemBytes v p) (itemBytes w q) \<longleftrightarrow> kvKey p < kvKey q \<or> kvKey p = kvKey q \<and> w < v"
  by (simp add: sorterLess_def compareSorterItem_bytes)

interpretation sorter: sort_order sorterLess okItem
  by unfold_locales (auto simp: okItem_def sorterLess_bytes)

section \<open>Feeding the sorter\<close>

lemma valueOf_normal [simp]: "kvDelete (normalPair pair) = kvDelete pair" "kvKey (normalPair pair) = kvKey pair"
  "\<not> kvDelete pair \<Longrightarrow> valueOf (normalPair pair) = valueOf pair"
  by (simp_all add: normalPair_def valueOf_def)

lemma itemBytes_normal [simp]: "itemBytes v (normalPair pair) = itemBytes v pair"
  by (simp add: itemBytes_def)

definition versionedPairs :: "(u64 \<times> changeSet) list \<Rightarrow> (u64 \<times> kvPair) list" where
  "versionedPairs blocks = concat (map (\<lambda>(v, cs). map (Pair v) cs) blocks)"

lemma versionedPairs_simps [simp]:
  "versionedPairs [] = []" "versionedPairs ((v, cs) # blocks) = map (Pair v) cs @ versionedPairs blocks"
  by (simp_all add: versionedPairs_def)

lemma callAll_sendItems:
  "\<exists>off'. callAll sendItems blocks off sent = ((off', None), sent @ map (case_prod itemBytes) (versionedPairs blocks))"
proof (induction blocks arbitrary: off sent)
  case (Cons b blocks)
  obtain v cs where b: "b = (v, cs)" by fastforce
  have "sendItems v (map normalPair cs) sent = (Inr True, sent @ map (itemBytes v) cs)"
    by (simp add: sendItems_def sorterItems_bytes comp_def)
  then show ?case using Cons.IH [of _ "sent @ map (itemBytes v) cs"] by (simp add: b Let_def comp_def)
qed simp

text \<open>A file that holds written change sets, possibly compressed.\<close>

definition holds :: "decoders \<Rightarrow> string \<times> bytes \<Rightarrow> (u64 \<times> changeSet) list \<Rightarrow> bool" where
  "holds dec f blocks \<longleftrightarrow> openChangeSetFile dec (fst f) (snd f) = Inr (fileOf blocks) \<and> (\<forall>b \<in> set blocks. csFits (snd b))"

lemma feedFiles_all:
  "list_all2 (\<lambda>f blocks. holds dec (fst f) blocks) files blockss \<Longrightarrow>
   feedFiles dec files sent = (Inr (), sent @ map (case_prod itemBytes) (versionedPairs (concat blockss)))"
proof (induction files blockss arbitrary: sent rule: list_all2_induct)
  case (Cons f files blocks blockss)
  obtain g v where f: "f = (g, v)" by fastforce
  have h: "openChangeSetFile dec (fst g) (snd g) = Inr (fileOf blocks)" "\<forall>b \<in> set blocks. csFits (snd b)"
    using Cons(1) f by (auto simp: holds_def)
  obtain off where "IterateChangeSets sendItems (fileOf blocks) sent = ((off, None), sent @ map (case_prod itemBytes) (versionedPairs blocks))"
    using callAll_sendItems [of blocks 0 sent] iterate_file [OF h(2), of sendItems 0 sent] unfolding IterateChangeSets_def by metis
  then show ?case using h(1) Cons.IH f by (simp add: withChangeSetFile_def thenDo_def versionedPairs_def)
qed simp

section \<open>Writing the files\<close>

type_synonym sstEntry = "bytes \<times> bytes \<times> slice"
type_synonym sstFiles = "(string \<times> sstEntry list) list"

text \<open>
  The SST writer as documented: entries are added to the open file in strictly ascending order of the internal
  keys, a file without entries cannot be finished, and the size of a new file is zero.
\<close>

definition sstLaws :: "('w, 'e) sstOps \<Rightarrow> ('w \<Rightarrow> sstFiles \<times> (string \<times> sstEntry list) option) \<Rightarrow> bool" where
  "sstLaws ops view \<longleftrightarrow>
     (\<forall>w fs name. view w = (fs, None) \<longrightarrow>
        (\<exists>w'. sstOpen ops name w = (Inr (), w') \<and> view w' = (fs, Some (name, [])) \<and> sstFileSize ops w' = 0)) \<and>
     (\<forall>w fs name es key ts v. view w = (fs, Some (name, es)) \<and>
        (es = [] \<or> compareKeys (fst (last es) @ fst (snd (last es))) (key @ ts) = Some (-1)) \<longrightarrow>
        (\<exists>w'. sstPut ops key ts v w = (Inr (), w') \<and> view w' = (fs, Some (name, es @ [(key, ts, Some v)]))) \<and>
        (\<exists>w'. sstDelete ops key ts w = (Inr (), w') \<and> view w' = (fs, Some (name, es @ [(key, ts, None)])))) \<and>
     (\<forall>w fs name es. view w = (fs, Some (name, es)) \<and> es \<noteq> [] \<longrightarrow>
        (\<exists>w'. sstFinish ops w = (Inr (), w') \<and> view w' = (fs @ [(name, es)], None)))"

definition sstEntryOf :: "bytes \<Rightarrow> u64 \<times> kvPair \<Rightarrow> sstEntry" where
  "sstEntryOf pre x = (pre @ kvKey (snd x), putU64 (fst x), if kvDelete (snd x) then None else Some (valueOf (snd x)))"

definition newerFirst :: "u64 \<times> kvPair \<Rightarrow> u64 \<times> kvPair \<Rightarrow> bool" where
  "newerFirst x y \<longleftrightarrow> kvKey (snd x) < kvKey (snd y) \<or> kvKey (snd x) = kvKey (snd y) \<and> fst y < fst x"

abbreviation entryBefore :: "sstEntry \<Rightarrow> sstEntry \<Rightarrow> bool" where
  "entryBefore a b \<equiv> compareKeys (fst a @ fst (snd a)) (fst b @ fst (snd b)) = Some (-1)"

lemma entryBefore_iff: "entryBefore (sstEntryOf pre x) (sstEntryOf pre y) \<longleftrightarrow> newerFirst x y"
  unfolding sstEntryOf_def newerFirst_def fst_conv snd_conv compareKeys_append by auto

lemma put_entry:
  assumes "sstLaws ops view" "view w = (fs, Some (name, es))" "es = [] \<or> entryBefore (last es) (sstEntryOf pre (v, p))"
  shows "\<exists>w'. sstWrite ops pre (putU64 v) (normalPair p) w = (Inr (), w') \<and>
    view w' = (fs, Some (name, es @ [sstEntryOf pre (v, p)]))"
proof -
  have "\<forall>w fs name es key ts v. view w = (fs, Some (name, es)) \<and>
        (es = [] \<or> compareKeys (fst (last es) @ fst (snd (last es))) (key @ ts) = Some (-1)) \<longrightarrow>
        (\<exists>w'. sstPut ops key ts v w = (Inr (), w') \<and> view w' = (fs, Some (name, es @ [(key, ts, Some v)]))) \<and>
        (\<exists>w'. sstDelete ops key ts w = (Inr (), w') \<and> view w' = (fs, Some (name, es @ [(key, ts, None)])))"
    using assms(1) unfolding sstLaws_def by blast
  note l = this [THEN spec, THEN spec, THEN spec, THEN spec, THEN spec, THEN spec, THEN spec, THEN mp,
      of w fs name es "pre @ kvKey p" "putU64 v" "valueOf p"]
  show ?thesis using l assms(2,3) by (auto simp: sstWrite_def viaSst_def cloneAppend_def sstEntryOf_def)
qed

lemma sst_open:
  assumes "sstLaws ops view" "view w = (fs, None)"
  shows "\<exists>w'. sstOpen ops name w = (Inr (), w') \<and> view w' = (fs, Some (name, [])) \<and> sstFileSize ops w' = 0"
  using assms(1) [unfolded sstLaws_def, THEN conjunct1, rule_format, OF assms(2)] .

lemma sst_finish:
  assumes "sstLaws ops view" "view w = (fs, Some (name, es))" "es \<noteq> []"
  shows "\<exists>w'. sstFinish ops w = (Inr (), w') \<and> view w' = (fs @ [(name, es)], None)"
  using assms(1) [unfolded sstLaws_def, THEN conjunct2, THEN conjunct2, rule_format] assms(2,3) by blast

lemma rotate_file:
  assumes "sstLaws ops view" "view w = (fs, Some (name, es))" "es \<noteq> []"
  shows "\<exists>w'. thenDo (viaSst (sstFinish ops)) (\<lambda>_. viaSst (sstOpen ops name')) w = (Inr (), w') \<and> view w' = (fs @ [(name, es)], Some (name', []))"
proof -
  obtain w1 where w1: "sstFinish ops w = (Inr (), w1)" "view w1 = (fs @ [(name, es)], None)"
    using sst_finish [OF assms] by blast
  moreover obtain w2 where "sstOpen ops name' w1 = (Inr (), w2)" "view w2 = (fs @ [(name, es)], Some (name', []))"
    using sst_open [OF assms(1) w1(2)] by blast
  ultimately show ?thesis by (simp add: thenDo_def viaSst_def)
qed

text \<open>All files, the open one last.\<close>

definition allFiles :: "sstFiles \<times> (string \<times> sstEntry list) option \<Rightarrow> sstFiles" where
  "allFiles v = fst v @ (case snd v of None \<Rightarrow> [] | Some f \<Rightarrow> [f])"

text \<open>The state in the loop: some entries have been written, the last of them with the key \<open>lastKey\<close>.\<close>

definition writing :: "('w \<Rightarrow> sstFiles \<times> (string \<times> sstEntry list) option) \<Rightarrow> string \<Rightarrow> bytes \<Rightarrow> sstFiles \<Rightarrow> (u64 \<times> kvPair) list \<Rightarrow> nat \<Rightarrow> 'w \<Rightarrow> bool" where
  "writing view store pre old written sstSeq w \<longleftrightarrow>
     (\<exists>fs name es. view w = (old @ fs, Some (name, es)) \<and> es \<noteq> [] \<and> written \<noteq> [] \<and> (\<forall>f \<in> set fs. snd f \<noteq> []) \<and>
        concat (map snd fs) @ es = map (sstEntryOf pre) written \<and>
        map fst (fs @ [(name, es)]) = map (sstFileName store) [0..<sstSeq] \<and>
        sorted_wrt (\<lambda>f g. \<forall>x \<in> set (snd f). \<forall>y \<in> set (snd g). fst x < fst y) (fs @ [(name, es)]))"

lemma writing_step:
  assumes laws: "sstLaws ops view" and wr: "writing view store pre old written sstSeq w"
    and new: "sorted_wrt newerFirst (written @ [(v, p)])" and okp: "okPair p"
  shows "\<exists>w'. writeSST ops store sz pre (itemBytes v p # items) sstSeq (kvKey (snd (last written))) w =
      writeSST ops store sz pre items (if sz \<le> sstFileSize ops w \<and> kvKey (snd (last written)) \<noteq> kvKey p then sstSeq + 1 else sstSeq) (kvKey p) w' \<and>
    writing view store pre old (written @ [(v, p)]) (if sz \<le> sstFileSize ops w \<and> kvKey (snd (last written)) \<noteq> kvKey p then sstSeq + 1 else sstSeq) w'"
proof -
  obtain fs name es where st: "view w = (old @ fs, Some (name, es))" "es \<noteq> []" "written \<noteq> []" "\<forall>f \<in> set fs. snd f \<noteq> []"
    "concat (map snd fs) @ es = map (sstEntryOf pre) written" "map fst (fs @ [(name, es)]) = map (sstFileName store) [0..<sstSeq]"
    "sorted_wrt (\<lambda>f g. \<forall>x \<in> set (snd f). \<forall>y \<in> set (snd g). fst x < fst y) (fs @ [(name, es)])"
    using wr unfolding writing_def by blast
  let ?e = "sstEntryOf pre (v, p)" and ?l = "last written"
  have d: "decodeSorterItem (itemBytes v p) = Some (putU64 v, normalPair p)" by (rule decodeSorterItem_bytes [OF okp])
  have le: "last es = sstEntryOf pre ?l" using arg_cong [OF st(5), of last] st(2,3) by (simp add: last_map)
  have before: "newerFirst x (v, p)" if "x \<in> set written" for x using new that by (simp add: sorted_wrt_append)
  have mem: "\<exists>z \<in> set written. x = sstEntryOf pre z" if "x \<in> set (concat (map snd fs) @ es)" for x
    using that unfolding st(5) by auto
  have keys: "kvKey (snd z) \<le> kvKey (snd ?l)" if "z \<in> set written" for z
  proof -
    have w: "written = butlast written @ [?l]" using st(3) by simp
    have "sorted_wrt newerFirst (butlast written @ [?l])" using new w by (simp add: sorted_wrt_append)
    moreover have "z \<in> set (butlast written) \<or> z = ?l" using that w by (metis Un_iff empty_iff empty_set set_ConsD set_append)
    ultimately show ?thesis by (auto simp: sorted_wrt_append newerFirst_def)
  qed
  have lp: "kvKey (snd ?l) \<le> kvKey p" using before [of ?l] st(3) by (auto simp: newerFirst_def)
  show ?thesis
  proof (cases "sz \<le> sstFileSize ops w \<and> kvKey (snd ?l) \<noteq> kvKey p")
    case True
    obtain w1 where w1: "thenDo (viaSst (sstFinish ops)) (\<lambda>_. viaSst (sstOpen ops (sstFileName store sstSeq))) w = (Inr (), w1)"
      "view w1 = ((old @ fs) @ [(name, es)], Some (sstFileName store sstSeq, []))"
      using rotate_file [OF laws st(1,2)] by blast
    obtain w2 where w2: "sstWrite ops pre (putU64 v) (normalPair p) w1 = (Inr (), w2)"
      "view w2 = ((old @ fs) @ [(name, es)], Some (sstFileName store sstSeq, [?e]))"
      using put_entry [OF laws w1(2), of pre v p] by auto
    have less: "fst x < pre @ kvKey p" if "x \<in> set (concat (map snd fs) @ es)" for x
    proof -
      from mem [OF that] obtain z where "z \<in> set written" "x = sstEntryOf pre z" by blast
      moreover have "kvKey (snd ?l) < kvKey p" using True lp order_le_imp_less_or_eq by blast
      ultimately show ?thesis using keys [of z] by (simp add: sstEntryOf_def)
    qed
    have less': "\<forall>x \<in> set es. fst x < fst ?e" "\<forall>f \<in> set fs. \<forall>x \<in> set (snd f). fst x < fst ?e"
      using less by (auto simp: sstEntryOf_def)
    have "writing view store pre old (written @ [(v, p)]) (sstSeq + 1) w2"
      unfolding writing_def
      by (rule exI [of _ "fs @ [(name, es)]"], rule exI [of _ "sstFileName store sstSeq"], rule exI [of _ "[?e]"])
        (use st w2(2) less' in \<open>simp add: sorted_wrt_append\<close>)
    then show ?thesis using True w1(1) w2(1) d by (intro exI [of _ w2]) (simp add: thenDo_def Let_def)
  next
    case False
    obtain w2 where w2: "sstWrite ops pre (putU64 v) (normalPair p) w = (Inr (), w2)"
      "view w2 = (old @ fs, Some (name, es @ [?e]))"
      using put_entry [OF laws st(1)] le entryBefore_iff before st(3) last_in_set by metis
    have le': "fst (last es) \<le> fst ?e" using le lp by (simp add: sstEntryOf_def)
    have "\<forall>f \<in> set fs. \<forall>x \<in> set (snd f). fst x < fst (last es)" using st(2,7) by (simp add: sorted_wrt_append)
    then have less: "\<forall>f \<in> set fs. \<forall>x \<in> set (snd f). fst x < fst ?e" using le' order_less_le_trans by fast
    have "writing view store pre old (written @ [(v, p)]) sstSeq w2"
      unfolding writing_def
      by (rule exI [of _ fs], rule exI [of _ name], rule exI [of _ "es @ [?e]"])
        (use st w2(2) less in \<open>simp add: sorted_wrt_append\<close>)
    then show ?thesis using False w2(1) d by (intro exI [of _ w2]) (simp add: Let_def thenDo_def, blast)
  qed
qed

lemma writing_all:
  assumes laws: "sstLaws ops view"
  shows "writing view store pre old written sstSeq w \<Longrightarrow> sorted_wrt newerFirst (written @ xs) \<Longrightarrow> \<forall>x \<in> set xs. okPair (snd x) \<Longrightarrow>
    \<exists>w' sstSeq'. writeSST ops store sz pre (map (case_prod itemBytes) xs) sstSeq (kvKey (snd (last written))) w = (Inr (), w') \<and>
      writing view store pre old (written @ xs) sstSeq' w'"
proof (induction xs arbitrary: written sstSeq w)
  case (Cons x xs)
  obtain v p where x: "x = (v, p)" by fastforce
  have "sorted_wrt newerFirst (written @ [(v, p)])" using Cons.prems(2) x by (simp add: sorted_wrt_append)
  from writing_step [OF laws Cons.prems(1) this, of sz "map (case_prod itemBytes) xs"] Cons.prems(3)
  obtain w1 sstSeq1 where w1: "writeSST ops store sz pre (itemBytes v p # map (case_prod itemBytes) xs) sstSeq (kvKey (snd (last written))) w =
      writeSST ops store sz pre (map (case_prod itemBytes) xs) sstSeq1 (kvKey p) w1"
    "writing view store pre old (written @ [(v, p)]) sstSeq1 w1" by (auto simp: x)
  then show ?case using Cons.IH [OF w1(2)] Cons.prems(2,3) by (simp add: x)
qed auto

lemma writeSST_all:
  assumes laws: "sstLaws ops view" and w: "view w = (old, None)" and xs: "xs \<noteq> []" "sorted_wrt newerFirst xs" "\<forall>x \<in> set xs. okPair (snd x)"
    and sz: "0 < sz"
  shows "\<exists>w' files. thenDo (viaSst (sstOpen ops (sstFileName store 0)))
      (\<lambda>_. thenDo (writeSST ops store sz pre (map (case_prod itemBytes) xs) 1 []) (\<lambda>_. viaSst (sstFinish ops))) w = (Inr (), w') \<and>
    view w' = (old @ files, None) \<and> (\<forall>f \<in> set files. snd f \<noteq> []) \<and> concat (map snd files) = map (sstEntryOf pre) xs \<and>
    map fst files = map (sstFileName store) [0..<length files] \<and>
    sorted_wrt (\<lambda>f g. \<forall>x \<in> set (snd f). \<forall>y \<in> set (snd g). fst x < fst y) files"
proof -
  obtain v p ys where x: "xs = (v, p) # ys" using xs(1) by (cases xs) auto
  obtain w0 where w0: "sstOpen ops (sstFileName store 0) w = (Inr (), w0)" "view w0 = (old, Some (sstFileName store 0, []))" "sstFileSize ops w0 = 0"
    using sst_open [OF laws w] by blast
  obtain w1 where w1: "sstWrite ops pre (putU64 v) (normalPair p) w0 = (Inr (), w1)"
    "view w1 = (old, Some (sstFileName store 0, [sstEntryOf pre (v, p)]))"
    using put_entry [OF laws w0(2), of pre v p] by auto
  have wr: "writing view store pre old [(v, p)] 1 w1"
    unfolding writing_def by (rule exI [of _ "[]"], rule exI [of _ "sstFileName store 0"]) (simp add: w1(2))
  have okp: "okPair p" using xs(3) x by simp
  have nr: "(sz \<le> sstFileSize ops w0) = False" using w0(3) sz by simp
  have step: "writeSST ops store sz pre (map (case_prod itemBytes) xs) 1 [] w0 = writeSST ops store sz pre (map (case_prod itemBytes) ys) 1 (kvKey p) w1"
    using w1(1) by (simp add: x decodeSorterItem_bytes [OF okp] nr Let_def thenDo_def cong: if_cong)
  obtain w2 sstSeq where w2: "writeSST ops store sz pre (map (case_prod itemBytes) ys) 1 (kvKey p) w1 = (Inr (), w2)"
    "writing view store pre old xs sstSeq w2"
    using writing_all [OF laws wr, of ys sz] xs x by auto
  then obtain fs name es where st: "view w2 = (old @ fs, Some (name, es))" "es \<noteq> []" "\<forall>f \<in> set fs. snd f \<noteq> []"
    "concat (map snd fs) @ es = map (sstEntryOf pre) xs" "map fst (fs @ [(name, es)]) = map (sstFileName store) [0..<sstSeq]"
    "sorted_wrt (\<lambda>f g. \<forall>x \<in> set (snd f). \<forall>y \<in> set (snd g). fst x < fst y) (fs @ [(name, es)])"
    unfolding writing_def by blast
  obtain w3 where w3: "sstFinish ops w2 = (Inr (), w3)" "view w3 = ((old @ fs) @ [(name, es)], None)"
    using sst_finish [OF laws st(1,2)] by blast
  have "length (fs @ [(name, es)]) = sstSeq" using arg_cong [OF st(5), of length] by simp
  then show ?thesis
    using st w3 w2(1) step w0(1)
    by (intro exI [of _ w3] exI [of _ "fs @ [(name, es)]"]) (simp add: thenDo_def viaSst_def)
qed

definition versionedKey :: "u64 \<times> kvPair \<Rightarrow> bytes \<times> u64" where
  "versionedKey x = (kvKey (snd x), fst x)"

lemma newerFirst_if:
  "okPair (snd x) \<Longrightarrow> okPair (snd y) \<Longrightarrow> \<not> sorterLess (case_prod itemBytes y) (case_prod itemBytes x) \<Longrightarrow> versionedKey y \<noteq> versionedKey x \<Longrightarrow> newerFirst x y"
  by (cases x; cases y) (simp add: sorterLess_bytes newerFirst_def versionedKey_def, metis linorder_neqE)

lemma sorted_newerFirst:
  assumes "\<forall>x \<in> set xs. okPair (snd x)" "sortedBy sorterLess (map (case_prod itemBytes) xs)" "distinct (map versionedKey xs)"
  shows "sorted_wrt newerFirst xs"
  using assms
proof (induction xs)
  case (Cons x xs)
  have "newerFirst x y" if "y \<in> set xs" for y
  proof (rule newerFirst_if)
    show "okPair (snd x)" "okPair (snd y)" using Cons.prems(1) that by auto
    show "\<not> sorterLess (case_prod itemBytes y) (case_prod itemBytes x)" using Cons.prems(2) that by simp
    show "versionedKey y \<noteq> versionedKey x" using Cons.prems(3) that by (simp, metis imageI)
  qed
  then show ?case using Cons by simp
qed simp

lemma mset_map_inv: "mset out = mset (map f xs) \<Longrightarrow> \<exists>ys. out = map f ys \<and> mset ys = mset xs"
proof (induction out arbitrary: xs)
  case (Cons y out)
  then have "y \<in> f ` set xs" by (metis image_set list.set_intros(1) mset_eq_setD)
  then obtain x where x: "x \<in> set xs" "y = f x" by blast
  have "mset out = mset (map f (remove1 x xs))"
    using Cons.prems x by (simp add: image_mset_Diff) (metis add_mset_remove_trivial)
  then obtain ys where "out = map f ys" "mset ys = mset (remove1 x xs)" using Cons.IH by blast
  then show ?case using x by (intro exI [of _ "x # ys"]) simp
qed simp

section \<open>Properties\<close>

text \<open>C29: building SST files from change sets. When the files of a store hold written change sets in which no key occurs twice in a version, the conversion
  ends without an error for every chunk size of the sorter and every positive target file size. The new SST files are numbered
  from zero, none is empty, and together they hold exactly one timestamped entry per pair, under the prefix of the
  store, in strictly ascending order of the internal keys; the keys of a file are all below those of the next one, so no key
  is spread over two files, as ingestion requires.\<close>

theorem convertSingleStore_correct:
  assumes laws: "sstLaws ops view" and w: "view w = (old, None)" and sz: "0 < sstFileSz"
    and sn: "\<forall>bz. snDecompress sn (snCompress sn bz) = bz"
    and files: "SortFilesByFirstVerson dec entries = Inr csFiles" "list_all2 (\<lambda>f blocks. holds dec (fst f) blocks) csFiles blockss"
    and pairs: "xs = versionedPairs (concat blockss)" "xs \<noteq> []" "\<forall>x \<in> set xs. okPair (snd x)" "distinct (map versionedKey xs)"
  shows "\<exists>w' files. convertSingleStore sn dec ops store (Some entries) sstFileSz chunkSize w = Some (Inr (), w') \<and>
    view w' = (old @ files, None) \<and> map fst files = map (sstFileName store) [0..<length files] \<and> (\<forall>f \<in> set files. snd f \<noteq> []) \<and>
    mset (concat (map snd files)) = mset (map (sstEntryOf (storePrefix store)) xs) \<and>
    sorted_wrt entryBefore (concat (map snd files)) \<and>
    sorted_wrt (\<lambda>f g. \<forall>x \<in> set (snd f). \<forall>y \<in> set (snd g). fst x < fst y) files"
proof -
  let ?items = "map (case_prod itemBytes) xs"
  have ne: "csFiles \<noteq> []" using files(2) pairs(1,2) by (cases csFiles) auto
  have feed: "feedFiles dec csFiles [] = (Inr (), ?items)" using feedFiles_all [OF files(2), of "[]"] pairs(1) by simp
  have "\<forall>x \<in> set ?items. okItem x \<and> length x \<le> 0xffffffff"
    using pairs(3) by (auto simp: okItem_def length_itemBytes okPair_def split_beta)
  from sorter.Spawn_sorts [OF this, of "sorterOptions chunkSize" sn] sn
  obtain out where out: "Spawn sn (sorterOptions chunkSize) ?items = Some (Inr out)" "sortedBy sorterLess out" "mset out = mset ?items"
    by (auto simp: sorterOptions_def)
  then obtain ys where ys: "out = map (case_prod itemBytes) ys" "mset ys = mset xs" using mset_map_inv by blast
  have ok: "\<forall>x \<in> set ys. okPair (snd x)" "ys \<noteq> []" using pairs(2,3) ys(2) mset_eq_setD by (blast, auto)
  have "distinct (map versionedKey ys)" using pairs(4) ys(2) by (metis mset_eq_imp_distinct_iff mset_map)
  then have sorted: "sorted_wrt newerFirst ys" using sorted_newerFirst ok(1) out(2) ys(1) by blast
  obtain w' fs where res: "thenDo (viaSst (sstOpen ops (sstFileName store 0)))
      (\<lambda>_. thenDo (writeSST ops store sstFileSz (storePrefix store) out 1 []) (\<lambda>_. viaSst (sstFinish ops))) w = (Inr (), w')"
    "view w' = (old @ fs, None)" "\<forall>f \<in> set fs. snd f \<noteq> []" "concat (map snd fs) = map (sstEntryOf (storePrefix store)) ys"
    "map fst fs = map (sstFileName store) [0..<length fs]" "sorted_wrt (\<lambda>f g. \<forall>x \<in> set (snd f). \<forall>y \<in> set (snd g). fst x < fst y) fs"
    using writeSST_all [OF laws w ok(2) sorted ok(1) sz, of store "storePrefix store"] ys(1) by blast
  have "convertSingleStore sn dec ops store (Some entries) sstFileSz chunkSize w = Some (Inr (), w')"
    using res(1) out(1) feed files(1) ne pairs(2) by (simp add: convertSingleStore_def scanChangeSetFiles_def)
  moreover have "sorted_wrt entryBefore (concat (map snd fs))" unfolding res(4) sorted_wrt_map entryBefore_iff by (rule sorted)
  moreover have "mset (concat (map snd fs)) = mset (map (sstEntryOf (storePrefix store)) xs)" unfolding res(4) using ys(2) by simp
  ultimately show ?thesis using res(2,3,5,6) by blast
qed

text \<open>A writer that keeps its files as lists of entries.\<close>

definition listSst :: "(sstFiles \<times> (string \<times> sstEntry list) option, unit) sstOps" where
  "listSst =
     \<lparr>sstOpen = (\<lambda>name w. if snd w = None then (Inr (), (fst w, Some (name, []))) else (Inl (), w)),
      sstPut = (\<lambda>key ts v w. case snd w of None \<Rightarrow> (Inl (), w) | Some (name, es) \<Rightarrow>
        if es = [] \<or> entryBefore (last es) (key, ts, Some v) then (Inr (), (fst w, Some (name, es @ [(key, ts, Some v)]))) else (Inl (), w)),
      sstDelete = (\<lambda>key ts w. case snd w of None \<Rightarrow> (Inl (), w) | Some (name, es) \<Rightarrow>
        if es = [] \<or> entryBefore (last es) (key, ts, None) then (Inr (), (fst w, Some (name, es @ [(key, ts, None)]))) else (Inl (), w)),
      sstFinish = (\<lambda>w. case snd w of None \<Rightarrow> (Inl (), w) | Some (name, es) \<Rightarrow>
        if es = [] then (Inl (), w) else (Inr (), (fst w @ [(name, es)], None))),
      sstFileSize = (\<lambda>w. case snd w of None \<Rightarrow> 0 | Some (name, es) \<Rightarrow> of_nat (length es))\<rparr>"

lemma listSst_laws: "sstLaws listSst id"
  unfolding sstLaws_def listSst_def by auto

definition sampleBlock :: changeSet where
  "sampleBlock = [\<lparr>kvDelete = False, kvKey = [2], kvValue = Some [20]\<rparr>, \<lparr>kvDelete = True, kvKey = [1], kvValue = None\<rparr>]"

theorem convertSingleStore_correct_witness:
  "\<exists>files. convertSingleStore \<lparr>snCompress = id, snDecompress = id\<rparr> \<lparr>unzlib = Some, unsnappy = id\<rparr> listSst ''bank''
      (Some [(''block-0'', fileOf [(7, sampleBlock), (8, sampleBlock)])]) 2 20 ([], None) = Some (Inr (), (files, None)) \<and>
    mset (concat (map snd files)) = mset (map (sstEntryOf (storePrefix ''bank'')) (versionedPairs [(7, sampleBlock), (8, sampleBlock)]))"
proof -
  let ?dec = "\<lparr>unzlib = Some, unsnappy = id\<rparr>" and ?blocks = "[(7, sampleBlock), (8, sampleBlock)] :: (u64 \<times> changeSet) list"
  have fits: "csFits sampleBlock"
    by (simp add: csFits_def payload_def sampleBlock_def pairBytes_def EncodeBytes_def valueOf_def putUvarint.simps)
  have o: "openChangeSetFile ?dec ''block-0'' (fileOf ?blocks) = Inr (fileOf ?blocks)"
    by (simp add: openChangeSetFile_def hasSuffix_def)
  have "readFull 8 (fileOf ?blocks) = Inr (putU64 7, drop 8 (fileOf ?blocks))"
    using readFull_append [of "putU64 7" "drop 8 (fileOf ?blocks)"] by (simp add: fileOf_def changeSetBytes_def)
  then have sorted: "SortFilesByFirstVerson ?dec [(''block-0'', fileOf ?blocks)] = Inr [((''block-0'', fileOf ?blocks), 7)]"
    using o by (simp add: SortFilesByFirstVerson_def ReadFirstVersion_def)
  have holds: "list_all2 (\<lambda>f blocks. holds ?dec (fst f) blocks) [((''block-0'', fileOf ?blocks), 7 :: u64)] [?blocks]"
    using o fits by (simp add: holds_def)
  show ?thesis
    using convertSingleStore_correct [OF listSst_laws _ _ _ sorted holds refl, of "([], None)" "[]" 2 "\<lparr>snCompress = id, snDecompress = id\<rparr>" "''bank''" 20]
    by (auto simp: sampleBlock_def versionedKey_def okPair_def sizeOfSorterItem_def TimestampSize_def SizeKeyLength_def valueOf_def)
qed

end
