(* ===== verification/TsStore.thy ===== *)
theory TsStore
  imports TsKeys
begin

text \<open>
  The version database, \<open>versiondb/tsrocksdb/store.go\<close> and \<open>versiondb/tsrocksdb/iterator.go\<close>: every key is kept with all its versions, as
  timestamps of RocksDB; reads give the newest version up to a given one. RocksDB is a parameter, with its
  iterators. An iterator that panics, or whose loop over entries at version zero does not end, is \<open>None\<close>.
\<close>

section \<open>RocksDB\<close>

datatype batchOp = BatchPut bytes bytes | BatchPutTS bytes bytes bytes | BatchDeleteTS bytes bytes

record ('d, 'i, 'e) rocksOps =
  rkGet :: "bytes \<Rightarrow> 'd \<Rightarrow> 'e + slice"
  rkGetTS :: "bytes \<Rightarrow> bytes \<Rightarrow> 'd \<Rightarrow> 'e + slice \<times> bytes"
  rkWrite :: "bool \<Rightarrow> batchOp list \<Rightarrow> ('d, 'e, unit) action"
  rkFlush :: "('d, 'e, unit) action"
  rkIterator :: "bytes \<Rightarrow> 'd \<Rightarrow> 'i"
  srcSeek :: "bytes \<Rightarrow> 'i \<Rightarrow> 'i"
  srcSeekToFirst :: "'i \<Rightarrow> 'i"
  srcSeekToLast :: "'i \<Rightarrow> 'i"
  srcNext :: "'i \<Rightarrow> 'i"
  srcPrev :: "'i \<Rightarrow> 'i"
  srcValid :: "'i \<Rightarrow> bool"
  srcErr :: "'i \<Rightarrow> 'e option"
  srcKey :: "'i \<Rightarrow> bytes"
  srcValue :: "'i \<Rightarrow> bytes"
  srcTimestamp :: "'i \<Rightarrow> bytes"

section \<open>Store\<close>

datatype 'e tsError = KeyEmpty | RocksError 'e | InvalidKeyLength | TsPanic

definition viaRocks :: "'e + 'a \<Rightarrow> 'e tsError + 'a" where
  "viaRocks r = (case r of Inl e \<Rightarrow> Inl (RocksError e) | Inr x \<Rightarrow> Inr x)"

definition latestVersionKey :: bytes where "latestVersionKey = strBytes ''s/latest''"

definition newTSReadOptions :: "u64 option \<Rightarrow> bytes" where
  "newTSReadOptions version = putU64 (case version of None \<Rightarrow> -1 | Some v \<Rightarrow> v)"

definition SetLatestVersion :: "('d, 'i, 'e) rocksOps \<Rightarrow> u64 \<Rightarrow> ('d, 'e, unit) action" where
  "SetLatestVersion ops version = rkWrite ops False [BatchPut latestVersionKey (putU64 version)]"

record storePair =
  spStore :: string
  spDelete :: bool
  spKey :: bytes
  spValue :: bytes

definition batchPair :: "bytes \<Rightarrow> storePair \<Rightarrow> batchOp" where
  "batchPair ts pair =
     (let key = prependStoreKey (spStore pair) (spKey pair)
      in if spDelete pair then BatchDeleteTS key ts else BatchPutTS key ts (spValue pair))"

definition PutAtVersion :: "('d, 'i, 'e) rocksOps \<Rightarrow> u64 \<Rightarrow> storePair list \<Rightarrow> ('d, 'e, unit) action" where
  "PutAtVersion ops version cs =
     (let ts = putU64 version in rkWrite ops True (BatchPut latestVersionKey ts # map (batchPair ts) cs))"

definition GetAtVersionSlice :: "('d, 'i, 'e) rocksOps \<Rightarrow> bool \<Rightarrow> string \<Rightarrow> bytes \<Rightarrow> u64 option \<Rightarrow> 'd \<Rightarrow> 'e tsError + slice" where
  "GetAtVersionSlice ops skipVersionZero storeKey key version d =
     andThen (viaRocks (rkGetTS ops (newTSReadOptions version) (prependStoreKey storeKey key) d)) (\<lambda>(val, ts).
       if val \<noteq> None \<and> skipVersionZero then
         (case getU64 ts of
            None \<Rightarrow> Inl TsPanic
          | Some t \<Rightarrow> if t = 0 then Inr None else Inr val)
       else Inr val)"

definition GetAtVersion :: "('d, 'i, 'e) rocksOps \<Rightarrow> bool \<Rightarrow> string \<Rightarrow> bytes \<Rightarrow> u64 option \<Rightarrow> 'd \<Rightarrow> 'e tsError + slice" where
  "GetAtVersion ops skipVersionZero storeKey key version d = GetAtVersionSlice ops skipVersionZero storeKey key version d"

definition HasAtVersion :: "('d, 'i, 'e) rocksOps \<Rightarrow> bool \<Rightarrow> string \<Rightarrow> bytes \<Rightarrow> u64 option \<Rightarrow> 'd \<Rightarrow> 'e tsError + bool" where
  "HasAtVersion ops skipVersionZero storeKey key version d =
     andThen (GetAtVersionSlice ops skipVersionZero storeKey key version d) (\<lambda>val. Inr (val \<noteq> None))"

definition tsLatestVersion :: "('d, 'i, 'e) rocksOps \<Rightarrow> 'd \<Rightarrow> 'e tsError + u64" where
  "tsLatestVersion ops d =
     andThen (viaRocks (rkGet ops latestVersionKey d)) (\<lambda>bz.
       case bz of
         None \<Rightarrow> Inr 0
       | Some bs \<Rightarrow> if bs = [] then Inr 0 else (case getU64 bs of None \<Rightarrow> Inl TsPanic | Some v \<Rightarrow> Inr v))"

definition FeedChangeSet :: "('d, 'i, 'e) rocksOps \<Rightarrow> u64 \<Rightarrow> string \<Rightarrow> changeSet \<Rightarrow> ('d, 'e, unit) action" where
  "FeedChangeSet ops version storeKey cs =
     (let ts = putU64 version; prefix = storePrefix storeKey
      in rkWrite ops False
           (map (\<lambda>pair. let key = cloneAppend prefix (kvKey pair)
              in if kvDelete pair then BatchDeleteTS key ts
                 else BatchPutTS key ts (case kvValue pair of None \<Rightarrow> [] | Some v \<Rightarrow> v)) cs))"

definition ImportCommitBatchSize :: nat where "ImportCommitBatchSize = 10000"

type_synonym importEntry = "string \<times> bytes \<times> bytes"

text \<open>The loop of \<open>Import\<close>: the entries received so far and the batch that is not written yet.\<close>

fun importLoop :: "('d, 'i, 'e) rocksOps \<Rightarrow> bytes \<Rightarrow> nat \<Rightarrow> batchOp list \<Rightarrow> importEntry list \<Rightarrow> ('d, 'e, batchOp list) action" where
  "importLoop ops ts counter batch [] d = (Inr batch, d)"
| "importLoop ops ts counter batch ((storeKey, key, val) # entries) d =
     (let batch' = batch @ [BatchPutTS (cloneAppend (storePrefix storeKey) key) ts val]; counter' = counter + 1
      in if counter' mod ImportCommitBatchSize = 0
         then thenDo (rkWrite ops False batch') (\<lambda>_. importLoop ops ts counter' [] entries) d
         else importLoop ops ts counter' batch' entries d)"

definition Import :: "('d, 'i, 'e) rocksOps \<Rightarrow> u64 \<Rightarrow> importEntry list \<Rightarrow> ('d, 'e, unit) action" where
  "Import ops version ch =
     thenDo (importLoop ops (putU64 version) 0 [] ch) (\<lambda>batch.
     thenDo (if batch \<noteq> [] then rkWrite ops False batch else (\<lambda>d. (Inr (), d))) (\<lambda>_.
       SetLatestVersion ops version))"

section \<open>Iterator\<close>

record 'i rocksDBIterator =
  source :: 'i
  rprefix :: bytes
  rstart :: slice
  rend :: slice
  isReverse :: bool
  isInvalid :: bool
  rskip :: bool

definition rocksValid :: "('d, 'i, 'e) rocksOps \<Rightarrow> 'i rocksDBIterator \<Rightarrow> bool \<times> 'i rocksDBIterator" where
  "rocksValid ops itr =
     (if isInvalid itr then (False, itr)
      else if srcErr ops (source itr) \<noteq> None then (False, itr\<lparr>isInvalid := True\<rparr>)
      else if \<not> srcValid ops (source itr) then (False, itr\<lparr>isInvalid := True\<rparr>)
      else
        (let key = srcKey ops (source itr);
             past = (if isReverse itr then (case rstart itr of None \<Rightarrow> False | Some s \<Rightarrow> bytesCompare key s < 0)
                     else (case rend itr of None \<Rightarrow> False | Some e \<Rightarrow> bytesCompare e key \<le> 0))
         in if past then (False, itr\<lparr>isInvalid := True\<rparr>) else (True, itr)))"

definition advance :: "('d, 'i, 'e) rocksOps \<Rightarrow> 'i rocksDBIterator \<Rightarrow> 'i rocksDBIterator" where
  "advance ops itr = itr\<lparr>source := (if isReverse itr then srcPrev ops (source itr) else srcNext ops (source itr))\<rparr>"

partial_function (option) trySkipZeroVersion :: "('d, 'i, 'e) rocksOps \<Rightarrow> 'i rocksDBIterator \<Rightarrow> 'i rocksDBIterator option" where
  "trySkipZeroVersion ops itr =
     (if \<not> rskip itr then Some itr
      else
        (case rocksValid ops itr of
           (valid, itr') \<Rightarrow>
             if \<not> valid then Some itr'
             else
               Option.bind (getU64 (srcTimestamp ops (source itr'))) (\<lambda>ts.
                 if ts = 0 then trySkipZeroVersion ops (advance ops itr') else Some itr')))"

definition seekSource :: "('d, 'i, 'e) rocksOps \<Rightarrow> slice \<Rightarrow> slice \<Rightarrow> bool \<Rightarrow> 'i \<Rightarrow> 'i" where
  "seekSource ops start stop reverse src =
     (if reverse then
        (case stop of
           None \<Rightarrow> srcSeekToLast ops src
         | Some e \<Rightarrow>
             (let src' = srcSeek ops e src
              in if srcValid ops src' then (if bytesCompare e (srcKey ops src') \<le> 0 then srcPrev ops src' else src')
                 else srcSeekToLast ops src'))
      else (case start of None \<Rightarrow> srcSeekToFirst ops src | Some s \<Rightarrow> srcSeek ops s src))"

definition newRocksDBIterator :: "('d, 'i, 'e) rocksOps \<Rightarrow> 'i \<Rightarrow> bytes \<Rightarrow> slice \<Rightarrow> slice \<Rightarrow> bool \<Rightarrow> bool \<Rightarrow> 'i rocksDBIterator option" where
  "newRocksDBIterator ops src prefix start stop reverse skip =
     trySkipZeroVersion ops
       \<lparr>source = seekSource ops start stop reverse src, rprefix = prefix, rstart = start, rend = stop, isReverse = reverse,
        isInvalid = False, rskip = skip\<rparr>"

definition rocksKey :: "('d, 'i, 'e) rocksOps \<Rightarrow> 'i rocksDBIterator \<Rightarrow> bytes option" where
  "rocksKey ops itr =
     (if fst (rocksValid ops itr)
      then sliceAt (srcKey ops (source itr)) (length (rprefix itr)) (length (srcKey ops (source itr))) else None)"

definition rocksValue :: "('d, 'i, 'e) rocksOps \<Rightarrow> 'i rocksDBIterator \<Rightarrow> bytes option" where
  "rocksValue ops itr = (if fst (rocksValid ops itr) then Some (srcValue ops (source itr)) else None)"

definition rocksTimestamp :: "('d, 'i, 'e) rocksOps \<Rightarrow> 'i rocksDBIterator \<Rightarrow> bytes option" where
  "rocksTimestamp ops itr = (if fst (rocksValid ops itr) then Some (srcTimestamp ops (source itr)) else None)"

definition rocksNext :: "('d, 'i, 'e) rocksOps \<Rightarrow> 'i rocksDBIterator \<Rightarrow> 'i rocksDBIterator option" where
  "rocksNext ops itr = (if fst (rocksValid ops itr) then trySkipZeroVersion ops (advance ops itr) else None)"

definition iteratorAtVersion ::
  "('d, 'i, 'e) rocksOps \<Rightarrow> bool \<Rightarrow> string \<Rightarrow> slice \<Rightarrow> slice \<Rightarrow> u64 option \<Rightarrow> bool \<Rightarrow> 'd \<Rightarrow> 'e tsError + 'i rocksDBIterator" where
  "iteratorAtVersion ops skipVersionZero storeKey start stop version reverse d =
     (if start = Some [] \<or> stop = Some [] then Inl KeyEmpty
      else
        (let prefix = storePrefix storeKey in
         case iterateWithPrefix prefix start stop of
           None \<Rightarrow> Inl TsPanic
         | Some (lo, hi) \<Rightarrow>
             (case newRocksDBIterator ops (rkIterator ops (newTSReadOptions version) d) prefix lo hi reverse skipVersionZero of
                None \<Rightarrow> Inl TsPanic
              | Some itr \<Rightarrow> Inr itr)))"

definition IteratorAtVersion ::
  "('d, 'i, 'e) rocksOps \<Rightarrow> bool \<Rightarrow> string \<Rightarrow> slice \<Rightarrow> slice \<Rightarrow> u64 option \<Rightarrow> 'd \<Rightarrow> 'e tsError + 'i rocksDBIterator" where
  "IteratorAtVersion ops skip storeKey start stop version d = iteratorAtVersion ops skip storeKey start stop version False d"

definition ReverseIteratorAtVersion ::
  "('d, 'i, 'e) rocksOps \<Rightarrow> bool \<Rightarrow> string \<Rightarrow> slice \<Rightarrow> slice \<Rightarrow> u64 option \<Rightarrow> 'd \<Rightarrow> 'e tsError + 'i rocksDBIterator" where
  "ReverseIteratorAtVersion ops skip storeKey start stop version d = iteratorAtVersion ops skip storeKey start stop version True d"

text \<open>Draining an iterator the way its callers do.\<close>

partial_function (option) drain :: "('d, 'i, 'e) rocksOps \<Rightarrow> 'i rocksDBIterator \<Rightarrow> (bytes \<times> bytes \<times> bytes) list option" where
  "drain ops itr =
     (case rocksValid ops itr of
        (valid, itr') \<Rightarrow>
          if \<not> valid then Some []
          else
            Option.bind (rocksKey ops itr') (\<lambda>k. Option.bind (rocksValue ops itr') (\<lambda>v. Option.bind (rocksTimestamp ops itr') (\<lambda>t.
              Option.bind (rocksNext ops itr') (\<lambda>itr''. Option.bind (drain ops itr'') (\<lambda>rest. Some ((k, v, t) # rest)))))))"

section \<open>Repair of wrong data\<close>

record kvPairWithTS =
  wkey :: bytes
  wvalue :: bytes
  wts :: bytes

fun wrongPairs :: "(bytes \<times> bytes \<times> bytes) list \<Rightarrow> 'e tsError + kvPairWithTS list" where
  "wrongPairs [] = Inr []"
| "wrongPairs ((key, val, t) # rest) =
     (case getU64 t of
        None \<Rightarrow> Inl TsPanic
      | Some ts \<Rightarrow>
          if ts \<noteq> 0 then wrongPairs rest
          else if length key < TimestampSize then Inl InvalidKeyLength
          else
            andThen (wrongPairs rest) (\<lambda>pairs.
              Inr (\<lparr>wkey = take (length key - TimestampSize) key, wvalue = val, wts = drop (length key - TimestampSize) key\<rparr> # pairs)))"

definition loadWrongData :: "('d, 'i, 'e) rocksOps \<Rightarrow> bool \<Rightarrow> string \<Rightarrow> 'd \<Rightarrow> 'e tsError + kvPairWithTS list" where
  "loadWrongData ops skip storeName d =
     andThen (IteratorAtVersion ops skip storeName None None (Some 0) d) (\<lambda>itr.
       case drain ops itr of None \<Rightarrow> Inl TsPanic | Some entries \<Rightarrow> wrongPairs entries)"

fun fixBatch :: "('d, 'i, 'e) rocksOps \<Rightarrow> bytes \<Rightarrow> kvPairWithTS list \<Rightarrow> 'd \<Rightarrow> 'e tsError + batchOp list" where
  "fixBatch ops prefix [] d = Inr []"
| "fixBatch ops prefix (pair # pairs) d =
     (let realKey = cloneAppend prefix (wkey pair) in
      andThen (viaRocks (rkGetTS ops (wts pair) realKey d)) (\<lambda>(oldValue, oldTimestamp).
      andThen (fixBatch ops prefix pairs d) (\<lambda>batch.
        if (case oldValue of None \<Rightarrow> [] | Some v \<Rightarrow> v) = wvalue pair \<and> oldTimestamp = wts pair then Inr batch
        else Inr (BatchPutTS realKey (wts pair) (wvalue pair) # batch))))"

definition fixDataStore :: "('d, 'i, 'e) rocksOps \<Rightarrow> bool \<Rightarrow> bool \<Rightarrow> string \<Rightarrow> ('d, 'e tsError, unit) action" where
  "fixDataStore ops skip dryRun storeName d =
     (case loadWrongData ops skip storeName d of
        Inl e \<Rightarrow> (Inl e, d)
      | Inr pairs \<Rightarrow>
          (case fixBatch ops (storePrefix storeName) pairs d of
             Inl e \<Rightarrow> (Inl e, d)
           | Inr batch \<Rightarrow>
               if dryRun then (Inr (), d)
               else (case rkWrite ops True batch d of (Inl e, d') \<Rightarrow> (Inl (RocksError e), d') | (Inr _, d') \<Rightarrow> (Inr (), d'))))"

definition tsFlush :: "('d, 'i, 'e) rocksOps \<Rightarrow> ('d, 'e tsError, unit) action" where
  "tsFlush ops d = (case rkFlush ops d of (Inl e, d') \<Rightarrow> (Inl (RocksError e), d') | (Inr _, d') \<Rightarrow> (Inr (), d'))"

definition FixData :: "('d, 'i, 'e) rocksOps \<Rightarrow> bool \<Rightarrow> bool \<Rightarrow> string list \<Rightarrow> ('d, 'e tsError, unit) action" where
  "FixData ops skip dryRun storeNames =
     thenDo (forEach (fixDataStore ops skip dryRun) storeNames) (\<lambda>_. if dryRun then (\<lambda>d. (Inr (), d)) else tsFlush ops)"

section \<open>What the store relies on\<close>

text \<open>
  The history of a column family with timestamps: what was written under a key at a version, a value or a
  deletion. A read at a version gives the newest entry up to it, unless that is a deletion.
\<close>

type_synonym history = "bytes \<Rightarrow> u64 \<Rightarrow> slice option"

definition readAt :: "history \<Rightarrow> bytes \<Rightarrow> u64 \<Rightarrow> (bytes \<times> u64) option" where
  "readAt h key t =
     (let ts = {t'. t' \<le> t \<and> h key t' \<noteq> None} in
      if ts = {} then None
      else (case h key (Max ts) of Some (Some v) \<Rightarrow> Some (v, Max ts) | _ \<Rightarrow> None))"

type_synonym rocksView = "(bytes \<Rightarrow> slice) \<times> history"

definition putHist :: "bytes \<Rightarrow> u64 \<Rightarrow> slice \<Rightarrow> history \<Rightarrow> history" where
  "putHist key t val h = h(key := (h key)(t := Some val))"

fun applyOp :: "batchOp \<Rightarrow> rocksView \<Rightarrow> rocksView" where
  "applyOp (BatchPut key val) (plain, h) = (plain(key := Some val), h)"
| "applyOp (BatchPutTS key ts val) (plain, h) = (case getU64 ts of None \<Rightarrow> (plain, h) | Some t \<Rightarrow> (plain, putHist key t (Some val) h))"
| "applyOp (BatchDeleteTS key ts) (plain, h) = (case getU64 ts of None \<Rightarrow> (plain, h) | Some t \<Rightarrow> (plain, putHist key t None h))"

text \<open>
  RocksDB as documented. A batch is applied as a whole, in order, or fails without an effect. An iterator moves
  over the entries visible at its timestamp in ascending order of the keys; \<open>None\<close> is the invalid position.
\<close>

type_synonym cursor = "(bytes \<times> bytes \<times> u64) list \<times> nat option"

definition cursorLaws :: "('d, 'i, 'e) rocksOps \<Rightarrow> ('i \<Rightarrow> cursor) \<Rightarrow> bool" where
  "cursorLaws ops cur \<longleftrightarrow>
     (\<forall>i L p. cur i = (L, p) \<longrightarrow>
        srcErr ops i = None \<and> (srcValid ops i \<longleftrightarrow> p \<noteq> None) \<and>
        cur (srcSeekToFirst ops i) = (L, if L = [] then None else Some 0) \<and>
        cur (srcSeekToLast ops i) = (L, if L = [] then None else Some (length L - 1)) \<and>
        (\<forall>k. cur (srcSeek ops k i) = (L, let n = length (takeWhile (\<lambda>x. fst x < k) L) in if n < length L then Some n else None)) \<and>
        (\<forall>n. p = Some n \<longrightarrow>
           srcKey ops i = fst (L ! n) \<and> srcValue ops i = fst (snd (L ! n)) \<and> srcTimestamp ops i = putU64 (snd (snd (L ! n))) \<and>
           cur (srcNext ops i) = (L, if Suc n < length L then Some (Suc n) else None) \<and>
           cur (srcPrev ops i) = (L, if n = 0 then None else Some (n - 1))))"

definition rocksLaws :: "('d, 'i, 'e) rocksOps \<Rightarrow> ('d \<Rightarrow> rocksView) \<Rightarrow> ('i \<Rightarrow> cursor) \<Rightarrow> bool" where
  "rocksLaws ops view cur \<longleftrightarrow>
     (\<forall>key d. rkGet ops key d = Inr (fst (view d) key)) \<and>
     (\<forall>t key d. rkGetTS ops (putU64 t) key d = Inr (case readAt (snd (view d)) key t of None \<Rightarrow> (None, []) | Some (v, t') \<Rightarrow> (Some v, putU64 t'))) \<and>
     (\<forall>sync batch d. (\<exists>d'. rkWrite ops sync batch d = (Inr (), d') \<and> view d' = fold applyOp batch (view d)) \<or>
        (\<exists>e d'. rkWrite ops sync batch d = (Inl e, d') \<and> view d' = view d)) \<and>
     (\<forall>t d. \<exists>L. cur (rkIterator ops (putU64 t) d) = (L, None) \<and> sorted_wrt (<) (map fst L) \<and>
        set L = {(k, v, t'). readAt (snd (view d)) k t = Some (v, t')}) \<and>
     cursorLaws ops cur"

end
