(* ===== verification/TsHistory.thy ===== *)
theory TsHistory
  imports TsStore
begin

text \<open>
  Correctness of the version database: iterators give exactly the visible entries of a store in their domain, and
  reads at a version give the state after the blocks up to that version.
\<close>

section \<open>Iterators\<close>

text \<open>The entries from the position of the source on, in the direction of the iteration.\<close>

definition ahead :: "bool \<Rightarrow> cursor \<Rightarrow> (bytes \<times> bytes \<times> u64) list" where
  "ahead reverse c =
     (case snd c of None \<Rightarrow> [] | Some n \<Rightarrow> if reverse then rev (take (Suc n) (fst c)) else drop n (fst c))"

definition inBound :: "'i rocksDBIterator \<Rightarrow> bytes \<Rightarrow> bool" where
  "inBound itr k =
     (if isReverse itr then (case rstart itr of None \<Rightarrow> True | Some s \<Rightarrow> s \<le> k) else (case rend itr of None \<Rightarrow> True | Some e \<Rightarrow> k < e))"

definition todo :: "('i \<Rightarrow> cursor) \<Rightarrow> 'i rocksDBIterator \<Rightarrow> (bytes \<times> bytes \<times> u64) list" where
  "todo cur itr =
     (if isInvalid itr then [] else takeWhile (\<lambda>x. inBound itr (fst x)) (ahead (isReverse itr) (cur (source itr))))"

text \<open>A position of the cursor is one of its list.\<close>

definition cursorOK :: "cursor \<Rightarrow> bool" where
  "cursorOK c \<longleftrightarrow> (case snd c of None \<Rightarrow> True | Some n \<Rightarrow> n < length (fst c))"

lemma cursor_unfold:
  assumes "cursorLaws ops cur" "cur i = (L, p)"
  shows "srcErr ops i = None" "srcValid ops i \<longleftrightarrow> p \<noteq> None"
    "cur (srcSeekToFirst ops i) = (L, if L = [] then None else Some 0)"
    "cur (srcSeekToLast ops i) = (L, if L = [] then None else Some (length L - 1))"
    "cur (srcSeek ops k i) = (L, let n = length (takeWhile (\<lambda>x. fst x < k) L) in if n < length L then Some n else None)"
    "p = Some n \<Longrightarrow> srcKey ops i = fst (L ! n)" "p = Some n \<Longrightarrow> srcValue ops i = fst (snd (L ! n))"
    "p = Some n \<Longrightarrow> srcTimestamp ops i = putU64 (snd (snd (L ! n)))"
    "p = Some n \<Longrightarrow> cur (srcNext ops i) = (L, if Suc n < length L then Some (Suc n) else None)"
    "p = Some n \<Longrightarrow> cur (srcPrev ops i) = (L, if n = 0 then None else Some (n - 1))"
  using assms(1) [unfolded cursorLaws_def, rule_format, OF assms(2)] by simp_all

lemma ahead_cases:
  assumes "cursorOK (L, Some n)"
  shows "ahead False (L, Some n) = L ! n # drop (Suc n) L" "ahead True (L, Some n) = L ! n # rev (take n L)"
  using assms by (simp_all add: ahead_def cursorOK_def Cons_nth_drop_Suc take_Suc_conv_app_nth)

lemma valid_todo:
  assumes laws: "cursorLaws ops cur" and ok: "cursorOK (cur (source itr))"
  shows "fst (rocksValid ops itr) \<longleftrightarrow> todo cur itr \<noteq> []"
    "todo cur itr \<noteq> [] \<Longrightarrow> snd (rocksValid ops itr) = itr"
    "todo cur itr = [] \<Longrightarrow> isInvalid (snd (rocksValid ops itr))"
proof -
  obtain L p where c: "cur (source itr) = (L, p)" by fastforce
  note u = cursor_unfold [OF laws c]
  have "(fst (rocksValid ops itr) \<longleftrightarrow> todo cur itr \<noteq> []) \<and> (todo cur itr \<noteq> [] \<longrightarrow> snd (rocksValid ops itr) = itr) \<and>
    (todo cur itr = [] \<longrightarrow> isInvalid (snd (rocksValid ops itr)))"
  proof (cases p)
    case None
    then show ?thesis using u(1,2) c by (simp add: rocksValid_def todo_def ahead_def)
  next
    case (Some n)
    then have a: "ahead (isReverse itr) (L, p) = L ! n # tl (ahead (isReverse itr) (L, p))"
      using ahead_cases [of L n] ok c by (cases "isReverse itr") simp_all
    have b: "inBound itr (fst (L ! n)) \<longleftrightarrow>
        \<not> (if isReverse itr then (case rstart itr of None \<Rightarrow> False | Some s \<Rightarrow> bytesCompare (fst (L ! n)) s < 0)
            else (case rend itr of None \<Rightarrow> False | Some e \<Rightarrow> bytesCompare e (fst (L ! n)) \<le> 0))"
      by (auto simp: inBound_def compare_simps not_less not_le split: option.splits)
    have t: "todo cur itr = [] \<longleftrightarrow> isInvalid itr \<or> \<not> inBound itr (fst (L ! n))"
      unfolding todo_def c by (subst a) simp
    show ?thesis
      using u(1,2) u(6) [OF Some] Some c unfolding t b by (auto simp: rocksValid_def Let_def)
  qed
  then show "fst (rocksValid ops itr) \<longleftrightarrow> todo cur itr \<noteq> []" "todo cur itr \<noteq> [] \<Longrightarrow> snd (rocksValid ops itr) = itr"
    "todo cur itr = [] \<Longrightarrow> isInvalid (snd (rocksValid ops itr))" by blast+
qed

lemma todo_Cons:
  assumes laws: "cursorLaws ops cur" and ok: "cursorOK (cur (source itr))" and t: "todo cur itr = (k, v, ts) # rest"
  shows "srcKey ops (source itr) = k" "srcValue ops (source itr) = v" "srcTimestamp ops (source itr) = putU64 ts"
    "todo cur (advance ops itr) = rest" "cursorOK (cur (source (advance ops itr)))"
    "length (ahead (isReverse itr) (cur (source (advance ops itr)))) < length (ahead (isReverse itr) (cur (source itr)))"
proof -
  obtain L p where c: "cur (source itr) = (L, p)" by fastforce
  have "p \<noteq> None" using t c by (cases p) (auto simp: todo_def ahead_def split: if_splits)
  then obtain n where p: "p = Some n" by blast
  note u = cursor_unfold [OF laws c]
  let ?a = "ahead (isReverse itr) (L, p)" and ?a' = "ahead (isReverse itr) (cur (source (advance ops itr)))"
  have n: "n < length L" using ok c p by (simp add: cursorOK_def)
  have a: "?a = L ! n # ?a'" and ok': "cursorOK (cur (source (advance ops itr)))"
    using ahead_cases [of L n] n u(9,10) [OF p] p ok c
    by (cases "isReverse itr"; auto simp: advance_def ahead_def cursorOK_def)+
  have inv: "\<not> isInvalid itr" using t by (auto simp: todo_def)
  have t': "takeWhile (\<lambda>x. inBound itr (fst x)) ?a = (k, v, ts) # rest" using t inv c by (simp add: todo_def)
  then have kv: "L ! n = (k, v, ts)" and r: "takeWhile (\<lambda>x. inBound itr (fst x)) ?a' = rest"
    unfolding a by (auto split: if_splits)
  show "srcKey ops (source itr) = k" "srcValue ops (source itr) = v" "srcTimestamp ops (source itr) = putU64 ts"
    using u(6-8) [OF p] kv by simp_all
  show "todo cur (advance ops itr) = rest" using r inv by (cases "isReverse itr") (simp_all add: todo_def advance_def inBound_def)
  show "cursorOK (cur (source (advance ops itr)))" by (rule ok')
  show "length ?a' < length (ahead (isReverse itr) (cur (source itr)))" using a c by simp
qed

definition keep :: "bool \<Rightarrow> bytes \<times> bytes \<times> u64 \<Rightarrow> bool" where
  "keep skip x \<longleftrightarrow> skip \<longrightarrow> snd (snd x) \<noteq> 0"

abbreviation moved :: "'i rocksDBIterator \<Rightarrow> 'i rocksDBIterator \<Rightarrow> bool" where
  "moved itr itr' \<equiv> isReverse itr' = isReverse itr \<and> rprefix itr' = rprefix itr \<and> rskip itr' = rskip itr"

lemma trySkip_todo:
  assumes laws: "cursorLaws ops cur"
  shows "cursorOK (cur (source itr)) \<Longrightarrow>
    \<exists>itr'. trySkipZeroVersion ops itr = Some itr' \<and> cursorOK (cur (source itr')) \<and> moved itr itr' \<and>
      todo cur itr' = dropWhile (\<lambda>x. \<not> keep (rskip itr) x) (todo cur itr) \<and>
      length (ahead (isReverse itr) (cur (source itr'))) \<le> length (ahead (isReverse itr) (cur (source itr)))"
proof (induction "length (ahead (isReverse itr) (cur (source itr)))" arbitrary: itr rule: less_induct)
  case less
  note ok = less.prems
  note v = valid_todo [OF laws ok]
  show ?case
  proof (cases "rskip itr")
    case False
    then show ?thesis using ok by (subst trySkipZeroVersion.simps) (simp add: keep_def dropWhile_eq_self_iff)
  next
    case skip: True
    show ?thesis
    proof (cases "todo cur itr")
      case Nil
      obtain itr' where itr': "rocksValid ops itr = (False, itr')" "isInvalid itr'" using v Nil by (cases "rocksValid ops itr") auto
      have s: "source itr' = source itr" "moved itr itr'" using itr'(1) by (auto simp: rocksValid_def Let_def split: if_splits)
      have "trySkipZeroVersion ops itr = Some itr'" using skip itr'(1) by (subst trySkipZeroVersion.simps) simp
      then show ?thesis using Nil ok s itr'(2) by (simp add: todo_def)
    next
      case (Cons x rest)
      obtain k u t where x: "x = (k, u, t)" by (metis prod_cases3)
      note c = todo_Cons [OF laws ok Cons [unfolded x]]
      have r: "rocksValid ops itr = (True, itr)" using v Cons by (cases "rocksValid ops itr") auto
      have adv: "moved itr (advance ops itr)" by (simp add: advance_def)
      show ?thesis
      proof (cases "t = 0")
        case True
        have step: "trySkipZeroVersion ops itr = trySkipZeroVersion ops (advance ops itr)"
          using skip r c(3) True by (subst trySkipZeroVersion.simps) simp
        have "length (ahead (isReverse (advance ops itr)) (cur (source (advance ops itr)))) < length (ahead (isReverse itr) (cur (source itr)))"
          using c(6) adv by simp
        from less.hyps [OF this c(5)] obtain itr' where i: "trySkipZeroVersion ops (advance ops itr) = Some itr'" "cursorOK (cur (source itr'))"
          "moved itr itr'" "todo cur itr' = dropWhile (\<lambda>x. \<not> keep (rskip itr) x) rest"
          "length (ahead (isReverse itr) (cur (source itr'))) \<le> length (ahead (isReverse itr) (cur (source (advance ops itr))))"
          unfolding c(4) using adv by auto
        then show ?thesis using step c(6) skip Cons x True by (simp add: keep_def)
      next
        case False
        then have "trySkipZeroVersion ops itr = Some itr" using skip r c(3) by (subst trySkipZeroVersion.simps) simp
        then show ?thesis using ok Cons x False by (simp add: keep_def)
      qed
    qed
  qed
qed

lemma filter_dropWhile_not: "filter P (dropWhile (\<lambda>x. \<not> P x) xs) = filter P xs"
  by (induction xs) auto

abbreviation shown :: "bytes \<Rightarrow> bytes \<times> bytes \<times> u64 \<Rightarrow> bytes \<times> bytes \<times> bytes" where
  "shown prefix x \<equiv> (drop (length prefix) (fst x), fst (snd x), putU64 (snd (snd x)))"

lemma drain_todo:
  assumes laws: "cursorLaws ops cur"
  shows "cursorOK (cur (source itr)) \<Longrightarrow> dropWhile (\<lambda>x. \<not> keep (rskip itr) x) (todo cur itr) = todo cur itr \<Longrightarrow>
    \<forall>x \<in> set (todo cur itr). length (rprefix itr) \<le> length (fst x) \<Longrightarrow>
    drain ops itr = Some (map (shown (rprefix itr)) (filter (keep (rskip itr)) (todo cur itr)))"
proof (induction "length (ahead (isReverse itr) (cur (source itr)))" arbitrary: itr rule: less_induct)
  case less
  note ok = less.prems(1)
  note v = valid_todo [OF laws ok]
  show ?case
  proof (cases "todo cur itr")
    case Nil
    then show ?thesis using v by (subst drain.simps, cases "rocksValid ops itr") simp
  next
    case (Cons x rest)
    obtain k u t where x: "x = (k, u, t)" by (metis prod_cases3)
    note c = todo_Cons [OF laws ok Cons [unfolded x]]
    have r: "rocksValid ops itr = (True, itr)" using v Cons by (cases "rocksValid ops itr") auto
    have adv: "moved itr (advance ops itr)" by (simp add: advance_def)
    from trySkip_todo [OF laws c(5)] obtain itr' where i: "trySkipZeroVersion ops (advance ops itr) = Some itr'" "cursorOK (cur (source itr'))"
      "moved itr itr'" "todo cur itr' = dropWhile (\<lambda>x. \<not> keep (rskip itr) x) rest"
      "length (ahead (isReverse itr) (cur (source itr'))) \<le> length (ahead (isReverse itr) (cur (source (advance ops itr))))"
      unfolding c(4) using adv by auto
    have "set (todo cur itr') \<subseteq> set (todo cur itr)" using i(4) Cons by (auto dest: set_dropWhileD)
    then have pre: "\<forall>x \<in> set (todo cur itr'). length (rprefix itr') \<le> length (fst x)" using less.prems(3) i(3) by auto
    have d: "drain ops itr' = Some (map (shown (rprefix itr)) (filter (keep (rskip itr)) rest))"
      using less.hyps [of itr', OF _ i(2) _ pre] i(3,4,5) c(6) by (simp add: filter_dropWhile_not)
    have kp: "keep (rskip itr) x" using less.prems(2) Cons by (metis dropWhile_eq_self_iff list.distinct(1) list.sel(1))
    have "rocksKey ops itr = Some (drop (length (rprefix itr)) k)" using r c(1) less.prems(3) Cons x by (simp add: rocksKey_def sliceAt_def)
    then show ?thesis
      using r c(2,3) i(1) d kp Cons x by (subst drain.simps) (simp add: rocksValue_def rocksTimestamp_def rocksNext_def)
  qed
qed

section \<open>Seeking\<close>

type_synonym entry = "bytes \<times> bytes \<times> u64"

abbreviation keySorted :: "entry list \<Rightarrow> bool" where
  "keySorted L \<equiv> sorted_wrt (\<lambda>x y. fst x < fst y) L"

lemma sorted_dropWhile: "keySorted L \<Longrightarrow> dropWhile (\<lambda>x. fst x < s) L = filter (\<lambda>x. s \<le> fst x) L"
proof (induction L)
  case (Cons x L)
  have "filter (\<lambda>y. s \<le> fst y) L = L" if "s \<le> fst x"
    using Cons.prems that by (intro filter_True) (auto intro: order.strict_implies_order order_le_less_trans)
  then show ?case using Cons by (auto simp: not_less)
qed simp

lemma sorted_takeWhile: "keySorted L \<Longrightarrow> takeWhile (\<lambda>x. fst x < e) L = filter (\<lambda>x. fst x < e) L"
proof (induction L)
  case (Cons x L)
  have "filter (\<lambda>y. fst y < e) L = []" if "\<not> fst x < e"
    using Cons.prems that by (intro filter_False) (auto dest: order_less_trans)
  then show ?case using Cons by auto
qed simp

lemma sorted_takeWhile_rev: "keySorted L \<Longrightarrow> takeWhile (\<lambda>x. s \<le> fst x) (rev L) = rev (filter (\<lambda>x. s \<le> fst x) L)"
proof (induction L rule: rev_induct)
  case (snoc x L)
  have "filter (\<lambda>y. s \<le> fst y) L = []" if "\<not> s \<le> fst x"
    using snoc.prems that by (intro filter_False) (auto simp: sorted_wrt_append not_le dest: order_less_trans)
  then show ?case using snoc by (auto simp: sorted_wrt_append)
qed simp

lemma seek_ahead:
  assumes laws: "cursorLaws ops cur" and c: "cur src = (L, p)"
  shows "ahead reverse (cur (seekSource ops start stop reverse src)) =
      (if reverse then rev (case stop of None \<Rightarrow> L | Some e \<Rightarrow> takeWhile (\<lambda>x. fst x < e) L)
       else (case start of None \<Rightarrow> L | Some s \<Rightarrow> dropWhile (\<lambda>x. fst x < s) L))"
    "cursorOK (cur (seekSource ops start stop reverse src))"
proof -
  note u = cursor_unfold [OF laws c]
  let ?n = "\<lambda>k. length (takeWhile (\<lambda>x. fst x < k) L)"
  have n: "?n k \<le> length L" for k by (rule length_takeWhile_le)
  have drop: "drop (?n k) L = dropWhile (\<lambda>x. fst x < k) L" and take: "take (?n k) L = takeWhile (\<lambda>x. fst x < k) L" for k
    by (rule dropWhile_eq_drop [symmetric], rule takeWhile_eq_take [symmetric])
  have fwd: "ahead False (cur (srcSeek ops k src)) = dropWhile (\<lambda>x. fst x < k) L" "cursorOK (cur (srcSeek ops k src))" for k
    unfolding u(5) using drop [of k] n [of k] by (auto simp: ahead_def cursorOK_def Let_def)
  have last: "ahead True (L, if L = [] then None else Some (length L - 1)) = rev L" by (simp add: ahead_def)
  have bwd: "ahead True (cur (seekSource ops start (Some e) True src)) = rev (takeWhile (\<lambda>x. fst x < e) L) \<and>
      cursorOK (cur (seekSource ops start (Some e) True src))" for e
  proof (cases "?n e < length L")
    case True
    let ?i = "srcSeek ops e src"
    have ci: "cur ?i = (L, Some (?n e))" using u(5) [of e] True by simp
    note ui = cursor_unfold [OF laws ci]
    have "\<not> fst (L ! ?n e) < e" using nth_length_takeWhile [OF True] by blast
    then have "seekSource ops start (Some e) True src = srcPrev ops ?i"
      using ui(2) ui(6) [OF refl] by (simp add: seekSource_def compare_simps not_less)
    then show ?thesis using ui(10) [OF refl] take [of e] n [of e] True by (auto simp: ahead_def cursorOK_def)
  next
    case False
    then have all: "?n e = length L" using n [of e] by simp
    let ?i = "srcSeek ops e src"
    have ci: "cur ?i = (L, None)" using u(5) [of e] all by simp
    note ui = cursor_unfold [OF laws ci]
    have "seekSource ops start (Some e) True src = srcSeekToLast ops ?i" using ui(2) by (simp add: seekSource_def)
    then show ?thesis using ui(4) last take [of e] all by (auto simp: cursorOK_def)
  qed
  have seeks: "seekSource ops start stop False src = (case start of None \<Rightarrow> srcSeekToFirst ops src | Some s \<Rightarrow> srcSeek ops s src)"
    "seekSource ops start None True src = srcSeekToLast ops src" by (simp_all add: seekSource_def)
  have ends: "cursorOK (L, if L = [] then None else Some 0)" "cursorOK (L, if L = [] then None else Some (length L - 1))"
    "ahead False (L, if L = [] then None else Some 0) = L" by (simp_all add: cursorOK_def ahead_def)
  show "ahead reverse (cur (seekSource ops start stop reverse src)) =
      (if reverse then rev (case stop of None \<Rightarrow> L | Some e \<Rightarrow> takeWhile (\<lambda>x. fst x < e) L)
       else (case start of None \<Rightarrow> L | Some s \<Rightarrow> dropWhile (\<lambda>x. fst x < s) L))"
  proof (cases reverse)
    case True
    then show ?thesis by (cases stop) (simp_all add: seeks u(4) last bwd)
  next
    case False
    then show ?thesis by (cases start) (simp_all add: seekSource_def u(3) ends fwd)
  qed
  show "cursorOK (cur (seekSource ops start stop reverse src))"
  proof (cases reverse)
    case True
    then show ?thesis by (cases stop) (simp_all add: seeks u(4) ends bwd)
  next
    case False
    then show ?thesis by (cases start) (simp_all add: seekSource_def u(3) ends fwd)
  qed
qed

lemma new_iterator:
  assumes laws: "cursorLaws ops cur" and c: "cur src = (L, p)" and sorted: "keySorted L"
    and pre: "\<forall>x \<in> set L. inDomain start stop (fst x) \<longrightarrow> length prefix \<le> length (fst x)"
  shows "\<exists>itr. newRocksDBIterator ops src prefix start stop reverse skip = Some itr \<and>
    drain ops itr = Some (map (shown prefix) (inOrder (\<not> reverse) (filter (\<lambda>x. inDomain start stop (fst x) \<and> keep skip x) L)))"
proof -
  let ?i0 = "\<lparr>source = seekSource ops start stop reverse src, rprefix = prefix, rstart = start, rend = stop, isReverse = reverse,
        isInvalid = False, rskip = skip\<rparr>"
  note a = seek_ahead [OF laws c, where reverse = reverse and start = start and stop = stop]
  have td: "todo cur ?i0 = inOrder (\<not> reverse) (filter (\<lambda>x. inDomain start stop (fst x)) L)"
  proof (cases reverse)
    case True
    have "keySorted (case stop of None \<Rightarrow> L | Some e \<Rightarrow> takeWhile (\<lambda>x. fst x < e) L)"
      using sorted by (simp add: sorted_takeWhile sorted_wrt_filter split: option.split)
    then show ?thesis
      using a(1) True sorted
      by (cases start; cases stop)
        (simp_all add: todo_def inBound_def inOrder_def inDomain_def sorted_takeWhile sorted_takeWhile_rev takeWhile_eq_all_conv conj_commute)
  next
    case False
    then show ?thesis
      using a(1) sorted
      by (cases start; cases stop)
        (simp_all add: todo_def inBound_def inOrder_def inDomain_def sorted_dropWhile sorted_takeWhile sorted_wrt_filter takeWhile_eq_all_conv conj_commute)
  qed
  have "cursorOK (cur (source ?i0))" using a(2) by simp
  from trySkip_todo [OF laws this] obtain itr where i: "trySkipZeroVersion ops ?i0 = Some itr" "cursorOK (cur (source itr))"
    "rprefix itr = prefix" "rskip itr = skip" "todo cur itr = dropWhile (\<lambda>x. \<not> keep skip x) (todo cur ?i0)" by auto
  have "set (todo cur itr) \<subseteq> set (todo cur ?i0)" unfolding i(5) by (auto dest: set_dropWhileD)
  then have len: "\<forall>x \<in> set (todo cur itr). length (rprefix itr) \<le> length (fst x)"
    unfolding td i(3) using pre by (auto simp: inOrder_def split: if_splits)
  have stay: "dropWhile (\<lambda>x. \<not> keep (rskip itr) x) (todo cur itr) = todo cur itr" unfolding i(4,5) by (rule dropWhile_idem)
  have "drain ops itr = Some (map (shown prefix) (filter (keep skip) (todo cur ?i0)))"
    using drain_todo [OF laws i(2) stay len] unfolding i(3,4,5) filter_dropWhile_not by blast
  moreover have "filter (keep skip) (todo cur ?i0) = inOrder (\<not> reverse) (filter (\<lambda>x. inDomain start stop (fst x) \<and> keep skip x) L)"
    unfolding td by (simp add: inOrder_def rev_filter [symmetric] conj_commute)
  ultimately show ?thesis using i(1) by (simp add: newRocksDBIterator_def)
qed

section \<open>Reads\<close>

lemma len8: "LENGTH(8) = 8"
  by simp

lemma of_char_inj: "(of_char c :: byte) = of_char d \<longleftrightarrow> c = d"
proof -
  have "(of_char c :: byte) = of_nat (of_char c)" "(of_char d :: byte) = of_nat (of_char d)"
    by (rule of_nat_of_char [symmetric])+
  then have "(of_char c :: byte) = of_char d \<longleftrightarrow> take_bit 8 (of_char c :: nat) = take_bit 8 (of_char d)"
    by (metis word_of_nat_eq_iff len8)
  moreover have "take_bit 8 (of_char x :: nat) = of_char x" for x
    using nat_of_char_less_256 [of x] by (simp add: take_bit_nat_eq_self)
  ultimately show ?thesis by simp
qed

definition plainName :: "string \<Rightarrow> bool" where
  "plainName name \<longleftrightarrow> CHR ''/'' \<notin> set name"

lemma prependStoreKey_inj:
  assumes "plainName n" "plainName n'"
  shows "prependStoreKey n k = prependStoreKey n' k' \<longleftrightarrow> n = n' \<and> k = k'"
proof
  let ?c = "of_char (CHR ''/'') :: byte"
  have tw: "takeWhile (\<lambda>b. b \<noteq> ?c) (strBytes m @ ?c # x) = strBytes m" if "plainName m" for m x
    using that by (subst takeWhile_append2) (auto simp: strBytes_def plainName_def of_char_inj [of _ "CHR ''/''", simplified])
  assume "prependStoreKey n k = prependStoreKey n' k'"
  then have e: "strBytes n @ ?c # k = strBytes n' @ ?c # k'" by (simp add: prependStoreKey_def storePrefix_def strBytes_def)
  then have b: "strBytes n = strBytes n'" using tw [OF assms(1), of k] tw [OF assms(2), of k'] by simp
  then have "n = n'" unfolding strBytes_def by (rule map_injective) (simp add: inj_def of_char_inj)
  then show "n = n' \<and> k = k'" using e by simp
qed simp

lemma readAt_put:
  assumes "\<forall>t. h key t \<noteq> None \<longrightarrow> t \<le> v"
  shows "readAt (putHist key' v val h) key w = (if key = key' \<and> v \<le> w then map_option (\<lambda>x. (x, v)) val else readAt h key w)"
proof (cases "key = key' \<and> v \<le> w")
  case True
  let ?S = "{t'. t' \<le> w \<and> putHist key' v val h key t' \<noteq> None}"
  have m: "Max ?S = v" using True assms by (intro Max_eqI) (auto simp: putHist_def split: if_splits)
  have v: "putHist key' v val h key v = Some val" using True by (simp add: putHist_def)
  then have "v \<in> ?S" using True by simp
  then have "?S \<noteq> {}" by blast
  then show ?thesis unfolding readAt_def Let_def m v using True by (simp only: if_False v option.case simp_thms if_True) (cases val, simp_all)
next
  case False
  then have "{t'. t' \<le> w \<and> putHist key' v val h key t' \<noteq> None} = {t'. t' \<le> w \<and> h key t' \<noteq> None}" by (auto simp: putHist_def)
  moreover have "putHist key' v val h key t = h key t" if "t \<le> w" for t using False that by (auto simp: putHist_def)
  moreover have "Max {t'. t' \<le> w \<and> h key t' \<noteq> None} \<le> w" if "{t'. t' \<le> w \<and> h key t' \<noteq> None} \<noteq> {}" using that by simp
  ultimately show ?thesis using False by (auto simp: readAt_def Let_def)
qed

text \<open>The state of the stores that a history shows at a version, and what a pair does to it.\<close>

type_synonym kvState = "string \<Rightarrow> bytes \<Rightarrow> slice"

definition stateAt :: "history \<Rightarrow> u64 \<Rightarrow> kvState" where
  "stateAt h w name key = map_option fst (readAt h (prependStoreKey name key) w)"

definition applyStorePair :: "storePair \<Rightarrow> kvState \<Rightarrow> kvState" where
  "applyStorePair p st name key =
     (if name = spStore p \<and> key = spKey p then (if spDelete p then None else Some (spValue p)) else st name key)"

definition agreesWith :: "history \<Rightarrow> u64 \<Rightarrow> kvState \<Rightarrow> bool" where
  "agreesWith h w st \<longleftrightarrow> (\<forall>name key. plainName name \<longrightarrow> stateAt h w name key = st name key)"

definition upTo :: "history \<Rightarrow> u64 \<Rightarrow> bool" where
  "upTo h v \<longleftrightarrow> (\<forall>key t. h key t \<noteq> None \<longrightarrow> t \<le> v)"

lemma upTo_mono: "upTo h v \<Longrightarrow> v \<le> w \<Longrightarrow> upTo h w"
  unfolding upTo_def by (metis order_trans)

lemma batchPair_state:
  assumes "upTo h v" "agreesWith h w st" "plainName (spStore p)"
  shows "\<exists>h'. applyOp (batchPair (putU64 v) p) (plain, h) = (plain, h') \<and> upTo h' v \<and>
    agreesWith h' w (if v \<le> w then applyStorePair p st else st)"
proof -
  let ?key = "prependStoreKey (spStore p) (spKey p)" and ?val = "if spDelete p then None else Some (spValue p)"
  let ?h = "putHist ?key v ?val h"
  have "applyOp (batchPair (putU64 v) p) (plain, h) = (plain, ?h)" by (simp add: batchPair_def Let_def)
  moreover have "upTo ?h v" using assms(1) by (simp add: upTo_def putHist_def)
  moreover have "agreesWith ?h w (if v \<le> w then applyStorePair p st else st)"
    unfolding agreesWith_def
  proof (intro allI impI)
    fix name key assume n: "plainName name"
    have "readAt ?h (prependStoreKey name key) w =
        (if (name = spStore p \<and> key = spKey p) \<and> v \<le> w then map_option (\<lambda>x. (x, v)) ?val else readAt h (prependStoreKey name key) w)"
      using readAt_put [of h "prependStoreKey name key" v ?key ?val w] assms(1) prependStoreKey_inj [OF n assms(3)] by (simp add: upTo_def)
    then show "stateAt ?h w name key = (if v \<le> w then applyStorePair p st else st) name key"
      using assms(2) n by (auto simp: stateAt_def applyStorePair_def agreesWith_def)
  qed
  ultimately show ?thesis by blast
qed

lemma batch_state:
  "upTo h v \<Longrightarrow> agreesWith h w st \<Longrightarrow> \<forall>p \<in> set cs. plainName (spStore p) \<Longrightarrow>
   \<exists>h'. fold applyOp (map (batchPair (putU64 v)) cs) (plain, h) = (plain, h') \<and> upTo h' v \<and>
     agreesWith h' w (if v \<le> w then fold applyStorePair cs st else st)"
proof (induction cs arbitrary: h st)
  case (Cons p cs)
  from batchPair_state [OF Cons.prems(1,2), of p plain] Cons.prems(3)
  obtain h1 where h1: "applyOp (batchPair (putU64 v) p) (plain, h) = (plain, h1)" "upTo h1 v"
    "agreesWith h1 w (if v \<le> w then applyStorePair p st else st)" by auto
  from Cons.IH [OF h1(2,3)] Cons.prems(3) h1(1) show ?case by (cases "v \<le> w") auto
qed auto

definition applyBlock :: "u64 \<times> storePair list \<Rightarrow> kvState \<Rightarrow> kvState" where
  "applyBlock b st = fold applyStorePair (snd b) st"

lemma PutAtVersion_state:
  assumes laws: "rocksLaws ops view cur" and put: "PutAtVersion ops v cs d = (Inr (), d')" and up: "upTo (snd (view d)) v"
    and ag: "agreesWith (snd (view d)) w st" and plain: "\<forall>p \<in> set cs. plainName (spStore p)"
  shows "fst (view d') latestVersionKey = Some (putU64 v)" "upTo (snd (view d')) v"
    "agreesWith (snd (view d')) w (if v \<le> w then applyBlock (v, cs) st else st)"
proof -
  let ?batch = "BatchPut latestVersionKey (putU64 v) # map (batchPair (putU64 v)) cs"
  have "\<forall>sync batch d. (\<exists>d'. rkWrite ops sync batch d = (Inr (), d') \<and> view d' = fold applyOp batch (view d)) \<or>
        (\<exists>e d'. rkWrite ops sync batch d = (Inl e, d') \<and> view d' = view d)"
    using laws unfolding rocksLaws_def by (elim conjE)
  from this [rule_format, of True ?batch d] put have vd: "view d' = fold applyOp ?batch (view d)"
    by (auto simp: PutAtVersion_def Let_def)
  obtain plain h where v0: "view d = (plain, h)" by fastforce
  obtain h' where h': "fold applyOp (map (batchPair (putU64 v)) cs) (plain(latestVersionKey := Some (putU64 v)), h) =
      (plain(latestVersionKey := Some (putU64 v)), h')" "upTo h' v" "agreesWith h' w (if v \<le> w then fold applyStorePair cs st else st)"
    using batch_state [of h v w st cs "plain(latestVersionKey := Some (putU64 v))"] up ag plain v0 by auto
  have "view d' = (plain(latestVersionKey := Some (putU64 v)), h')" using vd v0 h'(1) by simp
  then show "fst (view d') latestVersionKey = Some (putU64 v)" "upTo (snd (view d')) v"
    "agreesWith (snd (view d')) w (if v \<le> w then applyBlock (v, cs) st else st)"
    using h'(2,3) by (simp_all add: applyBlock_def split: if_splits)
qed

lemma PutAtVersion_blocks:
  assumes laws: "rocksLaws ops view cur"
  shows "forEach (case_prod (PutAtVersion ops)) blocks d = (Inr (), d') \<Longrightarrow> sorted_wrt (<) (map fst blocks) \<Longrightarrow>
    \<forall>b \<in> set blocks. upTo (snd (view d)) (fst b) \<Longrightarrow> agreesWith (snd (view d)) w st \<Longrightarrow>
    \<forall>b \<in> set blocks. \<forall>p \<in> set (snd b). plainName (spStore p) \<Longrightarrow>
    agreesWith (snd (view d')) w (fold applyBlock (filter (\<lambda>b. fst b \<le> w) blocks) st) \<and>
    (blocks \<noteq> [] \<longrightarrow> fst (view d') latestVersionKey = Some (putU64 (fst (last blocks))))"
proof (induction blocks arbitrary: d st)
  case (Cons b blocks)
  obtain v cs where b: "b = (v, cs)" by fastforce
  obtain d1 where d1: "PutAtVersion ops v cs d = (Inr (), d1)" "forEach (case_prod (PutAtVersion ops)) blocks d1 = (Inr (), d')"
    using Cons.prems(1) b by (cases "PutAtVersion ops v cs d") (auto simp: thenDo_def split: sum.splits)
  have up: "upTo (snd (view d)) v" and plain: "\<forall>p \<in> set cs. plainName (spStore p)" using Cons.prems(3,5) b by auto
  note p = PutAtVersion_state [OF laws d1(1) up Cons.prems(4) plain]
  have "\<forall>b \<in> set blocks. v \<le> fst b" using Cons.prems(2) b by (auto intro: less_imp_le)
  then have "\<forall>b \<in> set blocks. upTo (snd (view d1)) (fst b)" using p(2) upTo_mono by blast
  from Cons.IH [OF d1(2) _ this p(3)] Cons.prems(2,5) p(1) d1(2)
  show ?case by (cases blocks; cases "v \<le> w") (auto simp: b)
qed simp

section \<open>Properties\<close>

abbreviation atVersion :: "u64 option \<Rightarrow> u64" where
  "atVersion version \<equiv> (case version of None \<Rightarrow> -1 | Some v \<Rightarrow> v)"

lemma PutAtVersion_reads:
  assumes laws: "rocksLaws ops view cur"
    and put: "forEach (case_prod (PutAtVersion ops)) blocks d = (Inr (), d')" "blocks \<noteq> []" "sorted_wrt (<) (map fst blocks)"
    and old: "upTo (snd (view d)) (fst (hd blocks))"
    and names: "\<forall>b \<in> set blocks. \<forall>p \<in> set (snd b). plainName (spStore p)" "plainName name"
    and st: "st = fold applyBlock (filter (\<lambda>b. fst b \<le> atVersion version) blocks) (stateAt (snd (view d)) (atVersion version))"
  shows "GetAtVersion ops False name key version d' = Inr (st name key) \<and> HasAtVersion ops False name key version d' = Inr (st name key \<noteq> None) \<and>
    tsLatestVersion ops d' = Inr (fst (last blocks))"
proof -
  have "\<forall>b \<in> set blocks. fst (hd blocks) \<le> fst b" using put(2,3) by (cases blocks) (auto intro: less_imp_le)
  then have up: "\<forall>b \<in> set blocks. upTo (snd (view d)) (fst b)" using old upTo_mono by blast
  have "agreesWith (snd (view d)) (atVersion version) (stateAt (snd (view d)) (atVersion version))" by (simp add: agreesWith_def)
  from PutAtVersion_blocks [OF laws put(1,3) up this names(1)] put(2)
  have ag: "agreesWith (snd (view d')) (atVersion version) st" and lv: "fst (view d') latestVersionKey = Some (putU64 (fst (last blocks)))"
    using st by simp_all
  have get: "rkGet ops k d' = Inr (fst (view d') k)" "rkGetTS ops (putU64 t) k d' = Inr (case readAt (snd (view d')) k t of None \<Rightarrow> (None, []) | Some (v, t') \<Rightarrow> (Some v, putU64 t'))" for k t
    using laws unfolding rocksLaws_def by (elim conjE, simp)+
  have "GetAtVersion ops False name key version d' = Inr (stateAt (snd (view d')) (atVersion version) name key)"
    by (simp add: GetAtVersion_def GetAtVersionSlice_def newTSReadOptions_def get viaRocks_def stateAt_def split: option.split)
  moreover have "stateAt (snd (view d')) (atVersion version) name key = st name key" using ag names(2) by (simp add: agreesWith_def)
  moreover have "tsLatestVersion ops d' = Inr (fst (last blocks))"
    by (simp add: tsLatestVersion_def get lv viaRocks_def putU64_def)
      (use getU64_putU64_nil [of "fst (last blocks)"] in \<open>simp add: putU64_def\<close>)
  ultimately show ?thesis by (simp add: HasAtVersion_def GetAtVersion_def)
qed

text \<open>A database that keeps its data in lists, for which the laws hold.\<close>

type_synonym listDb = "(bytes \<times> bytes) list \<times> ((bytes \<times> u64) \<times> slice) list"

fun listOp :: "batchOp \<Rightarrow> listDb \<Rightarrow> listDb" where
  "listOp (BatchPut key val) (plain, h) = ((key, val) # plain, h)"
| "listOp (BatchPutTS key ts val) (plain, h) = (case getU64 ts of None \<Rightarrow> (plain, h) | Some t \<Rightarrow> (plain, ((key, t), Some val) # h))"
| "listOp (BatchDeleteTS key ts) (plain, h) = (case getU64 ts of None \<Rightarrow> (plain, h) | Some t \<Rightarrow> (plain, ((key, t), None) # h))"

definition listView :: "listDb \<Rightarrow> rocksView" where
  "listView d = (map_of (fst d), \<lambda>key t. map_of (snd d) (key, t))"

definition visibleAt :: "u64 \<Rightarrow> listDb \<Rightarrow> entry list" where
  "visibleAt t d =
     map (\<lambda>k. (k, the (readAt (snd (listView d)) k t)))
       (filter (\<lambda>k. readAt (snd (listView d)) k t \<noteq> None) (sorted_list_of_set (fst ` fst ` set (snd d))))"

definition listRocks :: "(listDb, cursor, unit) rocksOps" where
  "listRocks =
     \<lparr>rkGet = (\<lambda>key d. Inr (fst (listView d) key)),
      rkGetTS = (\<lambda>ts key d. case getU64 ts of None \<Rightarrow> Inl () | Some t \<Rightarrow>
        Inr (case readAt (snd (listView d)) key t of None \<Rightarrow> (None, []) | Some (v, t') \<Rightarrow> (Some v, putU64 t'))),
      rkWrite = (\<lambda>sync batch d. (Inr (), fold listOp batch d)),
      rkFlush = (\<lambda>d. (Inr (), d)),
      rkIterator = (\<lambda>ts d. (case getU64 ts of None \<Rightarrow> [] | Some t \<Rightarrow> visibleAt t d, None)),
      srcSeek = (\<lambda>k c. (fst c, let n = length (takeWhile (\<lambda>x. fst x < k) (fst c)) in if n < length (fst c) then Some n else None)),
      srcSeekToFirst = (\<lambda>c. (fst c, if fst c = [] then None else Some 0)),
      srcSeekToLast = (\<lambda>c. (fst c, if fst c = [] then None else Some (length (fst c) - 1))),
      srcNext = (\<lambda>c. (fst c, case snd c of None \<Rightarrow> None | Some n \<Rightarrow> if Suc n < length (fst c) then Some (Suc n) else None)),
      srcPrev = (\<lambda>c. (fst c, case snd c of None \<Rightarrow> None | Some n \<Rightarrow> if n = 0 then None else Some (n - 1))),
      srcValid = (\<lambda>c. snd c \<noteq> None), srcErr = (\<lambda>c. None),
      srcKey = (\<lambda>c. case snd c of None \<Rightarrow> [] | Some n \<Rightarrow> fst (fst c ! n)),
      srcValue = (\<lambda>c. case snd c of None \<Rightarrow> [] | Some n \<Rightarrow> fst (snd (fst c ! n))),
      srcTimestamp = (\<lambda>c. case snd c of None \<Rightarrow> [] | Some n \<Rightarrow> putU64 (snd (snd (fst c ! n))))\<rparr>"

lemma listView_fold: "listView (fold listOp batch d) = fold applyOp batch (listView d)"
proof (induction batch arbitrary: d)
  case (Cons op batch)
  obtain plain h where d: "d = (plain, h)" by fastforce
  have "listView (listOp op d) = applyOp op (listView d)"
    by (cases op) (auto simp: d listView_def putHist_def fun_eq_iff split: option.splits)
  then show ?case using Cons by simp
qed simp

lemma visibleAt_spec:
  "keySorted (visibleAt t d)" "set (visibleAt t d) = {(k, v, t'). readAt (snd (listView d)) k t = Some (v, t')}"
proof -
  have "sorted_wrt (<) (filter (\<lambda>k. readAt (snd (listView d)) k t \<noteq> None) (sorted_list_of_set (fst ` fst ` set (snd d))))"
    by (intro sorted_wrt_filter strict_sorted_list_of_set)
  then show "keySorted (visibleAt t d)" unfolding visibleAt_def sorted_wrt_map by simp
  have "k \<in> fst ` fst ` set (snd d)" if r: "readAt (snd (listView d)) k t = Some x" for k x
  proof -
    obtain t' where "snd (listView d) k t' \<noteq> None" using r by (auto simp: readAt_def Let_def split: if_splits)
    then obtain y where "((k, t'), y) \<in> set (snd d)" by (auto simp: listView_def dest: map_of_SomeD)
    then show ?thesis by force
  qed
  then show "set (visibleAt t d) = {(k, v, t'). readAt (snd (listView d)) k t = Some (v, t')}"
    by (force simp: visibleAt_def)
qed

lemma listRocks_laws: "rocksLaws listRocks listView id"
proof -
  have "cursorLaws listRocks id" unfolding cursorLaws_def listRocks_def by simp
  moreover have "\<exists>L. id (rkIterator listRocks (putU64 t) d) = (L, None) \<and> keySorted L \<and>
      set L = {(k, v, t'). readAt (snd (listView d)) k t = Some (v, t')}" for t d
    by (rule exI [of _ "visibleAt t d"]) (simp add: listRocks_def visibleAt_spec)
  ultimately show ?thesis unfolding rocksLaws_def by (simp add: sorted_wrt_map listRocks_def listView_fold)
qed

definition sampleStoreBlocks :: "(u64 \<times> storePair list) list" where
  "sampleStoreBlocks =
     [(1, [\<lparr>spStore = ''bank'', spDelete = False, spKey = [1], spValue = [10]\<rparr>]),
      (2, [\<lparr>spStore = ''gov'', spDelete = False, spKey = [1], spValue = [20]\<rparr>, \<lparr>spStore = ''bank'', spDelete = True, spKey = [1], spValue = []\<rparr>])]"

text \<open>C27: iterators over a version. The iterator of a store at a version, forwards or backwards, gives every entry of the store that is visible at that version and
  whose key is in the domain, once, with its value and timestamp and without the store prefix, in ascending or
  descending order of the keys, and then ends; entries at version zero are left out when they are to be skipped.\<close>

theorem iteratorAtVersion_exact:
  assumes laws: "rocksLaws ops view cur" and bounds: "start \<noteq> Some []" "stop \<noteq> Some []"
  shows "\<exists>itr L. iteratorAtVersion ops skip name start stop version reverse d = Inr itr \<and> keySorted L \<and>
    set L = {(k, v, t). readAt (snd (view d)) (prependStoreKey name k) (atVersion version) = Some (v, t) \<and> inDomain start stop k \<and> (skip \<longrightarrow> t \<noteq> 0)} \<and>
    drain ops itr = Some (map (\<lambda>x. (fst x, fst (snd x), putU64 (snd (snd x)))) (inOrder (\<not> reverse) L))"
proof -
  let ?p = "storePrefix name" and ?src = "rkIterator ops (newTSReadOptions version) d"
  have cl: "cursorLaws ops cur" and it: "\<exists>L. cur (rkIterator ops (putU64 t) d) = (L, None) \<and> sorted_wrt (<) (map fst L) \<and>
        set L = {(k, v, t'). readAt (snd (view d)) k t = Some (v, t')}" for t
    using laws unfolding rocksLaws_def by (elim conjE, simp)+
  obtain M where M: "cur ?src = (M, None)" "keySorted M" "set M = {(k, v, t'). readAt (snd (view d)) k (atVersion version) = Some (v, t')}"
    using it [of "atVersion version"] by (auto simp: newTSReadOptions_def sorted_wrt_map)
  obtain lo hi where r: "iterateWithPrefix ?p start stop = Some (lo, hi)"
    and dom: "\<forall>k. inDomain lo hi k \<longleftrightarrow> (\<exists>s. k = ?p @ s \<and> inDomain start stop s)"
    using storePrefix_range by blast
  have "\<forall>x \<in> set M. inDomain lo hi (fst x) \<longrightarrow> length ?p \<le> length (fst x)" using dom by auto
  from new_iterator [OF cl M(1,2) this, of reverse skip] obtain itr where
    itr: "newRocksDBIterator ops ?src ?p lo hi reverse skip = Some itr"
    "drain ops itr = Some (map (shown ?p) (inOrder (\<not> reverse) (filter (\<lambda>x. inDomain lo hi (fst x) \<and> keep skip x) M)))" by blast
  define N where "N = filter (\<lambda>x. inDomain lo hi (fst x) \<and> keep skip x) M"
  define L where "L = map (\<lambda>x. (drop (length ?p) (fst x), snd x)) N"
  have pre: "\<exists>s. fst x = ?p @ s \<and> inDomain start stop s" if "x \<in> set N" for x using that dom by (auto simp: N_def)
  have "keySorted N" using M(2) by (simp add: N_def sorted_wrt_filter)
  then have "sorted_wrt (\<lambda>x y. drop (length ?p) (fst x) < drop (length ?p) (fst y)) N"
  proof (rule sorted_wrt_mono_rel [rotated])
    fix x y assume xy: "x \<in> set N" "y \<in> set N" "fst x < fst y"
    obtain s s' where "fst x = ?p @ s" "fst y = ?p @ s'" using pre [OF xy(1)] pre [OF xy(2)] by blast
    then show "drop (length ?p) (fst x) < drop (length ?p) (fst y)" using xy(3) by simp
  qed
  then have "keySorted L" by (simp add: L_def sorted_wrt_map)
  moreover have "set L = {(k, v, t). readAt (snd (view d)) (prependStoreKey name k) (atVersion version) = Some (v, t) \<and> inDomain start stop k \<and> (skip \<longrightarrow> t \<noteq> 0)}"
    (is "_ = ?R")
  proof
    show "set L \<subseteq> ?R" using pre M(3) by (force simp: L_def N_def keep_def prependStoreKey_def)
    show "?R \<subseteq> set L"
    proof
      fix x assume "x \<in> ?R"
      then obtain k v t where x: "x = (k, v, t)" "readAt (snd (view d)) (?p @ k) (atVersion version) = Some (v, t)" "inDomain start stop k" "skip \<longrightarrow> t \<noteq> 0"
        by (auto simp: prependStoreKey_def)
      have "(?p @ k, v, t) \<in> set N" using x M(3) dom by (auto simp: N_def keep_def)
      then show "x \<in> set L" using x(1) by (force simp: L_def)
    qed
  qed
  moreover have "drain ops itr = Some (map (\<lambda>x. (fst x, fst (snd x), putU64 (snd (snd x)))) (inOrder (\<not> reverse) L))"
    using itr(2) by (simp add: N_def [symmetric] L_def inOrder_def rev_map comp_def)
  moreover have "iteratorAtVersion ops skip name start stop version reverse d = Inr itr" using bounds r itr(1) by (simp add: iteratorAtVersion_def Let_def)
  ultimately show ?thesis by blast
qed

theorem iteratorAtVersion_exact_witness:
  "\<exists>itr L. iteratorAtVersion listRocks True ''bank'' None (Some [5]) None True ([], [((storePrefix ''bank'' @ [1], 3), Some [10])]) = Inr itr \<and>
    drain listRocks itr = Some (map (\<lambda>x. (fst x, fst (snd x), putU64 (snd (snd x)))) (rev L))"
  using iteratorAtVersion_exact [OF listRocks_laws, of None "Some [5]" True "''bank''" None True "([], [((storePrefix ''bank'' @ [1], 3), Some [10])])"]
  by (auto simp: inOrder_def)

end
