(* ===== verification/VersionMulti.thy ===== *)
theory VersionMulti
  imports TsHistory
begin

text \<open>
  The clients of the version database: the read-only stores of \<open>versiondb/store.go\<close>, the multi store of
  \<open>versiondb/multistore.go\<close> that hands them out, and the listener of \<open>versiondb/streaming_service.go\<close> that writes every committed
  block. A panic is \<open>None\<close>. A store key is its name; tracing has no effect on the state.
\<close>

section \<open>Streaming\<close>

record streamingService =
  currentBlockNumber :: u64

definition ListenFinalizeBlock :: "u64 \<Rightarrow> streamingService \<Rightarrow> streamingService" where
  "ListenFinalizeBlock height fss = fss\<lparr>currentBlockNumber := height\<rparr>"

definition ListenCommit :: "('d, 'i, 'e) rocksOps \<Rightarrow> storePair list \<Rightarrow> streamingService \<Rightarrow> ('d, 'e, unit) action" where
  "ListenCommit ops cs fss = PutAtVersion ops (currentBlockNumber fss) cs"

text \<open>What the application does with a block: both callbacks, one after the other.\<close>

definition listenBlock :: "('d, 'i, 'e) rocksOps \<Rightarrow> u64 \<times> storePair list \<Rightarrow> (streamingService \<times> 'd, 'e, unit) action" where
  "listenBlock ops b s =
     (let fss = ListenFinalizeBlock (fst b) (fst s); (r, d') = ListenCommit ops (snd b) fss (snd s) in (r, (fss, d')))"

section \<open>Stores\<close>

record versionKV =
  vkName :: string
  vkVersion :: "u64 option"

definition NewKVStore :: "string \<Rightarrow> u64 option \<Rightarrow> versionKV" where
  "NewKVStore storeKey version = \<lparr>vkName = storeKey, vkVersion = version\<rparr>"

definition orPanic :: "'e + 'a \<Rightarrow> 'a option" where
  "orPanic r = (case r of Inl _ \<Rightarrow> None | Inr x \<Rightarrow> Some x)"

definition kvGet :: "('d, 'i, 'e) rocksOps \<Rightarrow> bool \<Rightarrow> versionKV \<Rightarrow> bytes \<Rightarrow> 'd \<Rightarrow> slice option" where
  "kvGet ops skip st key d = orPanic (GetAtVersion ops skip (vkName st) key (vkVersion st) d)"

definition kvHas :: "('d, 'i, 'e) rocksOps \<Rightarrow> bool \<Rightarrow> versionKV \<Rightarrow> bytes \<Rightarrow> 'd \<Rightarrow> bool option" where
  "kvHas ops skip st key d = orPanic (HasAtVersion ops skip (vkName st) key (vkVersion st) d)"

definition kvIterator :: "('d, 'i, 'e) rocksOps \<Rightarrow> bool \<Rightarrow> versionKV \<Rightarrow> slice \<Rightarrow> slice \<Rightarrow> 'd \<Rightarrow> 'i rocksDBIterator option" where
  "kvIterator ops skip st start stop d = orPanic (IteratorAtVersion ops skip (vkName st) start stop (vkVersion st) d)"

definition kvReverseIterator :: "('d, 'i, 'e) rocksOps \<Rightarrow> bool \<Rightarrow> versionKV \<Rightarrow> slice \<Rightarrow> slice \<Rightarrow> 'd \<Rightarrow> 'i rocksDBIterator option" where
  "kvReverseIterator ops skip st start stop d = orPanic (ReverseIteratorAtVersion ops skip (vkName st) start stop (vkVersion st) d)"

definition kvSet :: "versionKV \<Rightarrow> bytes \<Rightarrow> bytes \<Rightarrow> unit option" where
  "kvSet st key val = None"

definition kvRemove :: "versionKV \<Rightarrow> bytes \<Rightarrow> unit option" where
  "kvRemove st key = None"

section \<open>Multi store\<close>

datatype storeRef = Versioned versionKV | Delegated string

record versionMulti =
  vmStores :: "(string \<times> versionKV) list"
  delegatedStoreKeys :: "string list"

definition NewMultiStore :: "string list \<Rightarrow> string list \<Rightarrow> versionMulti" where
  "NewMultiStore storeKeys delegated =
     \<lparr>vmStores = map (\<lambda>k. (k, NewKVStore k None)) storeKeys, delegatedStoreKeys = delegated\<rparr>"

definition cacheMultiStore :: "versionMulti \<Rightarrow> u64 option \<Rightarrow> string \<Rightarrow> storeRef option" where
  "cacheMultiStore s version k =
     (case map_of (vmStores s) k of
        Some st \<Rightarrow> Some (Versioned (if version = None then st else NewKVStore k version))
      | None \<Rightarrow> if k \<in> set (delegatedStoreKeys s) then Some (Delegated k) else None)"

definition CacheMultiStoreWithVersion :: "versionMulti \<Rightarrow> u64 \<Rightarrow> string \<Rightarrow> storeRef option" where
  "CacheMultiStoreWithVersion s version = cacheMultiStore s (Some version)"

definition vmGetStore :: "versionMulti \<Rightarrow> string \<Rightarrow> storeRef option" where
  "vmGetStore s k =
     (case map_of (vmStores s) k of
        Some st \<Rightarrow> Some (Versioned st)
      | None \<Rightarrow> if k \<in> set (delegatedStoreKeys s) then Some (Delegated k) else None)"

definition vmLatestVersion :: "('d, 'i, 'e) rocksOps \<Rightarrow> 'd \<Rightarrow> u64 option" where
  "vmLatestVersion ops d = orPanic (tsLatestVersion ops d)"

section \<open>Properties\<close>

lemma listenBlock_put:
  "forEach (listenBlock ops) blocks (fss, d) = (Inr (), (fss', d')) \<Longrightarrow> forEach (case_prod (PutAtVersion ops)) blocks d = (Inr (), d')"
proof (induction blocks arbitrary: fss d)
  case (Cons b blocks)
  obtain r d1 where p: "PutAtVersion ops (fst b) (snd b) d = (r, d1)" by fastforce
  show ?case
    using Cons p by (cases r; cases b) (auto simp: thenDo_def listenBlock_def ListenCommit_def ListenFinalizeBlock_def Let_def)
qed simp

text \<open>C26: historical queries. When the listener has been given blocks of increasing heights, the store that the multi store hands out for a height,
  or for the latest one, shows for every key the value that the blocks up to that height, applied in order to the
  former state, leave there, and nothing when the key was deleted or never set; it never panics, it agrees with \<open>Has\<close>, and the latest
  version is the height of the last block. Store names contain no slash, which would make the key prefixes ambiguous.\<close>

theorem versiondb_serves_blocks:
  assumes laws: "rocksLaws ops view cur"
    and put: "forEach (listenBlock ops) blocks (fss, d) = (Inr (), (fss', d'))" "blocks \<noteq> []" "sorted_wrt (<) (map fst blocks)"
    and old: "upTo (snd (view d)) (fst (hd blocks))"
    and names: "\<forall>b \<in> set blocks. \<forall>p \<in> set (snd b). plainName (spStore p)" "plainName name" "name \<in> set storeKeys"
    and st: "st = fold applyBlock (filter (\<lambda>b. fst b \<le> atVersion version) blocks) (stateAt (snd (view d)) (atVersion version))"
  shows "\<exists>kv. cacheMultiStore (NewMultiStore storeKeys delegated) version name = Some (Versioned kv) \<and>
    kvGet ops False kv key d' = Some (st name key) \<and> kvHas ops False kv key d' = Some (st name key \<noteq> None) \<and>
    vmLatestVersion ops d' = Some (fst (last blocks))"
proof -
  have "map_of (map (\<lambda>k. (k, NewKVStore k None)) storeKeys) name = Some (NewKVStore name None)"
    using names(3) by (induction storeKeys) auto
  then have "cacheMultiStore (NewMultiStore storeKeys delegated) version name = Some (Versioned (NewKVStore name version))"
    by (simp add: cacheMultiStore_def NewMultiStore_def)
  moreover note PutAtVersion_reads [OF laws listenBlock_put [OF put(1)] put(2,3) old names(1,2) st, of key]
  ultimately show ?thesis by (simp add: kvGet_def kvHas_def vmLatestVersion_def NewKVStore_def orPanic_def)
qed

theorem versiondb_serves_blocks_witness:
  "\<exists>d' kv. forEach (listenBlock listRocks) sampleStoreBlocks (\<lparr>currentBlockNumber = 0\<rparr>, ([], [])) = (Inr (), (\<lparr>currentBlockNumber = 2\<rparr>, d')) \<and>
    cacheMultiStore (NewMultiStore [''bank'', ''gov''] [''mem'']) (Some 1) ''bank'' = Some (Versioned kv) \<and> kvGet listRocks False kv [1] d' = Some (Some [10]) \<and>
    vmLatestVersion listRocks d' = Some 2"
proof -
  obtain d' where d': "forEach (listenBlock listRocks) sampleStoreBlocks (\<lparr>currentBlockNumber = 0\<rparr>, ([], [])) = (Inr (), (\<lparr>currentBlockNumber = 2\<rparr>, d'))"
    by (simp add: sampleStoreBlocks_def listenBlock_def ListenCommit_def ListenFinalizeBlock_def PutAtVersion_def listRocks_def thenDo_def Let_def)
  have s: "sampleStoreBlocks \<noteq> []" "sorted_wrt (<) (map fst sampleStoreBlocks)" "upTo (snd (listView ([], []))) (fst (hd sampleStoreBlocks))"
    "\<forall>b \<in> set sampleStoreBlocks. \<forall>p \<in> set (snd b). plainName (spStore p)" "plainName ''bank''" "''bank'' \<in> set [''bank'', ''gov'']"
    by (simp_all add: sampleStoreBlocks_def upTo_def listView_def plainName_def)
  have "\<not> (2 :: u64) \<le> 1" by (simp add: word_le_nat_alt)
  then show ?thesis
    using d' versiondb_serves_blocks [OF listRocks_laws d' s refl, where version = "Some 1" and delegated = "[''mem'']" and key = "[1]"]
    by (fastforce simp: sampleStoreBlocks_def applyBlock_def applyStorePair_def)
qed

end
