(* ===== verification/QueryCache.thy ===== *)
theory QueryCache
  imports MultiTreeInv
begin

text \<open>
  The cache of historical multi trees, \<open>memiavl/rootmulti/query_cache.go\<close>: the versions in ascending order, a copy of the multi tree
  for each of them, the highest version published, and the multi tree pinned by a state-sync export. Every
  method runs under the mutex. Versions are signed integers; closing a tree and its lock only releases resources, whose
  errors are logged.
\<close>

section \<open>State\<close>

record 'c snapshotExporter =
  seVersion :: int
  seTree :: "'c multiTree"

record 'c queryDBCache =
  qEntries :: "(int \<times> 'c multiTree) list"
  qSeq :: "int list"
  qLatest :: int
  qExporter :: "'c snapshotExporter option"

record cacheOptions =
  HistoricalQueryLimit :: int
  coSnapshotInterval :: u32

datatype cacheError = InvalidExporter | ExporterExists

definition newQueryDBCache :: "'c queryDBCache" where
  "newQueryDBCache = \<lparr>qEntries = [], qSeq = [], qLatest = 0, qExporter = None\<rparr>"

definition qReset :: "'c queryDBCache \<Rightarrow> 'c queryDBCache" where
  "qReset c = c\<lparr>qEntries := [], qExporter := None, qSeq := [], qLatest := 0\<rparr>"

definition snapshotIntervalLimit :: "cacheOptions \<Rightarrow> int" where
  "snapshotIntervalLimit opts =
     (let limit = uint (coSnapshotInterval opts) in if limit \<le> 0 then 1000 else limit)"

definition CacheLimit :: "cacheOptions \<Rightarrow> int" where
  "CacheLimit opts =
     (let maxInterval = snapshotIntervalLimit opts; limit = HistoricalQueryLimit opts
      in (if limit \<le> 0 \<or> maxInterval < limit then maxInterval else limit) + 1)"

definition clampHistoricalCacheOptions :: "cacheOptions \<Rightarrow> cacheOptions" where
  "clampHistoricalCacheOptions opts =
     (let i = uint (coSnapshotInterval opts); maxInterval = (if i \<le> 0 then 1000 else i)
      in if HistoricalQueryLimit opts \<le> 0 \<or> maxInterval < HistoricalQueryLimit opts
         then opts\<lparr>HistoricalQueryLimit := maxInterval\<rparr> else opts)"

section \<open>Operations\<close>

definition insertVersion :: "int \<Rightarrow> int list \<Rightarrow> int list" where
  "insertVersion version sq =
     (let n = length sq in
      if n = 0 then sq @ [version]
      else if sq ! (n - 1) < version then sq @ [version]
      else if version = sq ! (n - 1) then sq
      else
        (let idx = sortSearch n (\<lambda>i. version \<le> sq ! i)
         in if idx < n \<and> sq ! idx = version then sq else take idx sq @ version # drop idx sq))"

text \<open>The loop of \<open>pruneHistoricalTrees\<close>.\<close>

fun pruneLoop :: "int \<Rightarrow> int list \<Rightarrow> (int \<times> 'm) list \<Rightarrow> int list \<times> (int \<times> 'm) list" where
  "pruneLoop limit [] entries = ([], entries)"
| "pruneLoop limit (version # sq) entries =
     (if limit < int (length (version # sq)) then pruneLoop limit sq (filter (\<lambda>e. fst e \<noteq> version) entries)
      else (version # sq, entries))"

definition pruneHistoricalTrees :: "cacheOptions \<Rightarrow> 'c queryDBCache \<Rightarrow> 'c queryDBCache" where
  "pruneHistoricalTrees opts c =
     (if CacheLimit opts \<le> 0 then c
      else (case pruneLoop (CacheLimit opts) (qSeq c) (qEntries c) of (sq, entries) \<Rightarrow> c\<lparr>qSeq := sq, qEntries := entries\<rparr>))"

text \<open>The copy also marks the trees of the database as shared.\<close>

definition AddHistoricalVersion :: "'c cacheOps \<Rightarrow> cacheOptions \<Rightarrow> int \<Rightarrow> 'c multiTree \<Rightarrow> 'c queryDBCache \<Rightarrow> 'c multiTree \<times> 'c queryDBCache" where
  "AddHistoricalVersion ops opts version mt c =
     (if version \<le> 0 then (mt, c)
      else if map_of (qEntries c) version \<noteq> None then (mt, c)
      else
        (let (mt', copy) = mtCopy ops 0 mt;
             c1 = c\<lparr>qEntries := (version, copy) # qEntries c, qSeq := insertVersion version (qSeq c)\<rparr>;
             c2 = pruneHistoricalTrees opts c1
         in (mt', if qLatest c2 < version then c2\<lparr>qLatest := version\<rparr> else c2)))"

text \<open>A hit copies the cached multi tree, so it changes the cache as well.\<close>

definition GetHistoricalTrees :: "'c cacheOps \<Rightarrow> int \<Rightarrow> 'c queryDBCache \<Rightarrow> ('c multiTree option \<times> int) \<times> 'c queryDBCache" where
  "GetHistoricalTrees ops version c =
     (case map_of (qEntries c) version of
        Some mt \<Rightarrow>
          (let (mt', copy) = mtCopy ops 0 mt
           in ((Some copy, qLatest c), c\<lparr>qEntries := map (\<lambda>e. if fst e = version then (version, mt') else e) (qEntries c)\<rparr>))
      | None \<Rightarrow>
          (case qExporter c of
             Some se \<Rightarrow>
               if seVersion se = version then
                 (let (mt', copy) = mtCopy ops 0 (seTree se) in ((Some copy, qLatest c), c\<lparr>qExporter := Some (se\<lparr>seTree := mt'\<rparr>)\<rparr>))
               else ((None, qLatest c), c)
           | None \<Rightarrow> ((None, qLatest c), c)))"

definition SetSnapshotExporter :: "int \<Rightarrow> 'c multiTree option \<Rightarrow> ('c queryDBCache, cacheError, unit) action" where
  "SetSnapshotExporter version mt c =
     (case mt of
        None \<Rightarrow> (Inl InvalidExporter, c)
      | Some m \<Rightarrow>
          if version \<le> 0 then (Inl InvalidExporter, c)
          else if qExporter c \<noteq> None then (Inl ExporterExists, c)
          else (Inr (), c\<lparr>qExporter := Some \<lparr>seVersion = version, seTree = m\<rparr>\<rparr>))"

definition PurgeSnapshotExporter :: "int \<Rightarrow> 'c queryDBCache \<Rightarrow> 'c queryDBCache" where
  "PurgeSnapshotExporter height c =
     (case qExporter c of
        Some se \<Rightarrow> if seVersion se = height then c\<lparr>qExporter := None\<rparr> else c
      | None \<Rightarrow> c)"

datatype missError = NotYetPublished int int | VersionNotFound int | VersionNotReady int

definition classifyCacheMiss :: "int \<Rightarrow> int \<Rightarrow> int \<Rightarrow> missError" where
  "classifyCacheMiss version cacheLatest cacheLimit =
     (if cacheLatest < version then NotYetPublished version cacheLatest
      else if cacheLimit \<le> cacheLatest - version then VersionNotFound version
      else VersionNotReady version)"

section \<open>Insertion and pruning\<close>

lemma last_greatest:
  fixes sq :: "int list"
  assumes "sorted sq" "x \<in> set sq"
  shows "x \<le> (sq ! (length sq - 1) :: int)"
proof -
  obtain i where i: "i < length sq" "x = sq ! i" using assms(2) by (auto simp: in_set_conv_nth)
  then have "i \<le> length sq - 1" "length sq - 1 < length sq" by auto
  then show ?thesis using sorted_nth_mono [OF assms(1)] i(2) by blast
qed

lemma insertVersion_middle:
  fixes sq :: "int list"
  assumes "sorted_wrt (<) sq" "sq \<noteq> []" "version \<le> sq ! (length sq - 1)"
  defines "idx \<equiv> sortSearch (length sq) (\<lambda>i. version \<le> sq ! i)"
  shows "idx < length sq" "version \<le> sq ! idx" "\<forall>x \<in> set (take idx sq). x < version" "\<forall>x \<in> set (drop idx sq). sq ! idx \<le> x"
proof -
  have s: "sorted sq" using assms(1) strict_sorted_iff by blast
  have mono: "version \<le> sq ! j" if "i \<le> j" "version \<le> sq ! i" "j < length sq" for i j
    using sorted_nth_mono [OF s that(1,3)] that(2) by (rule order_trans [rotated])
  have l2: "\<not> version \<le> sq ! a" if "a < idx" for a
    using sortSearch_least(2) [of "\<lambda>i. version \<le> sq ! i" "length sq" a] mono that unfolding idx_def by blast
  have l3: "version \<le> sq ! idx" if "idx < length sq"
    using sortSearch_least(3) [of "\<lambda>i. version \<le> sq ! i" "length sq"] mono that unfolding idx_def by blast
  show lt: "idx < length sq"
  proof (rule ccontr)
    assume "\<not> idx < length sq"
    then have "length sq - 1 < idx" using assms(2) by (cases sq) auto
    then show False using l2 assms(3) by blast
  qed
  show v: "version \<le> sq ! idx" by (rule l3 [OF lt])
  show "\<forall>x \<in> set (take idx sq). x < version"
  proof
    fix x assume "x \<in> set (take idx sq)"
    then obtain i where "i < idx" "x = sq ! i" by (auto simp: in_set_conv_nth)
    then show "x < version" using l2 by force
  qed
  show "\<forall>x \<in> set (drop idx sq). sq ! idx \<le> x"
  proof
    fix x assume "x \<in> set (drop idx sq)"
    then obtain i where "i < length sq - idx" "x = sq ! (idx + i)" by (auto simp: in_set_conv_nth)
    then show "sq ! idx \<le> x" using sorted_nth_mono [OF s, of idx "idx + i"] by simp
  qed
qed

lemma insertVersion_spec:
  assumes sorted: "sorted_wrt (<) sq"
  shows "sorted_wrt (<) (insertVersion version sq) \<and> set (insertVersion version sq) = insert version (set sq)"
proof -
  have s: "sorted sq" using sorted strict_sorted_iff by blast
  let ?idx = "sortSearch (length sq) (\<lambda>i. version \<le> sq ! i)" and ?last = "sq ! (length sq - 1)"
  consider "sq = []" | "sq \<noteq> []" "?last < version" | "sq \<noteq> []" "version = ?last" | "sq \<noteq> []" "version < ?last"
    using linorder_less_linear [of ?last version] by blast
  then show ?thesis
  proof cases
    case 2
    then have "\<forall>x \<in> set sq. x < version" using last_greatest [OF s] order_le_less_trans by blast
    moreover have "insertVersion version sq = sq @ [version]" using 2 by (simp add: insertVersion_def)
    ultimately show ?thesis using sorted by (simp add: sorted_wrt_append)
  next
    case 3
    then have "version \<in> set sq" using nth_mem [of "length sq - 1" sq] by simp
    moreover have "insertVersion version sq = sq" using 3 by (simp add: insertVersion_def)
    ultimately show ?thesis using sorted by (simp add: insert_absorb)
  next
    case 4
    note m = insertVersion_middle [OF sorted 4(1) less_imp_le [OF 4(2)]]
    show ?thesis
    proof (cases "sq ! ?idx = version")
      case True
      then have "version \<in> set sq" using nth_mem [OF m(1)] by simp
      moreover have "insertVersion version sq = sq" using True 4 m(1) by (simp add: insertVersion_def Let_def)
      ultimately show ?thesis using sorted by (simp add: insert_absorb)
    next
      case False
      have "version < sq ! ?idx" using False m(2) by simp
      then have "\<forall>x \<in> set (drop ?idx sq). version < x" using m(4) by force
      moreover have "sorted_wrt (<) (take ?idx sq @ drop ?idx sq)" using sorted by simp
      ultimately have "sorted_wrt (<) (take ?idx sq @ version # drop ?idx sq)"
        using m(3) by (simp only: sorted_wrt_append sorted_wrt.simps) (simp add: order_less_trans)
      moreover have "set sq = set (take ?idx sq) \<union> set (drop ?idx sq)" by (metis append_take_drop_id set_append)
      then have "set (take ?idx sq @ version # drop ?idx sq) = insert version (set sq)" by simp
      moreover have "insertVersion version sq = take ?idx sq @ version # drop ?idx sq"
        using False 4 by (simp add: insertVersion_def Let_def)
      ultimately show ?thesis by simp
    qed
  qed (simp add: insertVersion_def)
qed

lemma pruneLoop_spec:
  "0 \<le> limit \<Longrightarrow> pruneLoop limit sq entries =
     (drop (length sq - nat limit) sq, filter (\<lambda>e. fst e \<notin> set (take (length sq - nat limit) sq)) entries)"
proof (induction limit sq entries rule: pruneLoop.induct)
  case (2 limit version sq entries)
  show ?case
  proof (cases "limit < int (length (version # sq))")
    case True
    let ?n = "length sq - nat limit"
    have "length (version # sq) - nat limit = Suc ?n" using True 2(2) by simp
    moreover have "filter (\<lambda>e. fst e \<notin> set (take ?n sq)) (filter (\<lambda>e. fst e \<noteq> version) entries) =
        filter (\<lambda>e. fst e \<notin> set (take (Suc ?n) (version # sq))) entries" by (simp add: conj_commute)
    ultimately show ?thesis using 2 True by simp
  next
    case False
    then show ?thesis by simp
  qed
qed simp

section \<open>The window of versions\<close>

definition window :: "nat \<Rightarrow> int set \<Rightarrow> int set" where
  "window k V = {v \<in> V. card {w \<in> V. v < w} < k}"

lemma window_list:
  assumes "sorted_wrt (<) sq"
  shows "set (drop (length sq - k) sq) = window k (set sq)"
proof -
  have above: "card {w \<in> set sq. sq ! i < w} = length sq - Suc i" if "i < length sq" for i
  proof -
    have "{w \<in> set sq. sq ! i < w} = set (drop (Suc i) sq)"
    proof (intro equalityI subsetI)
      fix w assume "w \<in> {w \<in> set sq. sq ! i < w}"
      then obtain j where j: "j < length sq" "w = sq ! j" "sq ! i < sq ! j" by (auto simp: in_set_conv_nth)
      then have "i < j" using sorted_wrt_nth_less [OF assms, of j i] that by (metis linorder_neqE_nat order_less_asym)
      then show "w \<in> set (drop (Suc i) sq)" using j by (auto simp: in_set_conv_nth intro!: exI [of _ "j - Suc i"])
    next
      fix w assume "w \<in> set (drop (Suc i) sq)"
      then obtain j where "j < length sq - Suc i" "w = sq ! (Suc i + j)" by (auto simp: in_set_conv_nth)
      then show "w \<in> {w \<in> set sq. sq ! i < w}" using sorted_wrt_nth_less [OF assms, of i "Suc i + j"] by simp
    qed
    moreover have "distinct sq" using assms strict_sorted_iff by blast
    ultimately show ?thesis by (simp add: distinct_card)
  qed
  show ?thesis
  proof (intro equalityI subsetI)
    fix v assume "v \<in> set (drop (length sq - k) sq)"
    then obtain j where "j < length sq - (length sq - k)" "v = sq ! (length sq - k + j)" by (auto simp: in_set_conv_nth)
    then show "v \<in> window k (set sq)" using above [of "length sq - k + j"] by (auto simp: window_def)
  next
    fix v assume "v \<in> window k (set sq)"
    then obtain i where i: "i < length sq" "v = sq ! i" "length sq - Suc i < k"
      using above by (auto simp: window_def in_set_conv_nth)
    then show "v \<in> set (drop (length sq - k) sq)" by (auto simp: in_set_conv_nth intro!: exI [of _ "i - (length sq - k)"])
  qed
qed

lemma greatest_subset:
  "finite U \<Longrightarrow> k \<le> card U \<Longrightarrow> \<exists>T \<subseteq> U. card T = k \<and> (\<forall>t \<in> T. \<forall>u \<in> U - T. u < (t :: int))"
proof (induction k)
  case (Suc k)
  then obtain T where T: "T \<subseteq> U" "card T = k" "\<forall>t \<in> T. \<forall>u \<in> U - T. u < t" by auto
  have fin: "finite (U - T)" "finite T" using Suc.prems(1) T(1) finite_subset by auto
  have "U - T \<noteq> {}" using T(1,2) Suc.prems by auto
  then have m: "Max (U - T) \<in> U - T" "\<forall>u \<in> U - T. u \<le> Max (U - T)" using fin(1) Max_in Max_ge by blast+
  have "card (insert (Max (U - T)) T) = Suc k" using m(1) T(2) fin by simp
  moreover have "u < t" if tu: "t \<in> insert (Max (U - T)) T" "u \<in> U - insert (Max (U - T)) T" for t u
  proof -
    have "u \<in> U - T" "u \<noteq> Max (U - T)" using tu(2) by auto
    then show ?thesis using tu(1) m(2) T(3) by (metis insertE order_le_less)
  qed
  ultimately show ?case using T(1) m(1) by (intro exI [of _ "insert (Max (U - T)) T"]) auto
qed auto

lemma window_insert:
  assumes fin: "finite V"
  shows "window k (insert v (window k V)) = window k (insert v V)"
proof (intro equalityI subsetI)
  let ?W = "window k V"
  have sub: "?W \<subseteq> V" by (auto simp: window_def)
  fix x
  {
    assume x: "x \<in> window k (insert v V)"
    have "card {w \<in> V. x < w} \<le> card {w \<in> insert v V. x < w}" by (intro card_mono) (use fin in auto)
    then have "x \<in> insert v ?W" using x by (auto simp: window_def)
    moreover have "card {w \<in> insert v ?W. x < w} \<le> card {w \<in> insert v V. x < w}" by (intro card_mono) (use fin sub in auto)
    ultimately show "x \<in> window k (insert v ?W)" using x by (simp add: window_def)
  }
  assume x: "x \<in> window k (insert v ?W)"
  have "w \<in> ?W" if w: "w \<in> V" "x < w" for w
  proof (rule ccontr)
    let ?U = "{u \<in> V. w < u}"
    assume "w \<notin> ?W"
    then have "k \<le> card ?U" using w(1) by (simp add: window_def)
    then obtain T where T: "T \<subseteq> ?U" "card T = k" "\<forall>t \<in> T. \<forall>u \<in> ?U - T. u < t" using greatest_subset [of ?U k] fin by auto
    have finT: "finite T" using finite_subset [OF T(1)] fin by simp
    have "T \<subseteq> {u \<in> insert v ?W. x < u}"
    proof
      fix t assume t: "t \<in> T"
      have wt: "w < t" "t \<in> V" using T(1) t by auto
      have "u \<in> T - {t}" if u: "u \<in> V" "t < u" for u
      proof -
        have "u \<in> ?U" using u wt(1) by simp
        then have "u \<in> T" using T(3) t u(2) by (meson DiffI order_less_asym)
        then show ?thesis using u(2) by blast
      qed
      then have "{u \<in> V. t < u} \<subseteq> T - {t}" by blast
      then have "card {u \<in> V. t < u} < k" using T(2) t finT by (metis card_Diff1_less card_mono finite_Diff order_le_less_trans)
      then show "t \<in> {u \<in> insert v ?W. x < u}" using wt w(2) by (auto simp: window_def)
    qed
    then have "k \<le> card {u \<in> insert v ?W. x < u}" using T(2) fin sub card_mono [of "{u \<in> insert v ?W. x < u}" T] finite_subset [OF sub fin] by auto
    then show False using x by (simp add: window_def)
  qed
  then have "{w \<in> insert v ?W. x < w} = {w \<in> insert v V. x < w}" using sub by auto
  then show "x \<in> window k (insert v V)" using x sub by (auto simp: window_def)
qed

section \<open>Invariant\<close>

lemma CacheLimit_pos: "2 \<le> CacheLimit opts"
proof -
  have "1 \<le> uint (coSnapshotInterval opts)" if "uint (coSnapshotInterval opts) \<noteq> 0" using that uint_ge_0 [of "coSnapshotInterval opts"] by linarith
  then have "1 \<le> snapshotIntervalLimit opts" by (simp add: snapshotIntervalLimit_def Let_def)
  then show ?thesis by (simp add: CacheLimit_def Let_def)
qed

lemma clamp_limit: "CacheLimit (clampHistoricalCacheOptions opts) = CacheLimit opts"
  by (auto simp: CacheLimit_def clampHistoricalCacheOptions_def snapshotIntervalLimit_def Let_def)

text \<open>The cache after versions \<open>V\<close> have been added, with the trees in \<open>adds\<close>: it holds the greatest of them.\<close>

definition qcacheOK :: "'c cacheOps \<Rightarrow> cacheOptions \<Rightarrow> (int \<times> 'c multiTree) list \<Rightarrow> 'c queryDBCache \<Rightarrow> bool" where
  "qcacheOK ops opts adds c \<longleftrightarrow>
     (let V = {v \<in> fst ` set adds. 0 < v} in
      sorted_wrt (<) (qSeq c) \<and> set (qSeq c) = window (nat (CacheLimit opts)) V \<and> fst ` set (qEntries c) = set (qSeq c) \<and>
      (\<forall>e \<in> set (qEntries c). \<exists>mt. (fst e, mt) \<in> set adds \<and> snd e = snd (mtCopy ops 0 mt)) \<and>
      qLatest c = (if V = {} then 0 else Max V) \<and> int (length (qSeq c)) \<le> CacheLimit opts \<and> qExporter c = None)"

lemma qcacheOK_new: "qcacheOK ops opts [] newQueryDBCache"
  using CacheLimit_pos [of opts] by (simp add: qcacheOK_def newQueryDBCache_def window_def)

lemma prune_spec:
  assumes sorted: "sorted_wrt (<) (qSeq c)" and keys: "fst ` set (qEntries c) = set (qSeq c)"
  shows "sorted_wrt (<) (qSeq (pruneHistoricalTrees opts c))"
    "set (qSeq (pruneHistoricalTrees opts c)) = window (nat (CacheLimit opts)) (set (qSeq c))"
    "fst ` set (qEntries (pruneHistoricalTrees opts c)) = set (qSeq (pruneHistoricalTrees opts c))"
    "set (qEntries (pruneHistoricalTrees opts c)) \<subseteq> set (qEntries c)" "qLatest (pruneHistoricalTrees opts c) = qLatest c"
    "int (length (qSeq (pruneHistoricalTrees opts c))) \<le> CacheLimit opts" "qExporter (pruneHistoricalTrees opts c) = qExporter c"
proof -
  let ?n = "length (qSeq c) - nat (CacheLimit opts)"
  have p: "pruneHistoricalTrees opts c = c\<lparr>qSeq := drop ?n (qSeq c), qEntries := filter (\<lambda>e. fst e \<notin> set (take ?n (qSeq c))) (qEntries c)\<rparr>"
    using CacheLimit_pos [of opts] by (simp add: pruneHistoricalTrees_def pruneLoop_spec)
  show "sorted_wrt (<) (qSeq (pruneHistoricalTrees opts c))" unfolding p using sorted by (simp add: sorted_wrt_drop)
  show "set (qSeq (pruneHistoricalTrees opts c)) = window (nat (CacheLimit opts)) (set (qSeq c))" unfolding p by (simp add: window_list [OF sorted])
  have "distinct (qSeq c)" using sorted strict_sorted_iff by blast
  then have "set (take ?n (qSeq c)) \<inter> set (drop ?n (qSeq c)) = {}" "set (qSeq c) = set (take ?n (qSeq c)) \<union> set (drop ?n (qSeq c))"
    by (simp add: set_take_disj_set_drop_if_distinct, metis append_take_drop_id set_append)
  then have "set (drop ?n (qSeq c)) = set (qSeq c) - set (take ?n (qSeq c))" by blast
  moreover have "fst ` set (filter (\<lambda>e. fst e \<notin> set (take ?n (qSeq c))) (qEntries c)) = fst ` set (qEntries c) - set (take ?n (qSeq c))" by auto
  ultimately show "fst ` set (qEntries (pruneHistoricalTrees opts c)) = set (qSeq (pruneHistoricalTrees opts c))" unfolding p using keys by simp
  show "set (qEntries (pruneHistoricalTrees opts c)) \<subseteq> set (qEntries c)" "qLatest (pruneHistoricalTrees opts c) = qLatest c"
    "qExporter (pruneHistoricalTrees opts c) = qExporter c" unfolding p by auto
  show "int (length (qSeq (pruneHistoricalTrees opts c))) \<le> CacheLimit opts" unfolding p using CacheLimit_pos [of opts] by simp
qed

lemma qcacheOK_add:
  assumes ok: "qcacheOK ops opts adds c"
  shows "qcacheOK ops opts (adds @ [(v, mt)]) (snd (AddHistoricalVersion ops opts v mt c))"
proof -
  define V where "V = {v \<in> fst ` set adds. 0 < v}"
  have fin: "finite V" by (simp add: V_def)
  have sq: "sorted_wrt (<) (qSeq c)" "set (qSeq c) = window (nat (CacheLimit opts)) V" "fst ` set (qEntries c) = set (qSeq c)"
    "\<forall>e \<in> set (qEntries c). \<exists>mt. (fst e, mt) \<in> set adds \<and> snd e = snd (mtCopy ops 0 mt)" "qLatest c = (if V = {} then 0 else Max V)"
    "int (length (qSeq c)) \<le> CacheLimit opts" "qExporter c = None"
    using ok by (simp_all add: qcacheOK_def V_def Let_def)
  have old: "\<forall>e \<in> set (qEntries c). \<exists>m. (fst e, m) \<in> set (adds @ [(v, mt)]) \<and> snd e = snd (mtCopy ops 0 m)" using sq(4) by fastforce
  have V': "{w \<in> fst ` set (adds @ [(v, mt)]). 0 < w} = (if 0 < v then insert v V else V)" by (auto simp: V_def)
  have hit: "map_of (qEntries c) v \<noteq> None \<longleftrightarrow> v \<in> set (qSeq c)" using sq(3) map_of_eq_None_iff by metis
  have win: "window (nat (CacheLimit opts)) V \<subseteq> V" by (auto simp: window_def)
  show ?thesis
  proof (cases "v \<le> 0 \<or> v \<in> set (qSeq c)")
    case True
    then have "(if 0 < v then insert v V else V) = V" using sq(2) win by auto
    then show ?thesis
      using True hit sq old unfolding qcacheOK_def V' Let_def by (auto simp: AddHistoricalVersion_def)
  next
    case False
    then have v: "0 < v" "map_of (qEntries c) v = None" using hit by auto
    define c1 where "c1 = c\<lparr>qEntries := (v, snd (mtCopy ops 0 mt)) # qEntries c, qSeq := insertVersion v (qSeq c)\<rparr>"
    define c2 where "c2 = pruneHistoricalTrees opts c1"
    have add: "snd (AddHistoricalVersion ops opts v mt c) = (if qLatest c2 < v then c2\<lparr>qLatest := v\<rparr> else c2)"
      using v by (simp add: AddHistoricalVersion_def c2_def c1_def Let_def split: prod.split)
    have s1: "sorted_wrt (<) (qSeq c1)" "set (qSeq c1) = insert v (set (qSeq c))" using insertVersion_spec [OF sq(1), of v] by (simp_all add: c1_def)
    have k1: "fst ` set (qEntries c1) = set (qSeq c1)" using sq(3) s1(2) by (simp add: c1_def)
    note pr = prune_spec [OF s1(1) k1, of opts, folded c2_def]
    have "set (qSeq c2) = window (nat (CacheLimit opts)) (insert v V)" unfolding pr(2) s1(2) sq(2) by (rule window_insert [OF fin])
    moreover have "qLatest c2 = qLatest c" using pr(5) by (simp add: c1_def)
    then have "(if qLatest c2 < v then v else qLatest c2) = Max (insert v V)"
      using sq(5) v(1) fin by (cases "V = {}") (simp_all add: Max_insert max_def del: Max_less_iff Max_ge_iff Max_gr_iff Max_le_iff)
    moreover have "\<forall>e \<in> set (qEntries c2). \<exists>m. (fst e, m) \<in> set (adds @ [(v, mt)]) \<and> snd e = snd (mtCopy ops 0 m)"
    proof
      fix e assume "e \<in> set (qEntries c2)"
      then have "e \<in> set (qEntries c) \<or> e = (v, snd (mtCopy ops 0 mt))" using pr(4) by (auto simp: c1_def)
      then show "\<exists>m. (fst e, m) \<in> set (adds @ [(v, mt)]) \<and> snd e = snd (mtCopy ops 0 m)" using old by auto
    qed
    ultimately show ?thesis
      using pr(1,3,6,7) sq(7) v(1) unfolding qcacheOK_def V' add Let_def by (auto simp: c1_def split: if_splits)
  qed
qed

definition addAll :: "'c cacheOps \<Rightarrow> cacheOptions \<Rightarrow> (int \<times> 'c multiTree) list \<Rightarrow> 'c queryDBCache \<Rightarrow> 'c queryDBCache" where
  "addAll ops opts adds c = fold (\<lambda>a c. snd (AddHistoricalVersion ops opts (fst a) (snd a) c)) adds c"

lemma qcacheOK_addAll: "qcacheOK ops opts old c \<Longrightarrow> qcacheOK ops opts (old @ adds) (addAll ops opts adds c)"
proof (induction adds arbitrary: old c)
  case (Cons a adds)
  have "qcacheOK ops opts (old @ [a]) (snd (AddHistoricalVersion ops opts (fst a) (snd a) c))"
    using qcacheOK_add [OF Cons.prems, of "fst a" "snd a"] by simp
  from Cons.IH [OF this] show ?case by (simp add: addAll_def)
qed (simp add: addAll_def)

lemma mtCopy_same: "contents (snd (mtCopy ops n mt)) = contents mt" "mtVersion (snd (mtCopy ops n mt)) = mtVersion mt"
proof -
  have "map (\<lambda>nt. (fst nt, map_of (rootLeaves (troot (snd nt))))) (mtrees (snd (mtCopy ops n mt))) =
      map (\<lambda>nt. (fst nt, map_of (rootLeaves (troot (snd nt))))) (mtrees mt)"
    by (simp add: mtCopy_def treeCopy_def Let_def comp_def split_beta)
  then show "contents (snd (mtCopy ops n mt)) = contents mt" by (simp add: contents_alt)
  show "mtVersion (snd (mtCopy ops n mt)) = mtVersion mt" by (simp add: mtCopy_def mtVersion_def Let_def)
qed

section \<open>Properties\<close>

text \<open>C28: the query cache is a sliding window. After versions have been added to an empty cache in any order, by commits and by the loader in the
  background, exactly the greatest of the positive ones, as many as the limit allows, are served, each with the version
  and contents of a multi tree that was added under it; the advertised latest version is the greatest one and is always
  served; clamping the options does not change the limit.\<close>

theorem queryCache_window:
  assumes c: "c = addAll ops opts adds newQueryDBCache" and V: "V = {v \<in> fst ` set adds. 0 < v}"
  shows "sorted_wrt (<) (qSeq c) \<and> set (qSeq c) = window (nat (CacheLimit opts)) V \<and> int (length (qSeq c)) \<le> CacheLimit opts \<and>
    (V = {} \<longrightarrow> qLatest c = 0) \<and> (V \<noteq> {} \<longrightarrow> qLatest c = Max V \<and> qLatest c \<in> set (qSeq c)) \<and>
    CacheLimit (clampHistoricalCacheOptions opts) = CacheLimit opts \<and>
    (\<forall>v. (case fst (GetHistoricalTrees ops v c) of (None, latest) \<Rightarrow> v \<notin> set (qSeq c) \<and> latest = qLatest c
          | (Some t, latest) \<Rightarrow> v \<in> set (qSeq c) \<and> latest = qLatest c \<and> (\<exists>mt. (v, mt) \<in> set adds \<and> mtVersion t = mtVersion mt \<and> contents t = contents mt)))"
proof -
  have ok: "qcacheOK ops opts adds c" using qcacheOK_addAll [OF qcacheOK_new, of ops opts adds] c by simp
  have sq: "sorted_wrt (<) (qSeq c)" "set (qSeq c) = window (nat (CacheLimit opts)) V" "fst ` set (qEntries c) = set (qSeq c)"
    "\<forall>e \<in> set (qEntries c). \<exists>mt. (fst e, mt) \<in> set adds \<and> snd e = snd (mtCopy ops 0 mt)" "qLatest c = (if V = {} then 0 else Max V)"
    "int (length (qSeq c)) \<le> CacheLimit opts" "qExporter c = None"
    using ok V by (simp_all add: qcacheOK_def Let_def)
  have "Max V \<in> window (nat (CacheLimit opts)) V" if "V \<noteq> {}"
  proof -
    have fin: "finite V" by (simp add: V)
    then have "{w \<in> V. Max V < w} = {}" using Max_ge by (auto simp: not_le [symmetric])
    then have "card {w \<in> V. Max V < w} = 0" by (simp only: card.empty)
    then show ?thesis using Max_in [OF fin that] CacheLimit_pos [of opts] unfolding window_def by (simp del: card_0_eq card_eq_0_iff)
  qed
  then have latest: "V \<noteq> {} \<longrightarrow> qLatest c = Max V \<and> qLatest c \<in> set (qSeq c)" using sq(2,5) by auto
  have "case fst (GetHistoricalTrees ops v c) of (None, latest) \<Rightarrow> v \<notin> set (qSeq c) \<and> latest = qLatest c
      | (Some t, latest) \<Rightarrow> v \<in> set (qSeq c) \<and> latest = qLatest c \<and> (\<exists>mt. (v, mt) \<in> set adds \<and> mtVersion t = mtVersion mt \<and> contents t = contents mt)" for v
  proof (cases "map_of (qEntries c) v")
    case None
    then have "v \<notin> set (qSeq c)" using sq(3) map_of_eq_None_iff by metis
    then show ?thesis using None sq(7) by (simp add: GetHistoricalTrees_def)
  next
    case (Some m)
    then have mem: "(v, m) \<in> set (qEntries c)" by (rule map_of_SomeD)
    then obtain mt where mt: "(v, mt) \<in> set adds" "m = snd (mtCopy ops 0 mt)" using sq(4) by fastforce
    have "v \<in> set (qSeq c)" using mem sq(3) by force
    moreover have "mtVersion (snd (mtCopy ops 0 m)) = mtVersion mt \<and> contents (snd (mtCopy ops 0 m)) = contents mt" using mt(2) by (simp add: mtCopy_same)
    moreover have "fst (GetHistoricalTrees ops v c) = (Some (snd (mtCopy ops 0 m)), qLatest c)"
      using Some by (simp add: GetHistoricalTrees_def Let_def split: prod.split)
    ultimately show ?thesis using mt(1) by auto
  qed
  then show ?thesis using sq latest clamp_limit [of opts] by auto
qed

definition sampleCacheOptions :: cacheOptions where
  "sampleCacheOptions = \<lparr>HistoricalQueryLimit = 2, coSnapshotInterval = 1000\<rparr>"

theorem queryCache_window_witness:
  "set (qSeq (addAll fifoOps sampleCacheOptions (map (\<lambda>v. (v, NewEmptyMultiTree 0 0)) [5, 3, 6, 4, 7]) newQueryDBCache)) = {5, 6, 7}"
proof -
  have "window 3 {3, 4, 5, 6, 7} = {5, 6, 7 :: int}"
    using window_list [of "[3, 4, 5, 6, 7 :: int]" 3] by simp
  moreover have "nat (CacheLimit sampleCacheOptions) = 3" by (simp add: CacheLimit_def snapshotIntervalLimit_def sampleCacheOptions_def)
  moreover have "{v \<in> fst ` set (map (\<lambda>v. (v, NewEmptyMultiTree 0 0 :: (nat \<times> (bytes \<times> bytes) list) multiTree)) [5, 3, 6, 4, 7]). 0 < v} = {3, 4, 5, 6, 7 :: int}" by auto
  ultimately show ?thesis
    using queryCache_window [OF refl refl, of fifoOps sampleCacheOptions "map (\<lambda>v. (v, NewEmptyMultiTree 0 0)) [5, 3, 6, 4, 7]"] by simp
qed

end
