(* ===== verification/Spec2Isabelle.thy ===== *)
theory Spec2Isabelle
  imports TreeImport DbBlock ConvertSST VersionMulti QueryCache
begin

text \<open>
  Verification of the Go repository under \<open>src/\<close>.
\<close>

end
